(* ===== verification/Prelude.thy ===== *)
theory Prelude
  imports Main "HOL-Library.Word"
begin

text \<open>
  Shared vocabulary of the development: the widths of the C integers, the way a
  (pointer, length) pair is read as a list, the environment's answers, and the generic list
  lemmas that the components use.

  Conventions used in every theory:
  \<^item> \<open>uint8_t\<close>, \<open>uint16_t\<close>, \<open>uint32_t\<close>/\<open>k_u32\<close>, \<open>uint64_t\<close>/\<open>k_u64\<close> are words of that
    width, so that their arithmetic wraps as in C; \<open>int\<close> return codes are \<open>int\<close>.
  \<^item> a \<open>size_t\<close> that counts bytes of an object in memory is a \<open>nat\<close>; where the code guards
    against overflow of a \<open>size_t\<close>, the sums are taken modulo \<open>2 ^ 64\<close> (see \<open>Byte_Buffer\<close>).
  \<^item> a pair (pointer, length) is the list of the bytes it denotes; where the code compares the
    pointer with NULL the argument is an option and NULL is \<open>None\<close>.
  \<^item> an operating-system call whose outcome the program does not control is answered by a
    function of the number of the call, which is an argument of the definitions; every
    behaviour of the environment is one such function.
\<close>

type_synonym u8 = "8 word"
type_synonym u16 = "16 word"
type_synonym u32 = "32 word"
type_synonym u64 = "64 word"
type_synonym bytes = "u8 list"

text \<open>
  Collections: \<open>annexb\<close> holds the facts about start codes and the splitting loop, \<open>frame\<close>
  the facts that an operation leaves a part of the state alone, \<open>little_same\<close> the equations
  between the functions of the earlier version of the application and those of the later one.
\<close>

named_theorems annexb
named_theorems frame
named_theorems little_same

definition SIZE_MAX :: nat where
  "SIZE_MAX = 2 ^ 64 - 1"

text \<open>The bytes from \<open>a\<close> (inclusive) to \<open>b\<close> (exclusive): \<open>buf + a\<close> with length \<open>b - a\<close>.\<close>

definition bslice :: "'a list \<Rightarrow> nat \<Rightarrow> nat \<Rightarrow> 'a list" where
  "bslice xs a b = take (b - a) (drop a xs)"

lemma length_bslice [simp]: "b \<le> length xs \<Longrightarrow> length (bslice xs a b) = b - a"
  by (simp add: bslice_def)

lemma bslice_eq_Nil_iff: "b \<le> length xs \<Longrightarrow> bslice xs a b = [] \<longleftrightarrow> b \<le> a"
  by (auto simp: bslice_def)

lemma nth_bslice: "b \<le> length xs \<Longrightarrow> i < b - a \<Longrightarrow> bslice xs a b ! i = xs ! (a + i)"
  by (simp add: bslice_def)

lemma bslice_append_shift [simp]:
  "bslice (ys @ xs) (length ys + a) (length ys + b) = bslice xs a b"
  by (simp add: bslice_def)

lemma bslice_split:
  "a \<le> b \<Longrightarrow> b \<le> c \<Longrightarrow> bslice xs a c = bslice xs a b @ bslice xs b c"
proof -
  assume "a \<le> b" and "b \<le> c"
  then have "take (c - a) (drop a xs) = take ((b - a) + (c - b)) (drop a xs)"
    by simp
  also have "\<dots> = take (b - a) (drop a xs) @ take (c - b) (drop (b - a) (drop a xs))"
    by (rule take_add)
  finally show ?thesis
    using \<open>a \<le> b\<close> by (simp add: bslice_def)
qed

lemma bslice_to_end: "bslice xs a (length xs) = drop a xs"
  by (simp add: bslice_def)

lemma bslice_prefix: "bslice (xs @ ys) 0 (length xs) = xs"
  by (simp add: bslice_def)

lemma take3_eq_iff:
  "take 3 (drop i xs) = [a, b, c] \<longleftrightarrow>
     i + 3 \<le> length xs \<and> xs ! i = a \<and> xs ! (i + 1) = b \<and> xs ! (i + 2) = c"
proof (cases "i + 3 \<le> length xs")
  case True
  then have "drop i xs = xs ! i # xs ! (i + 1) # xs ! (i + 2) # drop (i + 3) xs"
    by (simp add: Cons_nth_drop_Suc numeral_3_eq_3)
  with True show ?thesis by simp
next
  case False
  then have "length (take 3 (drop i xs)) \<noteq> 3" by simp
  with False show ?thesis by (metis length_Cons list.size(3) numeral_3_eq_3)
qed

lemma take4_eq_iff:
  "take 4 (drop i xs) = [a, b, c, d] \<longleftrightarrow>
     i + 4 \<le> length xs \<and> xs ! i = a \<and> xs ! (i + 1) = b \<and> xs ! (i + 2) = c \<and> xs ! (i + 3) = d"
proof (cases "i + 4 \<le> length xs")
  case True
  then have "drop i xs = xs ! i # xs ! (i + 1) # xs ! (i + 2) # xs ! (i + 3) # drop (i + 4) xs"
    by (simp add: Cons_nth_drop_Suc eval_nat_numeral)
  with True show ?thesis by simp
next
  case False
  then have "length (take 4 (drop i xs)) \<noteq> 4" by simp
  with False show ?thesis by (metis length_Cons list.size(3) eval_nat_numeral(2) numeral_3_eq_3 semiring_norm(26,27))
qed

text \<open>
  Answers of the memory allocator: \<open>A t n\<close> says whether the \<open>t\<close>-th request, for \<open>n\<close> bytes,
  succeeds.
\<close>

type_synonym alloc_env = "nat \<Rightarrow> nat \<Rightarrow> bool"


section \<open>32-bit sums\<close>

lemma u32_bound: "unat (w :: u32) \<le> 0xffffffff"
  using unsigned_less [of w, where 'a = nat] by simp

lemma u32_add: "unat a + unat b \<le> 0xffffffff \<Longrightarrow> unat (a + b) = unat a + unat (b :: u32)"
  by (simp add: unat_word_ariths)

lemma u32_max_minus: "unat (0xffffffff - (l :: u32)) = 0xffffffff - unat l"
proof -
  have "l \<le> 0xffffffff" using u32_bound [of l] by (simp add: word_le_nat_alt)
  then show ?thesis by (simp add: unat_sub)
qed

lemma u32_guard: "(s :: u32) \<le> 0xffffffff - l \<longleftrightarrow> unat s + unat l \<le> 0xffffffff"
  using u32_bound [of l] by (auto simp: word_le_nat_alt u32_max_minus)

end
