(* ===== verification/Annexb.thy ===== *)
theory Annexb
  imports Prelude
begin

text \<open>
  The Annex-B byte stream of H.265: NALUs separated by the start codes \<open>00 00 01\<close> and
  \<open>00 00 00 01\<close>. This theory models the scanner of \<open>src/rtp.c\<close> (\<open>find_start_code\<close>,
  \<open>buffer_starts_with_start_code\<close>), the part of a loop iteration that the four splitting loops
  of the program share (find a start code, find the next one, cut off trailing zero bytes), and
  \<open>load_annexb_nalus\<close>, which splits a whole file. The locale \<open>start_code_scanner\<close> states what
  a scanner promises; the copies of the scanner in \<open>RTSP_Create.c\<close> and
  \<open>datafifo_snapshot.c\<close> interpret it too (theories \<open>Playback\<close> and \<open>Snapshot\<close>).
\<close>

section \<open>The scanner of rtp.c\<close>

text \<open>
  The loop \<open>for (i = offset; i + 3 <= size; i++)\<close>. The result is the position and
  \<open>*start_code_len\<close>; \<open>None\<close> stands for \<open>-1\<close>. Every byte that is read has an index below
  \<open>size\<close> by the guard in front of it.
\<close>

function find_start_code :: "bytes \<Rightarrow> nat \<Rightarrow> (nat \<times> nat) option" where
  "find_start_code buf i =
     (if i + 3 \<le> length buf then
        if i + 3 \<le> length buf \<and> buf ! i = 0 \<and> buf ! (i + 1) = 0 \<and> buf ! (i + 2) = 1
        then Some (i, 3)
        else if i + 4 \<le> length buf \<and> buf ! i = 0 \<and> buf ! (i + 1) = 0 \<and>
                buf ! (i + 2) = 0 \<and> buf ! (i + 3) = 1
        then Some (i, 4)
        else find_start_code buf (i + 1)
      else None)"
  by pat_completeness auto
termination
  by (relation "measure (\<lambda>(buf, i). length buf - i)") auto

declare find_start_code.simps [simp del]

definition buffer_starts_with_start_code :: "bytes option \<Rightarrow> nat option" where
  "buffer_starts_with_start_code bufp =
     (case bufp of
        None \<Rightarrow> None
      | Some buf \<Rightarrow>
          if length buf < 3 then None
          else if buf ! 0 = 0 \<and> buf ! 1 = 0 \<and> buf ! 2 = 1 then Some 3
          else if length buf \<ge> 4 \<and> buf ! 0 = 0 \<and> buf ! 1 = 0 \<and> buf ! 2 = 0 \<and> buf ! 3 = 1
          then Some 4
          else None)"

section \<open>What a scanner promises\<close>

definition sc_at :: "bytes \<Rightarrow> nat \<Rightarrow> nat \<Rightarrow> bool" where
  "sc_at buf i l \<longleftrightarrow>
     l = 3 \<and> take 3 (drop i buf) = [0, 0, 1] \<or>
     l = 4 \<and> take 4 (drop i buf) = [0, 0, 0, 1]"

definition is_sc :: "bytes \<Rightarrow> nat \<Rightarrow> bool" where
  "is_sc buf i \<longleftrightarrow> sc_at buf i 3 \<or> sc_at buf i 4"

lemma sc_at_3: "sc_at buf i 3 \<longleftrightarrow>
    i + 3 \<le> length buf \<and> buf ! i = 0 \<and> buf ! (i + 1) = 0 \<and> buf ! (i + 2) = 1"
  by (simp only: sc_at_def take3_eq_iff) simp

lemma sc_at_4: "sc_at buf i 4 \<longleftrightarrow>
    i + 4 \<le> length buf \<and> buf ! i = 0 \<and> buf ! (i + 1) = 0 \<and> buf ! (i + 2) = 0 \<and> buf ! (i + 3) = 1"
  by (simp only: sc_at_def take4_eq_iff) simp

lemma sc_at_cases: "sc_at buf i l \<Longrightarrow> l = 3 \<or> l = 4"
  by (auto simp: sc_at_def)

lemma sc_at_is_sc: "sc_at buf i l \<Longrightarrow> is_sc buf i"
  by (auto simp: sc_at_def is_sc_def)

lemma sc_at_bound [annexb]: "sc_at buf i l \<Longrightarrow> i + l \<le> length buf \<and> 3 \<le> l \<and> l \<le> 4"
  using sc_at_cases [of buf i l] sc_at_3 [of buf i] sc_at_4 [of buf i] by auto

lemma sc_at_unique: "sc_at buf i l \<Longrightarrow> sc_at buf i l' \<Longrightarrow> l = l'"
proof -
  have "\<not> (sc_at buf i 3 \<and> sc_at buf i 4)"
    by (auto simp: sc_at_3 sc_at_4)
  then show "sc_at buf i l \<Longrightarrow> sc_at buf i l' \<Longrightarrow> l = l'"
    using sc_at_cases by blast
qed

lemma sc_at_append_right: "sc_at buf i l \<Longrightarrow> sc_at (buf @ ys) i l"
  using sc_at_bound [of buf i l] by (auto simp: sc_at_def)

lemma is_sc_first_zero: "is_sc buf i \<Longrightarrow> i < length buf \<and> buf ! i = 0"
  by (auto simp: is_sc_def sc_at_3 sc_at_4)

text \<open>
  \<open>ok\<close> is the range of buffers for which the promise holds (a scanner whose result is an
  \<open>int\<close> keeps it only for buffers below 2 GiB).
\<close>

locale start_code_scanner =
  fixes scan :: "bytes \<Rightarrow> nat \<Rightarrow> (nat \<times> nat) option"
    and ok :: "bytes \<Rightarrow> bool"
  assumes scan_Some: "ok buf \<Longrightarrow> scan buf off = Some (i, l) \<Longrightarrow>
      off \<le> i \<and> sc_at buf i l \<and> (\<forall>j. off \<le> j \<and> j < i \<longrightarrow> \<not> is_sc buf j)"
    and scan_None: "ok buf \<Longrightarrow> scan buf off = None \<Longrightarrow> off \<le> j \<Longrightarrow> \<not> is_sc buf j"
begin

lemma scan_bounds:
  assumes "ok buf" and "scan buf off = Some (i, l)"
  shows "off \<le> i" and "i + l \<le> length buf" and "3 \<le> l" and "l \<le> 4"
  using scan_Some [OF assms] sc_at_bound [of buf i l] by auto

lemma scan_characterised:
  assumes "ok buf"
  shows "scan buf off = Some (i, l) \<longleftrightarrow>
    off \<le> i \<and> sc_at buf i l \<and> (\<forall>j. off \<le> j \<and> j < i \<longrightarrow> \<not> is_sc buf j)"
proof
  assume "scan buf off = Some (i, l)"
  then show "off \<le> i \<and> sc_at buf i l \<and> (\<forall>j. off \<le> j \<and> j < i \<longrightarrow> \<not> is_sc buf j)"
    by (rule scan_Some [OF assms])
next
  assume r: "off \<le> i \<and> sc_at buf i l \<and> (\<forall>j. off \<le> j \<and> j < i \<longrightarrow> \<not> is_sc buf j)"
  show "scan buf off = Some (i, l)"
  proof (cases "scan buf off")
    case None
    with r scan_None [OF assms None] sc_at_is_sc show ?thesis by blast
  next
    case (Some p)
    then obtain i' l' where p: "scan buf off = Some (i', l')" by (cases p) auto
    note s = scan_Some [OF assms p]
    have "i' = i"
      using r s sc_at_is_sc [of buf i l] sc_at_is_sc [of buf i' l'] by (meson linorder_neqE_nat)
    moreover with r s have "l' = l" using sc_at_unique by blast
    ultimately show ?thesis using p by simp
  qed
qed

lemma scan_at:
  assumes "ok buf" and "sc_at buf i l"
  shows "scan buf i = Some (i, l)"
  using assms by (auto simp: scan_characterised)

lemma scan_resume:
  assumes "ok buf" and "scan buf off = Some (i, l)"
  shows "scan buf i = Some (i, l)"
  using scan_at [OF assms(1)] scan_Some [OF assms] by blast

end

text \<open>Two scanners agree wherever both keep the promise.\<close>

lemma scanners_agree:
  assumes "start_code_scanner f okf" and "start_code_scanner g okg" and "okf buf" and "okg buf"
  shows "f buf off = g buf off"
proof (cases "g buf off")
  case None
  show ?thesis
  proof (cases "f buf off")
    case (Some p)
    then obtain i l where "f buf off = Some (i, l)" by (cases p) auto
    with start_code_scanner.scan_Some [OF assms(1,3)] start_code_scanner.scan_None [OF assms(2,4) None]
      sc_at_is_sc show ?thesis by blast
  qed (simp add: None)
next
  case (Some p)
  then obtain i l where p: "g buf off = Some (i, l)" by (cases p) auto
  with start_code_scanner.scan_Some [OF assms(2,4)]
  show ?thesis
    using start_code_scanner.scan_characterised [OF assms(1,3)] by simp
qed

lemma find_start_code_Some:
  "find_start_code buf off = Some (i, l) \<Longrightarrow>
     off \<le> i \<and> sc_at buf i l \<and> (\<forall>j. off \<le> j \<and> j < i \<longrightarrow> \<not> is_sc buf j)"
proof (induction buf off rule: find_start_code.induct)
  case (1 buf off)
  note eq = find_start_code.simps [of buf off]
  consider "sc_at buf off 3" | "\<not> sc_at buf off 3" "sc_at buf off 4"
    | "off + 3 \<le> length buf" "\<not> is_sc buf off" | "\<not> off + 3 \<le> length buf"
    by (auto simp: is_sc_def)
  then show ?case
  proof cases
    case 1
    with "1.prems" eq show ?thesis by (auto simp: sc_at_3)
  next
    case 2
    with "1.prems" eq show ?thesis by (auto simp: sc_at_3 sc_at_4)
  next
    case 3
    then have rec: "find_start_code buf off = find_start_code buf (off + 1)"
      and n: "\<not> sc_at buf off 3" "\<not> sc_at buf off 4"
      using eq by (auto simp: is_sc_def sc_at_3 sc_at_4)
    from 3 have "off + 1 \<le> i \<and> sc_at buf i l \<and> (\<forall>j. off + 1 \<le> j \<and> j < i \<longrightarrow> \<not> is_sc buf j)"
      using "1.IH" "1.prems" rec n by (auto simp: sc_at_3 sc_at_4)
    moreover have "\<not> is_sc buf j" if "off \<le> j" "j < i" for j
      using that 3(2) calculation by (cases "j = off") auto
    ultimately show ?thesis by auto
  next
    case 4
    with "1.prems" eq show ?thesis by auto
  qed
qed

lemma find_start_code_None:
  "find_start_code buf off = None \<Longrightarrow> off \<le> j \<Longrightarrow> \<not> is_sc buf j"
proof (induction buf off rule: find_start_code.induct)
  case (1 buf off)
  note eq = find_start_code.simps [of buf off]
  show ?case
  proof (cases "off + 3 \<le> length buf")
    case True
    with "1.prems" eq have n: "\<not> sc_at buf off 3" "\<not> sc_at buf off 4"
      and rec: "find_start_code buf (off + 1) = None"
      by (auto simp: sc_at_3 sc_at_4 split: if_splits)
    show ?thesis
    proof (cases "j = off")
      case False
      with "1.prems" have "off + 1 \<le> j" by simp
      with "1.IH" True n rec show ?thesis by (auto simp: sc_at_3 sc_at_4)
    qed (use n in \<open>simp add: is_sc_def\<close>)
  next
    case False
    with "1.prems" show ?thesis by (auto simp: is_sc_def sc_at_3 sc_at_4)
  qed
qed

interpretation rtp_scan: start_code_scanner find_start_code "\<lambda>_. True"
  by unfold_locales (use find_start_code_Some find_start_code_None in blast)+

lemma buffer_starts_with_start_code_iff:
  "buffer_starts_with_start_code bufp = Some l \<longleftrightarrow> (\<exists>buf. bufp = Some buf \<and> sc_at buf 0 l)"
proof (cases bufp)
  case (Some buf)
  have "buffer_starts_with_start_code (Some buf) = Some l \<longleftrightarrow> sc_at buf 0 l"
    using sc_at_3 [of buf 0] sc_at_4 [of buf 0] sc_at_cases [of buf 0 l]
    by (auto simp: buffer_starts_with_start_code_def numeral_2_eq_2 split: if_splits)
  with Some show ?thesis by simp
qed (simp add: buffer_starts_with_start_code_def)


section \<open>One iteration of a splitting loop\<close>

text \<open>\<open>while (nalu_end > nalu_start && buf[nalu_end - 1] == 0x00) nalu_end--;\<close>\<close>

fun trim_end :: "bytes \<Rightarrow> nat \<Rightarrow> nat \<Rightarrow> nat" where
  "trim_end buf start e =
     (if e > start \<and> buf ! (e - 1) = 0 then trim_end buf start (e - 1) else e)"

declare trim_end.simps [simp del]

text \<open>
  \<open>next_nalu scan buf off\<close> is the scanning part of an iteration: \<open>nalu_start\<close>, the trimmed
  \<open>nalu_end\<close> and \<open>next_sc_pos\<close> (\<open>None\<close> for a negative one); \<open>None\<close> when there is no start code
  at or after \<open>search_offset\<close> and the loop breaks.
\<close>

definition next_nalu ::
    "(bytes \<Rightarrow> nat \<Rightarrow> (nat \<times> nat) option) \<Rightarrow> bytes \<Rightarrow> nat \<Rightarrow> (nat \<times> nat \<times> nat option) option" where
  "next_nalu scan buf search_offset =
     (case scan buf search_offset of
        None \<Rightarrow> None
      | Some (sc_pos, sc_len) \<Rightarrow>
          let nalu_start = sc_pos + sc_len;
              next_sc_pos = map_option fst (scan buf nalu_start);
              nalu_end = (case next_sc_pos of None \<Rightarrow> length buf | Some q \<Rightarrow> q)
          in Some (nalu_start, trim_end buf nalu_start nalu_end, next_sc_pos))"

lemma trim_end_bounds: "start \<le> e \<Longrightarrow> start \<le> trim_end buf start e \<and> trim_end buf start e \<le> e"
proof (induction buf start e rule: trim_end.induct)
  case (1 buf start e)
  show ?case
  proof (cases "e > start \<and> buf ! (e - 1) = 0")
    case True
    then have "start \<le> trim_end buf start (e - 1) \<and> trim_end buf start (e - 1) \<le> e - 1"
      by (intro "1.IH") auto
    then show ?thesis using True by (auto simp: trim_end.simps [of buf start e])
  next
    case False
    then show ?thesis using "1.prems" by (auto simp: trim_end.simps [of buf start e])
  qed
qed

lemma trim_end_last: "start < trim_end buf start e \<Longrightarrow> buf ! (trim_end buf start e - 1) \<noteq> 0"
proof (induction buf start e rule: trim_end.induct)
  case (1 buf start e)
  then show ?case by (simp add: trim_end.simps [of buf start e] split: if_splits)
qed

lemma trim_end_zeros:
  "trim_end buf start e \<le> j \<Longrightarrow> j < e \<Longrightarrow> start \<le> e \<Longrightarrow> buf ! j = 0"
proof (induction buf start e rule: trim_end.induct)
  case (1 buf start e)
  show ?case
  proof (cases "e > start \<and> buf ! (e - 1) = 0")
    case True
    then have t: "trim_end buf start e = trim_end buf start (e - 1)"
      by (simp add: trim_end.simps [of buf start e])
    show ?thesis
    proof (cases "j = e - 1")
      case False
      with True "1.prems" t show ?thesis by (intro "1.IH") auto
    qed (use True in simp)
  next
    case False
    then have "trim_end buf start e = e" by (auto simp: trim_end.simps [of buf start e])
    with "1.prems" show ?thesis by simp
  qed
qed

lemma trim_end_id: "start < e \<Longrightarrow> buf ! (e - 1) \<noteq> 0 \<Longrightarrow> trim_end buf start e = e"
  by (simp add: trim_end.simps [of buf start e])

lemma trim_end_shift:
  "trim_end (ys @ xs) (length ys + start) (length ys + e) = length ys + trim_end xs start e"
proof (induction xs start e rule: trim_end.induct)
  case (1 xs start e)
  show ?case
  proof (cases "e > start")
    case True
    then have n: "(ys @ xs) ! (length ys + e - 1) = xs ! (e - 1)"
      and p: "length ys + e - 1 = length ys + (e - 1)"
      by (auto simp: nth_append)
    show ?thesis
      using True "1.IH" n p
      by (cases "xs ! (e - 1) = 0")
        (simp_all add: trim_end.simps [of xs start e]
           trim_end.simps [of "ys @ xs" "length ys + start" "length ys + e"])
  next
    case False
    then show ?thesis
      by (simp add: trim_end.simps [of xs start e]
           trim_end.simps [of "ys @ xs" "length ys + start" "length ys + e"])
  qed
qed

context start_code_scanner
begin

lemma next_nalu_Some:
  assumes "ok buf" and "next_nalu scan buf off = Some (st, e, nx)"
  shows "off < st" and "3 \<le> st" and "st \<le> e" and "e \<le> length buf"
    and "nx = Some q \<Longrightarrow> e \<le> q \<and> off < q \<and> q < length buf \<and> is_sc buf q"
    and "st \<le> j \<Longrightarrow> j < (case nx of None \<Rightarrow> length buf | Some q \<Rightarrow> q) \<Longrightarrow> \<not> is_sc buf j"
    and "st < e \<Longrightarrow> buf ! (e - 1) \<noteq> 0"
    and "e \<le> j \<Longrightarrow> j < (case nx of None \<Rightarrow> length buf | Some q \<Rightarrow> q) \<Longrightarrow> buf ! j = 0"
proof -
  from assms(2) obtain p l where pl: "scan buf off = Some (p, l)" and st: "st = p + l"
    and nx: "nx = map_option fst (scan buf st)"
    and e: "e = trim_end buf st (case nx of None \<Rightarrow> length buf | Some q \<Rightarrow> q)"
    by (auto simp: next_nalu_def Let_def split: option.splits)
  note b = scan_bounds [OF assms(1) pl]
  show "off < st" and "3 \<le> st" using b st by auto
  have q: "st \<le> q \<and> q < length buf \<and> is_sc buf q" if "nx = Some q" for q
  proof -
    from that nx obtain l' where l': "scan buf st = Some (q, l')" by auto
    from scan_bounds [OF assms(1) l'] scan_Some [OF assms(1) l'] sc_at_is_sc
    show ?thesis by (metis add_leD1 is_sc_first_zero)
  qed
  have le: "st \<le> (case nx of None \<Rightarrow> length buf | Some q \<Rightarrow> q)"
    and le': "(case nx of None \<Rightarrow> length buf | Some q \<Rightarrow> q) \<le> length buf"
    using b st q by (auto split: option.splits)
  from trim_end_bounds [OF le, of buf] e le' show "st \<le> e" and "e \<le> length buf" by auto
  show "nx = Some q \<Longrightarrow> e \<le> q \<and> off < q \<and> q < length buf \<and> is_sc buf q"
    using q trim_end_bounds [OF le, of buf] e \<open>off < st\<close> by auto
  show "st < e \<Longrightarrow> buf ! (e - 1) \<noteq> 0"
    using trim_end_last e by simp
  show "e \<le> j \<Longrightarrow> j < (case nx of None \<Rightarrow> length buf | Some q \<Rightarrow> q) \<Longrightarrow> buf ! j = 0"
    using trim_end_zeros le e by blast
  show "st \<le> j \<Longrightarrow> j < (case nx of None \<Rightarrow> length buf | Some q \<Rightarrow> q) \<Longrightarrow> \<not> is_sc buf j"
  proof (cases nx)
    case None
    assume "st \<le> j"
    with None nx scan_None [OF assms(1)] show ?thesis by auto
  next
    case (Some q)
    assume "st \<le> j" and "j < (case nx of None \<Rightarrow> length buf | Some q \<Rightarrow> q)"
    moreover from Some nx obtain l' where "scan buf st = Some (q, l')" by auto
    ultimately show ?thesis using scan_Some [OF assms(1)] Some by fastforce
  qed
qed

lemma next_nalu_None:
  assumes "ok buf"
  shows "next_nalu scan buf off = None \<longleftrightarrow> (\<forall>j \<ge> off. \<not> is_sc buf j)"
proof
  assume "next_nalu scan buf off = None"
  then have "scan buf off = None"
    by (auto simp: next_nalu_def Let_def split: option.splits)
  with scan_None [OF assms] show "\<forall>j \<ge> off. \<not> is_sc buf j" by blast
next
  assume n: "\<forall>j \<ge> off. \<not> is_sc buf j"
  show "next_nalu scan buf off = None"
  proof (cases "scan buf off")
    case (Some p)
    then obtain i l where "scan buf off = Some (i, l)" by (cases p) auto
    with scan_Some [OF assms] n sc_at_is_sc show ?thesis by blast
  qed (simp add: next_nalu_def)
qed

end

lemmas rtp_next_nalu_Some = rtp_scan.next_nalu_Some [OF TrueI]

end
