(* ===== verification/Nalu_Loader.thy ===== *)
theory Nalu_Loader
  imports Annexb
begin

text \<open>
  \<open>load_annexb_nalus\<close> of \<open>src/rtp.c\<close>, which builds the table of the NALUs of a file, and the
  reference it is compared with: \<open>annexb_units\<close>, the NALUs of a byte stream in order, each with
  the flag that no start code follows it. The reference is also what the three sending loops of
  the program are related to.
\<close>

section \<open>The NALUs of a byte stream\<close>

function annexb_units :: "bytes \<Rightarrow> nat \<Rightarrow> (bytes \<times> bool) list" where
  "annexb_units buf off =
     (case next_nalu find_start_code buf off of
        None \<Rightarrow> []
      | Some (st, e, nx) \<Rightarrow>
          (if e > st then [(bslice buf st e, nx = None)] else []) @
          (case nx of None \<Rightarrow> [] | Some q \<Rightarrow> annexb_units buf q))"
  by pat_completeness auto
termination
  by (relation "measure (\<lambda>(buf, off). length buf - off)")
    (use rtp_next_nalu_Some(5) in \<open>fastforce+\<close>)

declare annexb_units.simps [simp del]

section \<open>The loader\<close>

text \<open>
  One element of \<open>nalus\<close> is a \<open>nalu_t\<close>, the pair of the address \<open>buf + nalu_start\<close> and the
  length: the bytes it denotes. \<open>push_nalu\<close> is the body of \<open>if (nalu_end > nalu_start)\<close>:
  \<open>realloc\<close> to 128 elements, then to twice as many, when the table is full. \<open>None\<close> is the
  return with \<open>-1\<close>.
\<close>

definition SIZEOF_NALU_T :: nat where
  "SIZEOF_NALU_T = 16"

definition push_nalu ::
    "alloc_env \<Rightarrow> nat \<Rightarrow> nat \<Rightarrow> bytes list \<Rightarrow> bytes \<Rightarrow> nat \<times> (nat \<times> bytes list) option" where
  "push_nalu A t capacity nalus nalu =
     (if length nalus = capacity then
        let new_capacity = (if capacity = 0 then 128 else capacity * 2) in
        if \<not> A t (new_capacity * SIZEOF_NALU_T) then (t + 1, None)
        else (t + 1, Some (new_capacity, nalus @ [nalu]))
      else (t, Some (capacity, nalus @ [nalu])))"

function load_annexb_loop ::
    "alloc_env \<Rightarrow> bytes \<Rightarrow> nat \<Rightarrow> nat \<Rightarrow> nat \<Rightarrow> bytes list \<Rightarrow> nat \<times> (nat \<times> bytes list) option" where
  "load_annexb_loop A buf search_offset t capacity nalus =
     (case next_nalu find_start_code buf search_offset of
        None \<Rightarrow> (t, Some (capacity, nalus))
      | Some (nalu_start, nalu_end, next_sc_pos) \<Rightarrow>
          case (if nalu_end > nalu_start
                then push_nalu A t capacity nalus (bslice buf nalu_start nalu_end)
                else (t, Some (capacity, nalus))) of
            (t', None) \<Rightarrow> (t', None)
          | (t', Some (capacity', nalus')) \<Rightarrow>
              (case next_sc_pos of
                 None \<Rightarrow> (t', Some (capacity', nalus'))
               | Some q \<Rightarrow> load_annexb_loop A buf q t' capacity' nalus'))"
  by pat_completeness auto
termination
  by (relation "measure (\<lambda>(A, buf, off, _). length buf - off)")
    (use rtp_next_nalu_Some(5) in \<open>fastforce+\<close>)

declare load_annexb_loop.simps [simp del]

text \<open>
  The result: the number of allocation requests made so far and, when the code returns 0, the
  capacity of the table and \<open>*out_nalus\<close> (whose length is \<open>*out_count\<close>).
\<close>

definition load_annexb_nalus ::
    "alloc_env \<Rightarrow> nat \<Rightarrow> bytes \<Rightarrow> nat \<times> (nat \<times> bytes list) option" where
  "load_annexb_nalus A t buf = load_annexb_loop A buf 0 t 0 []"

section \<open>The loader computes the units\<close>

lemma push_nalu_Some:
  "push_nalu A t cap ns n = (t', Some (cap', ns')) \<Longrightarrow> ns' = ns @ [n]"
  by (auto simp: push_nalu_def Let_def split: if_splits)

lemma push_nalu_None:
  "push_nalu A t cap ns n = (t', None) \<Longrightarrow> \<exists>t k. \<not> A t k"
  by (auto simp: push_nalu_def Let_def split: if_splits)

lemma load_annexb_loop_Some:
  "load_annexb_loop A buf off t cap ns = (t', Some (cap', ns')) \<Longrightarrow>
     ns' = ns @ map fst (annexb_units buf off)"
proof (induction A buf off t cap ns rule: load_annexb_loop.induct)
  case (1 A buf off t cap ns)
  note eqs = load_annexb_loop.simps [of A buf off t cap ns] annexb_units.simps [of buf off]
  show ?case
  proof (cases "next_nalu find_start_code buf off")
    case None
    with "1.prems" eqs show ?thesis by simp
  next
    case (Some x)
    then obtain st e nx where x: "next_nalu find_start_code buf off = Some (st, e, nx)"
      by (cases x) auto
    let ?p = "if e > st then push_nalu A t cap ns (bslice buf st e) else (t, Some (cap, ns))"
    obtain t1 c1 n1 where p: "?p = (t1, Some (c1, n1))"
      using "1.prems" x eqs by (auto split: prod.splits option.splits)
    have n1: "n1 = ns @ (if e > st then [bslice buf st e] else [])"
      using p by (auto split: if_splits dest: push_nalu_Some)
    show ?thesis
    proof (cases nx)
      case None
      with "1.prems" x p n1 eqs show ?thesis by (simp split: if_splits)
    next
      case (Some q)
      have "load_annexb_loop A buf q t1 c1 n1 = (t', Some (cap', ns'))"
        using "1.prems" eqs x p Some by simp
      from "1.IH" [OF x refl refl p [symmetric] refl refl Some this] x Some n1 eqs(2)
      show ?thesis by simp
    qed
  qed
qed

lemma load_annexb_loop_None:
  "load_annexb_loop A buf off t cap ns = (t', None) \<Longrightarrow> \<exists>t k. \<not> A t k"
proof (induction A buf off t cap ns rule: load_annexb_loop.induct)
  case (1 A buf off t cap ns)
  note eq = load_annexb_loop.simps [of A buf off t cap ns]
  obtain x where x0: "next_nalu find_start_code buf off = Some x"
    using "1.prems" eq by (cases "next_nalu find_start_code buf off") auto
  obtain st e nx where x: "next_nalu find_start_code buf off = Some (st, e, nx)"
    using x0 by (cases x) auto
  let ?p = "if e > st then push_nalu A t cap ns (bslice buf st e) else (t, Some (cap, ns))"
  obtain t1 r where p: "?p = (t1, r)" by (cases ?p) auto
  show ?case
  proof (cases r)
    case None
    with p show ?thesis by (auto split: if_splits dest: push_nalu_None)
  next
    case (Some cn)
    then obtain c1 n1 where cn: "r = Some (c1, n1)" by (cases cn) auto
    with "1.prems" eq x p obtain q where q: "nx = Some q"
      and l: "load_annexb_loop A buf q t1 c1 n1 = (t', None)"
      by (auto split: option.splits)
    from "1.IH" [OF x refl refl p [unfolded cn, symmetric] refl refl q l] show ?thesis .
  qed
qed


text \<open>Room: the element written at index \<open>count\<close> lies inside the table; there is a table once there
  are elements.\<close>

definition table_ok :: "nat \<Rightarrow> bytes list \<Rightarrow> bool" where
  "table_ok cap ns \<longleftrightarrow> length ns \<le> cap \<and> (ns = [] \<longrightarrow> cap = 0)"

lemma push_nalu_capacity:
  "push_nalu A t cap ns n = (t', Some (cap', ns')) \<Longrightarrow> table_ok cap ns \<Longrightarrow>
     length ns < cap' \<and> table_ok cap' ns'"
  by (auto simp: push_nalu_def table_ok_def Let_def Suc_le_eq split: if_splits)

lemma load_annexb_loop_capacity:
  "load_annexb_loop A buf off t cap ns = (t', Some (cap', ns')) \<Longrightarrow> table_ok cap ns \<Longrightarrow>
     table_ok cap' ns'"
proof (induction A buf off t cap ns rule: load_annexb_loop.induct)
  case (1 A buf off t cap ns)
  note eq = load_annexb_loop.simps [of A buf off t cap ns]
  show ?case
  proof (cases "next_nalu find_start_code buf off")
    case None
    with "1.prems" eq show ?thesis by simp
  next
    case (Some x)
    then obtain st e nx where x: "next_nalu find_start_code buf off = Some (st, e, nx)"
      by (cases x) auto
    let ?p = "if e > st then push_nalu A t cap ns (bslice buf st e) else (t, Some (cap, ns))"
    obtain t1 c1 n1 where p: "?p = (t1, Some (c1, n1))"
      using "1.prems" x eq by (auto split: prod.splits option.splits)
    then have le: "table_ok c1 n1"
      using "1.prems"(2) by (auto split: if_splits dest: push_nalu_capacity)
    show ?thesis
    proof (cases nx)
      case None
      with "1.prems" x p le eq show ?thesis by (simp split: if_splits)
    next
      case (Some q)
      have "load_annexb_loop A buf q t1 c1 n1 = (t', Some (cap', ns'))"
        using "1.prems" eq x p Some by simp
      from "1.IH" [OF x refl refl p [symmetric] refl refl Some this le] show ?thesis .
    qed
  qed
qed

section \<open>What the units are\<close>

definition clean_nalu :: "bytes \<Rightarrow> bool" where
  "clean_nalu n \<longleftrightarrow> n \<noteq> [] \<and> last n \<noteq> 0 \<and> (\<forall>j. \<not> is_sc n j)"

lemma sc_at_bslice:
  assumes "b \<le> length buf" and "sc_at (bslice buf a b) j l"
  shows "sc_at buf (a + j) l \<and> a + j + l \<le> b"
proof -
  have l: "j + l \<le> b - a" and "3 \<le> l"
    using sc_at_bound [OF assms(2)] assms(1) by auto
  then have "take l (drop j (bslice buf a b)) = take l (drop (a + j) buf)"
    by (simp add: bslice_def drop_take add.commute)
  then show ?thesis
    using assms(2) l \<open>3 \<le> l\<close> by (auto simp: sc_at_def)
qed

lemma is_sc_bslice:
  "b \<le> length buf \<Longrightarrow> is_sc (bslice buf a b) j \<Longrightarrow> is_sc buf (a + j) \<and> a + j < b"
  using sc_at_bslice [of b buf a j 3] sc_at_bslice [of b buf a j 4] by (auto simp: is_sc_def)

lemma unit_clean:
  assumes "next_nalu find_start_code buf off = Some (st, e, nx)" and "st < e"
  shows "clean_nalu (bslice buf st e)"
proof -
  note b = rtp_next_nalu_Some [OF assms(1)]
  have ne: "bslice buf st e \<noteq> []" and le: "e \<le> length buf"
    using b assms(2) by (auto simp: bslice_eq_Nil_iff)
  have "last (bslice buf st e) = buf ! (st + (e - st - 1))"
    using ne assms(2) le by (simp add: last_conv_nth nth_bslice)
  then have "last (bslice buf st e) \<noteq> 0" using b(7) assms(2) by simp
  moreover have "\<not> is_sc (bslice buf st e) j" for j
  proof
    assume "is_sc (bslice buf st e) j"
    from is_sc_bslice [OF le this] have "is_sc buf (st + j)" and "st + j < e" by auto
    moreover have "e \<le> (case nx of None \<Rightarrow> length buf | Some q \<Rightarrow> q)"
      using b(4,5) by (auto split: option.splits)
    ultimately show False using b(6) [of "st + j"] by auto
  qed
  ultimately show ?thesis using ne by (simp add: clean_nalu_def)
qed

lemma annexb_units_clean: "(n, m) \<in> set (annexb_units buf off) \<Longrightarrow> clean_nalu n"
proof (induction buf off rule: annexb_units.induct)
  case (1 buf off)
  from "1.prems" obtain st e nx where x: "next_nalu find_start_code buf off = Some (st, e, nx)"
    by (cases "next_nalu find_start_code buf off") (auto simp: annexb_units.simps [of buf off])
  with "1.prems" consider "st < e" "n = bslice buf st e"
    | q where "nx = Some q" "(n, m) \<in> set (annexb_units buf q)"
    by (auto simp: annexb_units.simps [of buf off] split: option.splits if_splits)
  then show ?case
  proof cases
    case 2
    with "1.IH" [OF x refl refl] show ?thesis by simp
  qed (use unit_clean x in simp)
qed

lemma annexb_units_last_only:
  "annexb_units buf off = us @ (n, m) # vs \<Longrightarrow> vs \<noteq> [] \<Longrightarrow> \<not> m"
proof (induction buf off arbitrary: us rule: annexb_units.induct)
  case (1 buf off)
  note eq = annexb_units.simps [of buf off]
  from "1.prems" obtain st e nx where x: "next_nalu find_start_code buf off = Some (st, e, nx)"
    by (cases "next_nalu find_start_code buf off") (auto simp: eq)
  show ?case
  proof (cases nx)
    case None
    with "1.prems" x eq show ?thesis by (auto simp: Cons_eq_append_conv split: if_splits)
  next
    case (Some q)
    have u: "annexb_units buf off =
        (if e > st then [(bslice buf st e, False)] else []) @ annexb_units buf q"
      using x Some eq by simp
    show ?thesis
    proof (cases "e > st \<and> us = []")
      case True
      with u "1.prems"(1) show ?thesis by simp
    next
      case False
      then have "annexb_units buf q = (if st < e then tl us else us) @ (n, m) # vs"
        using u "1.prems"(1) by (cases us) (auto split: if_splits)
      from "1.IH" [OF x refl refl Some this "1.prems"(2)] show ?thesis .
    qed
  qed
qed


section \<open>Splitting what was joined\<close>

text \<open>A byte stream that starts each NALU with the 4-byte start code, as the snapshots do.\<close>

definition annexb_join :: "bytes list \<Rightarrow> bytes" where
  "annexb_join ns = concat (map (\<lambda>n. [0, 0, 0, 1] @ n) ns)"

lemma annexb_join_simps [simp]:
  "annexb_join [] = []"
  "annexb_join (n # ns) = [0, 0, 0, 1] @ n @ annexb_join ns"
  by (simp_all add: annexb_join_def)

lemma annexb_join_append: "annexb_join (ms @ ns) = annexb_join ms @ annexb_join ns"
  by (simp add: annexb_join_def)

lemma sc_at_nth:
  "sc_at buf i l \<Longrightarrow> k < l - 1 \<Longrightarrow> buf ! (i + k) = 0"
proof -
  assume sc: "sc_at buf i l" and k: "k < l - 1"
  from sc_at_cases [OF sc] show ?thesis
  proof
    assume "l = 3"
    with k have "k = 0 \<or> k = 1" by auto
    with sc \<open>l = 3\<close> show ?thesis by (auto simp: sc_at_3)
  next
    assume "l = 4"
    with k have "k = 0 \<or> k = 1 \<or> k = 2" by auto
    with sc \<open>l = 4\<close> show ?thesis by (auto simp: sc_at_4)
  qed
qed

lemma sc_at_here: "sc_at (xs @ [0, 0, 0, 1] @ ys) (length xs) 4"
  by (simp add: sc_at_def)

text \<open>No start code begins inside a clean NALU, not even one that runs over its end.\<close>

lemma clean_nalu_no_sc:
  assumes "clean_nalu n" and "k < length n"
  shows "\<not> is_sc (pre @ n @ post) (length pre + k)"
proof
  assume "is_sc (pre @ n @ post) (length pre + k)"
  then obtain l where l: "sc_at (pre @ n @ post) (length pre + k) l" by (auto simp: is_sc_def)
  show False
  proof (cases "k + l \<le> length n")
    case True
    then have "sc_at n k l" using l by (auto simp: sc_at_def)
    then show False using assms(1) by (auto simp: clean_nalu_def dest: sc_at_is_sc)
  next
    case False
    with assms(2) have d: "length n - 1 - k < l - 1" and e: "k + (length n - 1 - k) = length n - 1"
      by auto
    from sc_at_nth [OF l d] e have "(pre @ n @ post) ! (length pre + (length n - 1)) = 0"
      by (metis add.assoc)
    then have "n ! (length n - 1) = 0"
      using assms(2) nth_append_length_plus [of pre "n @ post" "length n - 1"]
      by (simp only: nth_append [of n]) (auto split: if_splits)
    then show False using assms by (auto simp: clean_nalu_def last_conv_nth)
  qed
qed

lemma next_code_join:
  assumes "clean_nalu n"
  shows "map_option fst (find_start_code (pre @ n @ annexb_join ns) (length pre)) =
    (if ns = [] then None else Some (length pre + length n))"
proof -
  let ?buf = "pre @ n @ annexb_join ns"
  have inside: "\<not> is_sc ?buf j" if "length pre \<le> j" and "j < length pre + length n" for j
    using clean_nalu_no_sc [OF assms, of "j - length pre" pre "annexb_join ns"] that by simp
  show ?thesis
  proof (cases ns)
    case Nil
    have "\<not> is_sc ?buf j" if "length pre \<le> j" for j
      using that inside is_sc_first_zero [of ?buf j] Nil by (cases "j < length pre + length n") auto
    then have "find_start_code ?buf (length pre) = None"
      using find_start_code_Some [of ?buf "length pre"] sc_at_is_sc [of ?buf] by (metis not_None_eq surj_pair)
    with Nil show ?thesis by simp
  next
    case (Cons m ms)
    have "sc_at ((pre @ n) @ [0, 0, 0, 1] @ (m @ annexb_join ms)) (length (pre @ n)) 4" by (rule sc_at_here)
    then have "sc_at ?buf (length pre + length n) 4" by (simp add: Cons)
    then have "find_start_code ?buf (length pre) = Some (length pre + length n, 4)"
      using inside by (simp add: rtp_scan.scan_characterised)
    with Cons show ?thesis by simp
  qed
qed

lemma next_nalu_join:
  assumes "clean_nalu n"
  shows "next_nalu find_start_code (pre @ annexb_join (n # ns)) (length pre) =
    Some (length pre + 4, length pre + 4 + length n,
      if ns = [] then None else Some (length pre + 4 + length n))"
proof -
  let ?buf = "pre @ annexb_join (n # ns)" and ?st = "length pre + 4"
  have buf: "?buf = (pre @ [0, 0, 0, 1]) @ n @ annexb_join ns" by simp
  have "sc_at ?buf (length pre) 4" by (simp add: sc_at_def)
  then have s1: "find_start_code ?buf (length pre) = Some (length pre, 4)" by (simp add: rtp_scan.scan_at)
  have s2: "map_option fst (find_start_code ?buf ?st) = (if ns = [] then None else Some (?st + length n))"
    using next_code_join [OF assms, of "pre @ [0, 0, 0, 1]" ns] unfolding buf by (simp add: numeral_eq_Suc)
  have ne: "n \<noteq> []" and last: "last n \<noteq> 0" using assms by (auto simp: clean_nalu_def)
  have e: "trim_end ?buf ?st (?st + length n) = ?st + length n"
  proof (rule trim_end_id)
    have "?buf ! (?st + length n - 1) = n ! (length n - 1)" using ne by (simp add: nth_append nth_Cons')
    then show "?buf ! (?st + length n - 1) \<noteq> 0" using last ne by (simp add: last_conv_nth)
  qed (use ne in simp)
  have ends: "(case (if ns = [] then None else Some (?st + length n)) of
      None \<Rightarrow> length ?buf | Some q \<Rightarrow> q) = ?st + length n"
    by (cases ns) (simp_all add: add.assoc)
  show ?thesis by (simp only: next_nalu_def s1 s2 ends e option.case prod.case Let_def)
qed

text \<open>A list of NALUs, the last one flagged.\<close>

fun flag_last :: "bytes list \<Rightarrow> (bytes \<times> bool) list" where
  "flag_last [] = []"
| "flag_last (n # ns) = (n, ns = []) # flag_last ns"

lemma map_fst_flag_last [simp]: "map fst (flag_last ns) = ns"
  by (induction ns) auto

lemma annexb_units_join_flags:
  "\<forall>n \<in> set ns. clean_nalu n \<Longrightarrow>
     annexb_units (pre @ annexb_join ns) (length pre) = flag_last ns"
proof (induction ns arbitrary: pre)
  case Nil
  have "\<not> is_sc pre j" if "length pre \<le> j" for j
    using that is_sc_first_zero [of pre j] by auto
  then have "next_nalu find_start_code pre (length pre) = None"
    by (simp add: rtp_scan.next_nalu_None)
  then show ?case by (simp add: annexb_units.simps [of pre])
next
  case (Cons n ns)
  have cl: "clean_nalu n" and ne: "n \<noteq> []" using Cons.prems by (auto simp: clean_nalu_def)
  have "bslice (pre @ annexb_join (n # ns)) (length pre + 4) (length pre + 4 + length n) = n"
    by (simp add: bslice_def)
  moreover have "annexb_units (pre @ annexb_join (n # ns)) (length pre + 4 + length n) = flag_last ns"
  proof -
    have "length (pre @ [0, 0, 0, 1] @ n) = length pre + 4 + length n" by simp
    with Cons.IH [of "pre @ [0, 0, 0, 1] @ n"] Cons.prems show ?thesis
      by (metis annexb_join_simps(2) append.assoc list.set_intros(2))
  qed
  ultimately show ?case
    using ne next_nalu_join [OF cl, of pre ns]
    by (simp add: annexb_units.simps [of "pre @ annexb_join (n # ns)" "length pre"] del: annexb_join_simps)
qed

lemma annexb_units_join:
  "\<forall>n \<in> set ns. clean_nalu n \<Longrightarrow>
     map fst (annexb_units (pre @ annexb_join ns) (length pre)) = ns"
  by (simp add: annexb_units_join_flags)


section \<open>Properties\<close>

lemma load_annexb_table:
  "snd (load_annexb_nalus A t buf) = Some (cap, ns) \<Longrightarrow> table_ok cap ns \<and> ns = map fst (annexb_units buf 0)"
  using load_annexb_loop_capacity [of A buf 0 t 0 "[]" _ cap ns] load_annexb_loop_Some [of A buf 0 t 0 "[]" _ cap ns]
  by (cases "load_annexb_nalus A t buf") (auto simp: load_annexb_nalus_def table_ok_def)

text \<open>
  C17: Whatever the allocator does, a table that \<open>load_annexb_nalus\<close> returns holds exactly the
  NALUs of the file in their order, each non-empty, free of start codes and without trailing
  zero bytes, and its element count fits the allocated capacity; the function fails only when
  an allocation failed.
\<close>

theorem load_annexb_nalus_correct:
  "case snd (load_annexb_nalus A t buf) of
     Some (cap, ns) \<Rightarrow> ns = map fst (annexb_units buf 0) \<and> length ns \<le> cap \<and> list_all clean_nalu ns
   | None \<Rightarrow> \<exists>t n. \<not> A t n"
proof (cases "load_annexb_nalus A t buf")
  case (Pair t' r)
  note eq = Pair [unfolded load_annexb_nalus_def]
  show ?thesis
  proof (cases r)
    case None
    with eq have "load_annexb_loop A buf 0 t 0 [] = (t', None)" by simp
    from load_annexb_loop_None [OF this] Pair None show ?thesis by simp
  next
    case (Some cn)
    then obtain cap ns where r: "load_annexb_loop A buf 0 t 0 [] = (t', Some (cap, ns))"
      using eq by (cases cn) auto
    from load_annexb_loop_Some [OF r] load_annexb_loop_capacity [OF r]
    have "ns = map fst (annexb_units buf 0)" and "length ns \<le> cap" by (simp_all add: table_ok_def)
    then show ?thesis
      using r Pair eq by (auto simp: list_all_iff dest: annexb_units_clean)
  qed
qed

text \<open>
  C18: Round trip: loading a stream made of NALUs, each behind a 4-byte start code, gives
  those NALUs back, provided each is non-empty, does not end in a zero byte and contains no
  start code (what H.265 emulation prevention guarantees).
\<close>

theorem load_annexb_nalus_roundtrip:
  assumes "\<forall>n \<in> set ns. clean_nalu n" and "\<forall>t n. A t n"
  shows "\<exists>t' cap. load_annexb_nalus A t (annexb_join ns) = (t', Some (cap, ns))"
proof (cases "load_annexb_nalus A t (annexb_join ns)")
  case (Pair t' r)
  note eq = Pair [unfolded load_annexb_nalus_def]
  show ?thesis
  proof (cases r)
    case None
    with eq load_annexb_loop_None assms(2) show ?thesis by metis
  next
    case (Some cn)
    then obtain cap ms where cn: "cn = (cap, ms)" by (cases cn) auto
    with Some eq load_annexb_loop_Some [of A "annexb_join ns" 0 t 0 "[]"] have
      "ms = map fst (annexb_units (annexb_join ns) 0)" by simp
    with annexb_units_join [OF assms(1), of "[]"] Pair Some cn show ?thesis by simp
  qed
qed

theorem load_annexb_nalus_roundtrip_witness:
  "\<exists>t' cap. load_annexb_nalus (\<lambda>_ _. True) 0 (annexb_join [[0x40, 1], [0x26, 1, 7]]) =
     (t', Some (cap, [[0x40, 1], [0x26, 1, 7]]))"
proof (rule load_annexb_nalus_roundtrip)
  have "\<not> is_sc [0x40, 1] j" and "\<not> is_sc [0x26, 1, 7] j" for j
    by (cases j; auto simp: is_sc_def sc_at_3 sc_at_4 nth_Cons' split: if_splits)+
  then show "\<forall>n \<in> set [[0x40, 1], [0x26, 1, 7]]. clean_nalu n"
    by (simp add: clean_nalu_def)
qed simp

end
