(* ===== verification/Net.thy ===== *)
theory Net
  imports Prelude
begin

unbundle bit_operations_syntax

text \<open>
  The part of the socket interface that the program sends media through. An address is a
  \<open>struct sockaddr_in\<close> whose port is kept in network byte order, as in C. The state of the UDP
  socket is the number of \<open>sendto\<close> calls made and the datagrams the kernel accepted, in
  order; the answers of \<open>sendto\<close> are an argument \<open>N\<close>: \<open>N t d\<close> is what the \<open>t\<close>-th call
  returns for the datagram \<open>d\<close> (negative: it failed).
\<close>

record sockaddr_in =
  sin_family :: u16
  sin_port :: u16
  sin_addr :: u32

definition AF_INET :: u16 where
  "AF_INET = 2"

text \<open>\<open>htons\<close> on the little-endian target swaps the two bytes.\<close>

definition htons :: "u16 \<Rightarrow> u16" where
  "htons x = push_bit 8 x OR drop_bit 8 x"

lemma htons_htons [simp]: "htons (htons x) = x"
  unfolding htons_def by (rule bit_word_eqI) (auto simp: bit_simps)

record datagram =
  dg_dest :: sockaddr_in
  dg_bytes :: bytes

record udp =
  udp_calls :: nat
  udp_sent :: "datagram list"

type_synonym net_env = "nat \<Rightarrow> datagram \<Rightarrow> int"

definition sendto :: "net_env \<Rightarrow> sockaddr_in \<Rightarrow> bytes \<Rightarrow> udp \<Rightarrow> int \<times> udp" where
  "sendto N dest packet u =
     (let d = \<lparr>dg_dest = dest, dg_bytes = packet\<rparr>; r = N (udp_calls u) d
      in (r, u\<lparr>udp_calls := udp_calls u + 1,
               udp_sent := udp_sent u @ (if r < 0 then [] else [d])\<rparr>))"

end
