(* ===== verification/Rtp.thy ===== *)
theory Rtp
  imports Nalu_Loader Net
begin

unbundle bit_operations_syntax

text \<open>
  RTP packetisation of \<open>src/rtp.c\<close>: the header, \<open>send_rtp_packet\<close> and
  \<open>send_h265_nalu_rtp\<close> with its fragmentation units (RFC 7798). The locale \<open>rtp_sender\<close> is
  the contract that every sending routine of the program meets: whatever the network does, it
  emits a prefix of a planned list of packets, numbered consecutively, and all of it when it
  returns 0.
\<close>

section \<open>Constants of rtp.h\<close>

definition RTP_PAYLOAD_TYPE :: u8 where "RTP_PAYLOAD_TYPE = 96"
definition RTP_HEADER_SIZE :: nat where "RTP_HEADER_SIZE = 12"
definition RTP_PACKET_MAX_SIZE :: nat where "RTP_PACKET_MAX_SIZE = 1500"
definition RTP_MAX_PAYLOAD :: nat where "RTP_MAX_PAYLOAD = 1200"
definition H265_FU_HEADER_SIZE :: nat where "H265_FU_HEADER_SIZE = 3"
definition H265_FU_TYPE :: u8 where "H265_FU_TYPE = 49"
definition VIDEO_FPS :: nat where "VIDEO_FPS = 15"
definition RTP_TS_STEP :: u32 where "RTP_TS_STEP = of_nat (90000 div VIDEO_FPS)"

section \<open>Operations\<close>

definition build_rtp_header :: "u16 \<Rightarrow> u32 \<Rightarrow> u32 \<Rightarrow> u8 \<Rightarrow> bytes" where
  "build_rtp_header seq timestamp ssrc marker =
     [0x80,
      (if marker \<noteq> 0 then 0x80 else 0x00) OR (RTP_PAYLOAD_TYPE AND 0x7f),
      ucast (drop_bit 8 seq AND 0xff), ucast (seq AND 0xff),
      ucast (drop_bit 24 timestamp AND 0xff), ucast (drop_bit 16 timestamp AND 0xff),
      ucast (drop_bit 8 timestamp AND 0xff), ucast (timestamp AND 0xff),
      ucast (drop_bit 24 ssrc AND 0xff), ucast (drop_bit 16 ssrc AND 0xff),
      ucast (drop_bit 8 ssrc AND 0xff), ucast (ssrc AND 0xff)]"

definition h265_nalu_type :: "bytes \<Rightarrow> int" where
  "h265_nalu_type nalu = (if length nalu < 2 then -1 else uint (drop_bit 1 (nalu ! 0) AND 0x3f))"

text \<open>Sending one packet; the result is the return code, \<open>*seq\<close> and the socket afterwards.\<close>

definition send_rtp_packet ::
    "net_env \<Rightarrow> sockaddr_in \<Rightarrow> u32 \<Rightarrow> u32 \<Rightarrow> bytes \<Rightarrow> u8 \<Rightarrow> u16 \<Rightarrow> udp \<Rightarrow> int \<times> u16 \<times> udp" where
  "send_rtp_packet N dest timestamp ssrc payload marker seq u =
     (if RTP_HEADER_SIZE + length payload > RTP_PACKET_MAX_SIZE then (-1, seq, u)
      else case sendto N dest (build_rtp_header seq timestamp ssrc marker @ payload) u of
        (sent_len, u') \<Rightarrow>
          if sent_len < 0 then (-1, seq, u')
          else (0, seq + 1, u'))"

text \<open>The \<open>while (offset < nalu_len)\<close> loop that sends the fragments of a NALU.\<close>

function send_fu_loop ::
    "net_env \<Rightarrow> sockaddr_in \<Rightarrow> u32 \<Rightarrow> u32 \<Rightarrow> bytes \<Rightarrow> int \<Rightarrow> u8 \<Rightarrow> nat \<Rightarrow> bool \<Rightarrow> u16 \<Rightarrow> udp
     \<Rightarrow> int \<times> u16 \<times> udp" where
  "send_fu_loop N dest timestamp ssrc nalu nal_type marker offset first seq u =
     (if offset < length nalu then
        let max_fragment_data = RTP_MAX_PAYLOAD - H265_FU_HEADER_SIZE;
            remaining = length nalu - offset;
            fragment_size = (if remaining > max_fragment_data then max_fragment_data else remaining);
            lst = (offset + fragment_size \<ge> length nalu);
            fu_payload = [(nalu ! 0 AND 0x81) OR push_bit 1 H265_FU_TYPE,
                          nalu ! 1,
                          (if first then 0x80 else 0x00) OR (if lst then 0x40 else 0x00) OR
                            (of_int nal_type AND 0x3f)]
                         @ bslice nalu offset (offset + fragment_size)
        in case send_rtp_packet N dest timestamp ssrc fu_payload (if lst then marker else 0) seq u of
             (r, seq', u') \<Rightarrow>
               if r \<noteq> 0 then (-1, seq', u')
               else send_fu_loop N dest timestamp ssrc nalu nal_type marker
                      (offset + fragment_size) False seq' u'
      else (0, seq, u))"
  by pat_completeness auto
termination
  by (relation "measure (\<lambda>(N, dest, ts, ssrc, nalu, nt, m, offset, _). length nalu - offset)")
    (auto simp: RTP_MAX_PAYLOAD_def H265_FU_HEADER_SIZE_def)

declare send_fu_loop.simps [simp del]

definition send_h265_nalu_rtp ::
    "net_env \<Rightarrow> sockaddr_in \<Rightarrow> u32 \<Rightarrow> u32 \<Rightarrow> bytes option \<Rightarrow> u8 \<Rightarrow> u16 \<Rightarrow> udp \<Rightarrow> int \<times> u16 \<times> udp" where
  "send_h265_nalu_rtp N dest timestamp ssrc nalup marker seq u =
     (case nalup of
        None \<Rightarrow> (-1, seq, u)
      | Some nalu \<Rightarrow>
          if length nalu < 2 then (-1, seq, u)
          else if length nalu \<le> RTP_MAX_PAYLOAD
          then send_rtp_packet N dest timestamp ssrc nalu marker seq u
          else send_fu_loop N dest timestamp ssrc nalu (h265_nalu_type nalu) marker 2 True seq u)"

section \<open>The header read back\<close>

text \<open>What a receiver reads from the first 12 bytes (RFC 3550, section 5.1).\<close>

record rtp_view =
  rv_version :: u8
  rv_marker :: bool
  rv_payload_type :: u8
  rv_seq :: u16
  rv_timestamp :: u32
  rv_ssrc :: u32
  rv_payload :: bytes

definition be16 :: "u8 \<Rightarrow> u8 \<Rightarrow> u16" where
  "be16 a b = push_bit 8 (ucast a) OR ucast b"

definition be32 :: "u8 \<Rightarrow> u8 \<Rightarrow> u8 \<Rightarrow> u8 \<Rightarrow> u32" where
  "be32 a b c d = push_bit 24 (ucast a) OR push_bit 16 (ucast b) OR push_bit 8 (ucast c) OR ucast d"

fun rtp_parse :: "bytes \<Rightarrow> rtp_view option" where
  "rtp_parse (b0 # b1 # b2 # b3 # b4 # b5 # b6 # b7 # b8 # b9 # b10 # b11 # payload) =
     Some \<lparr>rv_version = drop_bit 6 b0, rv_marker = (b1 AND 0x80 \<noteq> 0), rv_payload_type = b1 AND 0x7f,
           rv_seq = be16 b2 b3, rv_timestamp = be32 b4 b5 b6 b7, rv_ssrc = be32 b8 b9 b10 b11,
           rv_payload = payload\<rparr>"
| "rtp_parse _ = None"

lemma ff_mask: "(0xff :: 'a::len word) = mask 8"
  by (simp add: mask_eq_exp_minus_1)

lemma be16_split: "be16 (ucast (drop_bit 8 q AND 0xff)) (ucast (q AND 0xff)) = q"
  unfolding be16_def ff_mask by (rule bit_word_eqI) (auto simp: bit_simps)

lemma be32_split:
  "be32 (ucast (drop_bit 24 q AND 0xff)) (ucast (drop_bit 16 q AND 0xff))
     (ucast (drop_bit 8 q AND 0xff)) (ucast (q AND 0xff)) = q"
proof (rule bit_word_eqI)
  fix n
  assume "n < LENGTH(32)"
  consider "n < 8" | "8 \<le> n" "n < 16" | "16 \<le> n" "n < 24" | "24 \<le> n" by linarith
  then show "bit (be32 (ucast (drop_bit 24 q AND 0xff)) (ucast (drop_bit 16 q AND 0xff))
     (ucast (drop_bit 8 q AND 0xff)) (ucast (q AND 0xff))) n = bit q n"
    using \<open>n < LENGTH(32)\<close> unfolding be32_def ff_mask
    by cases (auto simp: bit_simps)
qed

lemma length_build_rtp_header [simp]: "length (build_rtp_header q ts ssrc m) = 12"
  by (simp add: build_rtp_header_def)

lemma rtp_parse_build:
  "rtp_parse (build_rtp_header q ts ssrc m @ p) =
     Some \<lparr>rv_version = 2, rv_marker = (m \<noteq> 0), rv_payload_type = 96, rv_seq = q,
           rv_timestamp = ts, rv_ssrc = ssrc, rv_payload = p\<rparr>"
  by (simp add: build_rtp_header_def be16_split be32_split RTP_PAYLOAD_TYPE_def)


section \<open>The contract of a sending routine\<close>

text \<open>The datagrams for a list of (payload, marker) pairs, numbered from \<open>q\<close>.\<close>

fun numbered ::
    "sockaddr_in \<Rightarrow> u32 \<Rightarrow> u32 \<Rightarrow> u16 \<Rightarrow> (bytes \<times> u8) list \<Rightarrow> datagram list" where
  "numbered dest ts ssrc q [] = []"
| "numbered dest ts ssrc q ((p, m) # ps) =
     \<lparr>dg_dest = dest, dg_bytes = build_rtp_header q ts ssrc m @ p\<rparr> # numbered dest ts ssrc (q + 1) ps"

lemma length_numbered [simp]: "length (numbered dest ts ssrc q ps) = length ps"
  by (induction ps arbitrary: q) auto

lemma numbered_append:
  "numbered dest ts ssrc q (ps @ ps') =
     numbered dest ts ssrc q ps @ numbered dest ts ssrc (q + of_nat (length ps)) ps'"
  by (induction ps arbitrary: q) (auto simp: add.assoc)

lemma numbered_nth:
  "i < length ps \<Longrightarrow> numbered dest ts ssrc q ps ! i =
     \<lparr>dg_dest = dest, dg_bytes = build_rtp_header (q + of_nat i) ts ssrc (snd (ps ! i)) @ fst (ps ! i)\<rparr>"
proof (induction ps arbitrary: q i)
  case (Cons x xs)
  then show ?case by (cases x; cases i) (auto simp: add.assoc)
qed simp

text \<open>
  \<open>emitted plan q u r q' u'\<close>: going from counter \<open>q\<close> and socket \<open>u\<close> to \<open>q'\<close> and \<open>u'\<close>, the first
  \<open>k\<close> packets of the plan were accepted by the network, and all of them if the return code is 0.
\<close>

definition emitted ::
    "sockaddr_in \<Rightarrow> u32 \<Rightarrow> u32 \<Rightarrow> (bytes \<times> u8) list \<Rightarrow> u16 \<Rightarrow> udp \<Rightarrow> int \<Rightarrow> u16 \<Rightarrow> udp \<Rightarrow> bool" where
  "emitted dest ts ssrc plan q u r q' u' \<longleftrightarrow>
     (\<exists>k \<le> length plan.
        udp_sent u' = udp_sent u @ numbered dest ts ssrc q (take k plan) \<and>
        q' = q + of_nat k \<and> (r = 0 \<longrightarrow> k = length plan))"

lemma emitted_none: "emitted dest ts ssrc [] q u r q u"
  by (simp add: emitted_def)

lemma emitted_fail: "r \<noteq> 0 \<Longrightarrow> udp_sent u' = udp_sent u \<Longrightarrow> emitted dest ts ssrc plan q u r q u'"
  by (auto simp: emitted_def intro: exI [of _ 0])

lemma emitted_ok:
  "emitted dest ts ssrc plan q u 0 q' u' \<Longrightarrow>
     udp_sent u' = udp_sent u @ numbered dest ts ssrc q plan \<and> q' = q + of_nat (length plan)"
  by (auto simp: emitted_def)

lemma emitted_stop:
  assumes "emitted dest ts ssrc plan q u r q' u'" and "r \<noteq> 0" and "r' \<noteq> 0"
  shows "emitted dest ts ssrc (plan @ plan') q u r' q' u'"
proof -
  from assms(1) obtain k where "k \<le> length plan"
      "udp_sent u' = udp_sent u @ numbered dest ts ssrc q (take k plan)" "q' = q + of_nat k"
    by (auto simp: emitted_def)
  with assms(3) show ?thesis
    unfolding emitted_def by (intro exI [of _ k]) simp
qed

lemma emitted_weaken: "emitted dest ts ssrc plan q u r q' u' \<Longrightarrow> r' \<noteq> 0 \<Longrightarrow>
    emitted dest ts ssrc plan q u r' q' u'"
  by (auto simp: emitted_def)

lemma emitted_seq:
  assumes "emitted dest ts ssrc plan q u 0 q1 u1" and "emitted dest ts ssrc plan' q1 u1 r q' u'"
  shows "emitted dest ts ssrc (plan @ plan') q u r q' u'"
proof -
  from assms(2) obtain k where k: "k \<le> length plan'" "r = 0 \<longrightarrow> k = length plan'"
      "udp_sent u' = udp_sent u1 @ numbered dest ts ssrc q1 (take k plan')" "q' = q1 + of_nat k"
    by (auto simp: emitted_def)
  with emitted_ok [OF assms(1)] show ?thesis
    unfolding emitted_def
    by (intro exI [of _ "length plan + k"]) (auto simp: numbered_append add.assoc)
qed

text \<open>
  The client of the contract is a routine that sends several things one after the other and
  stops at the first failure.
\<close>

fun send_each ::
    "('a \<Rightarrow> u8 \<Rightarrow> u16 \<Rightarrow> udp \<Rightarrow> int \<times> u16 \<times> udp) \<Rightarrow> ('a \<times> u8) list \<Rightarrow> u16 \<Rightarrow> udp \<Rightarrow> int \<times> u16 \<times> udp" where
  "send_each send [] q u = (0, q, u)"
| "send_each send ((x, m) # xs) q u =
     (case send x m q u of (r, q', u') \<Rightarrow> if r \<noteq> 0 then (-1, q', u') else send_each send xs q' u')"

locale rtp_sender =
  fixes send :: "'a \<Rightarrow> u8 \<Rightarrow> u16 \<Rightarrow> udp \<Rightarrow> int \<times> u16 \<times> udp"
    and plan :: "'a \<Rightarrow> u8 \<Rightarrow> (bytes \<times> u8) list"
    and dest :: sockaddr_in and ts ssrc :: u32
  assumes send_emits: "send x m q u = (r, q', u') \<Longrightarrow> emitted dest ts ssrc (plan x m) q u r q' u'"
begin

lemma send_each_emits:
  "send_each send xs q u = (r, q', u') \<Longrightarrow>
     emitted dest ts ssrc (concat (map (\<lambda>(x, m). plan x m) xs)) q u r q' u'"
proof (induction xs arbitrary: q u)
  case Nil
  then show ?case by (simp add: emitted_none)
next
  case (Cons xm xs)
  obtain x m where xm: "xm = (x, m)" by (cases xm)
  obtain r1 q1 u1 where s: "send x m q u = (r1, q1, u1)" by (cases "send x m q u") auto
  from send_emits [OF s] Cons xm s show ?case
    by (cases "r1 = 0") (auto intro: emitted_seq emitted_stop)
qed

lemma sent_grows: "send x m q u = (r, q', u') \<Longrightarrow> \<exists>ds. udp_sent u' = udp_sent u @ ds"
  using send_emits by (fastforce simp: emitted_def)

end

text \<open>A sender that in addition succeeds on every admissible input when the network accepts all.\<close>

locale live_rtp_sender = rtp_sender send plan dest ts ssrc
  for send :: "'a \<Rightarrow> u8 \<Rightarrow> u16 \<Rightarrow> udp \<Rightarrow> int \<times> u16 \<times> udp" and plan dest ts ssrc +
  fixes good :: "'a \<Rightarrow> bool" and live :: bool
  assumes send_live: "live \<Longrightarrow> good x \<Longrightarrow> fst (send x m q u) = 0"
begin

lemma send_each_live: "live \<Longrightarrow> \<forall>(x, m) \<in> set xs. good x \<Longrightarrow> fst (send_each send xs q u) = 0"
proof (induction xs arbitrary: q u)
  case (Cons xm xs)
  obtain x m where xm: "xm = (x, m)" by (cases xm)
  obtain r1 q1 u1 where s: "send x m q u = (r1, q1, u1)" by (cases "send x m q u") auto
  with send_live [of x m q u] Cons xm show ?case by auto
qed simp

end

text \<open>A network that accepts every datagram.\<close>

definition net_accepts :: "net_env \<Rightarrow> bool" where
  "net_accepts N \<longleftrightarrow> (\<forall>t d. N t d \<ge> 0)"

section \<open>One packet\<close>

text \<open>The plan of a payload that is too large for the buffer is empty.\<close>

definition packet_plan :: "bytes \<Rightarrow> u8 \<Rightarrow> (bytes \<times> u8) list" where
  "packet_plan p m = (if RTP_HEADER_SIZE + length p > RTP_PACKET_MAX_SIZE then [] else [(p, m)])"

lemma sendto_sent:
  "sendto N dest pkt u = (r, u') \<Longrightarrow>
     udp_sent u' = udp_sent u @ (if r < 0 then [] else [\<lparr>dg_dest = dest, dg_bytes = pkt\<rparr>])"
  by (auto simp: sendto_def Let_def)

lemma send_rtp_packet_emits:
  assumes "send_rtp_packet N dest ts ssrc p m q u = (r, q', u')"
  shows "emitted dest ts ssrc (packet_plan p m) q u r q' u'"
proof (cases "RTP_HEADER_SIZE + length p > RTP_PACKET_MAX_SIZE")
  case True
  with assms show ?thesis
    by (auto simp: send_rtp_packet_def packet_plan_def emitted_none)
next
  case False
  obtain l u1 where s: "sendto N dest (build_rtp_header q ts ssrc m @ p) u = (l, u1)"
    by (cases "sendto N dest (build_rtp_header q ts ssrc m @ p) u") auto
  show ?thesis
  proof (cases "l < 0")
    case True
    with False assms s sendto_sent [OF s] show ?thesis
      by (auto simp: send_rtp_packet_def intro: emitted_fail)
  next
    case l: False
    with False assms s sendto_sent [OF s] show ?thesis
      by (auto simp: send_rtp_packet_def packet_plan_def emitted_def intro!: exI [of _ 1])
  qed
qed

lemma send_rtp_packet_live:
  "net_accepts N \<Longrightarrow> RTP_HEADER_SIZE + length p \<le> RTP_PACKET_MAX_SIZE \<Longrightarrow>
     fst (send_rtp_packet N dest ts ssrc p m q u) = 0"
  by (auto simp: send_rtp_packet_def sendto_def Let_def net_accepts_def not_less split: prod.splits)

interpretation pkt: live_rtp_sender "send_rtp_packet N dest ts ssrc" packet_plan dest ts ssrc
    "\<lambda>p. RTP_HEADER_SIZE + length p \<le> RTP_PACKET_MAX_SIZE" "net_accepts N"
  for N dest ts ssrc
  by unfold_locales (auto intro: send_rtp_packet_emits send_rtp_packet_live)


section \<open>One NALU\<close>

definition fu_header :: "bytes \<Rightarrow> bool \<Rightarrow> bool \<Rightarrow> bytes" where
  "fu_header n first lst =
     [(n ! 0 AND 0x81) OR push_bit 1 H265_FU_TYPE, n ! 1,
      (if first then 0x80 else 0x00) OR (if lst then 0x40 else 0x00) OR
        (of_int (h265_nalu_type n) AND 0x3f)]"

text \<open>The fragmentation units for the bytes \<open>rest\<close> of the NALU \<open>n\<close>.\<close>

function fu_plan :: "bytes \<Rightarrow> u8 \<Rightarrow> bool \<Rightarrow> bytes \<Rightarrow> (bytes \<times> u8) list" where
  "fu_plan n m first rest =
     (if rest = [] then []
      else (fu_header n first (length rest \<le> 1197) @ take 1197 rest, if length rest \<le> 1197 then m else 0)
           # fu_plan n m False (drop 1197 rest))"
  by pat_completeness auto
termination
  by (relation "measure (\<lambda>(n, m, f, rest). length rest)") auto

declare fu_plan.simps [simp del]

definition nalu_plan :: "bytes option \<Rightarrow> u8 \<Rightarrow> (bytes \<times> u8) list" where
  "nalu_plan nalup m =
     (case nalup of
        None \<Rightarrow> []
      | Some n \<Rightarrow>
          if length n < 2 then []
          else if length n \<le> RTP_MAX_PAYLOAD then [(n, m)]
          else fu_plan n m True (drop 2 n))"

lemmas rtp_sizes = RTP_HEADER_SIZE_def RTP_PACKET_MAX_SIZE_def RTP_MAX_PAYLOAD_def H265_FU_HEADER_SIZE_def

lemma send_fu_loop_eq:
  "send_fu_loop N dest ts ssrc n (h265_nalu_type n) m off first q u =
     send_each (send_rtp_packet N dest ts ssrc) (fu_plan n m first (drop off n)) q u"
proof (induction "length n - off" arbitrary: off first q u rule: less_induct)
  case less
  show ?case
  proof (cases "off < length n")
    case False
    then show ?thesis by (simp add: send_fu_loop.simps [of _ _ _ _ _ _ _ off] fu_plan.simps [of n])
  next
    case True
    define size where "size = (if length n - off > 1197 then 1197 else length n - off)"
    have pos: "0 < size" and fits: "off + size \<le> length n"
      and lst: "off + size \<ge> length n \<longleftrightarrow> length n - off \<le> 1197"
      using True by (auto simp: size_def)
    have sl: "bslice n off (off + size) = take 1197 (drop off n)"
      by (auto simp: bslice_def size_def)
    have rest: "drop (off + size) n = drop 1197 (drop off n)"
      using True by (auto simp: size_def add.commute)
    have rec: "send_fu_loop N dest ts ssrc n (h265_nalu_type n) m (off + size) False q' u' =
        send_each (send_rtp_packet N dest ts ssrc) (fu_plan n m False (drop 1197 (drop off n))) q' u'" for q' u'
      unfolding rest [symmetric] by (rule less.hyps) (use True pos in auto)
    have step: "send_fu_loop N dest ts ssrc n (h265_nalu_type n) m off first q u =
        (case send_rtp_packet N dest ts ssrc
                (fu_header n first (length n - off \<le> 1197) @ bslice n off (off + size))
                (if length n - off \<le> 1197 then m else 0) q u of
           (r, q', u') \<Rightarrow>
             if r \<noteq> 0 then (-1, q', u')
             else send_fu_loop N dest ts ssrc n (h265_nalu_type n) m (off + size) False q' u')"
    proof (cases "1197 < length n - off")
      case large: True
      then have sz: "size = 1197" and "\<not> length n \<le> off + 1197" by (auto simp: size_def)
      with large show ?thesis unfolding sz
        by (cases first) (simp_all add: send_fu_loop.simps [of _ _ _ _ _ _ _ off] Let_def rtp_sizes fu_header_def)
    next
      case False
      then have sz: "size = length n - off" and "length n - off \<le> 1197" by (auto simp: size_def)
      with False True show ?thesis unfolding sz
        by (cases first) (simp_all add: send_fu_loop.simps [of _ _ _ _ _ _ _ off] Let_def rtp_sizes fu_header_def)
    qed
    show ?thesis
      unfolding step sl rec using True
      by (simp add: fu_plan.simps [of n m first] split: prod.splits)
  qed
qed

lemma fu_plan_sizes:
  "(p, k) \<in> set (fu_plan n m first rest) \<Longrightarrow> length p \<le> RTP_MAX_PAYLOAD"
proof (induction n m first rest rule: fu_plan.induct)
  case (1 n m first rest)
  then show ?case
    by (auto simp: fu_plan.simps [of n m first] fu_header_def rtp_sizes split: if_splits)
qed

lemma fu_plan_concat:
  "concat (map (\<lambda>(p, k). packet_plan p k) (fu_plan n m first rest)) = fu_plan n m first rest"
proof -
  have single: "map (\<lambda>(p, k). packet_plan p k) (fu_plan n m first rest) =
      map (\<lambda>x. [x]) (fu_plan n m first rest)"
    by (rule map_cong [OF refl]) (use fu_plan_sizes in \<open>force simp: packet_plan_def rtp_sizes\<close>)
  show ?thesis by (simp only: single concat_map_singleton map_ident)
qed

lemma send_h265_nalu_rtp_emits:
  assumes "send_h265_nalu_rtp N dest ts ssrc nalup m q u = (r, q', u')"
  shows "emitted dest ts ssrc (nalu_plan nalup m) q u r q' u'"
proof (cases nalup)
  case None
  with assms show ?thesis
    by (simp add: send_h265_nalu_rtp_def nalu_plan_def emitted_none)
next
  case (Some n)
  consider "length n < 2" | "\<not> length n < 2" "length n \<le> RTP_MAX_PAYLOAD"
    | "\<not> length n < 2" "\<not> length n \<le> RTP_MAX_PAYLOAD" by blast
  then show ?thesis
  proof cases
    case 1
    with assms Some show ?thesis
      by (simp add: send_h265_nalu_rtp_def nalu_plan_def emitted_none)
  next
    case 2
    with assms Some have "send_rtp_packet N dest ts ssrc n m q u = (r, q', u')"
      by (simp add: send_h265_nalu_rtp_def)
    from pkt.send_emits [OF this] 2 Some show ?thesis
      by (simp add: nalu_plan_def packet_plan_def rtp_sizes)
  next
    case 3
    with assms Some have
      "send_each (send_rtp_packet N dest ts ssrc) (fu_plan n m True (drop 2 n)) q u = (r, q', u')"
      by (simp add: send_h265_nalu_rtp_def send_fu_loop_eq)
    from pkt.send_each_emits [OF this] 3 Some show ?thesis
      by (simp add: nalu_plan_def fu_plan_concat)
  qed
qed

lemma send_h265_nalu_rtp_live:
  assumes "net_accepts N" and "\<exists>n. nalup = Some n \<and> 2 \<le> length n"
  shows "fst (send_h265_nalu_rtp N dest ts ssrc nalup m q u) = 0"
proof -
  from assms(2) obtain n where n: "nalup = Some n" "2 \<le> length n" by blast
  show ?thesis
  proof (cases "length n \<le> RTP_MAX_PAYLOAD")
    case True
    with n assms(1) show ?thesis
      by (simp add: send_h265_nalu_rtp_def send_rtp_packet_live rtp_sizes)
  next
    case False
    have "\<forall>(p, k) \<in> set (fu_plan n m True (drop 2 n)). RTP_HEADER_SIZE + length p \<le> RTP_PACKET_MAX_SIZE"
      using fu_plan_sizes [of _ _ n m True "drop 2 n"] by (fastforce simp: rtp_sizes)
    from pkt.send_each_live [OF assms(1) this] n False show ?thesis
      by (simp add: send_h265_nalu_rtp_def send_fu_loop_eq)
  qed
qed

interpretation nalu: live_rtp_sender "send_h265_nalu_rtp N dest ts ssrc" nalu_plan dest ts ssrc
    "\<lambda>nalup. \<exists>n. nalup = Some n \<and> 2 \<le> length n" "net_accepts N"
  for N dest ts ssrc
  by unfold_locales (auto intro: send_h265_nalu_rtp_emits send_h265_nalu_rtp_live)


section \<open>Reassembly\<close>

text \<open>
  A receiver's depacketisation (RFC 7798, section 4.4): a payload that is not a fragmentation
  unit is a NALU; otherwise the payloads are the units of one NALU, the S bit on the first, the
  E bit on the last, and the NAL header is rebuilt from the payload header and the FU type.
\<close>

definition fu_start :: "bytes \<Rightarrow> bool" where "fu_start p \<longleftrightarrow> p ! 2 AND 0x80 \<noteq> 0"
definition fu_end :: "bytes \<Rightarrow> bool" where "fu_end p \<longleftrightarrow> p ! 2 AND 0x40 \<noteq> 0"

fun fu_rest :: "bytes list \<Rightarrow> bytes option" where
  "fu_rest [] = None"
| "fu_rest (p # ps) =
     (if fu_start p then None
      else if fu_end p then (if ps = [] then Some (drop 3 p) else None)
      else map_option (\<lambda>r. drop 3 p @ r) (fu_rest ps))"

fun depacketize :: "bytes list \<Rightarrow> bytes option" where
  "depacketize [] = None"
| "depacketize (p # ps) =
     (if h265_nalu_type p \<noteq> 49 then (if ps = [] then Some p else None)
      else if fu_start p \<and> \<not> fu_end p
      then map_option (\<lambda>r. [(p ! 0 AND 0x81) OR push_bit 1 (p ! 2 AND 0x3f), p ! 1] @ drop 3 p @ r)
             (fu_rest ps)
      else None)"

lemma fu_flag_bits:
  fixes t :: u8
  shows "((if f then 0x80 else 0x00) OR (if l then 0x40 else 0x00) OR (t AND 0x3f)) AND 0x80 =
      (if f then 0x80 else 0)"
    and "((if f then 0x80 else 0x00) OR (if l then 0x40 else 0x00) OR (t AND 0x3f)) AND 0x40 =
      (if l then 0x40 else 0)"
    and "((if f then 0x80 else 0x00) OR (if l then 0x40 else 0x00) OR (t AND 0x3f)) AND 0x3f =
      t AND 0x3f"
  by (simp_all add: bit.conj_disj_distrib2 and.assoc)

lemma nal_header_rebuild:
  fixes x :: u8
  shows "(x AND 0x81) OR push_bit 1 (drop_bit 1 x AND 0x3f) = x"
proof (rule bit_word_eqI)
  fix n
  assume "n < LENGTH(8)"
  then have "n \<in> {0, 1, 2, 3, 4, 5, 6, 7}" by auto
  then show "bit ((x AND 0x81) OR push_bit 1 (drop_bit 1 x AND 0x3f)) n = bit x n"
    unfolding bit_or_iff bit_and_iff bit_push_bit_iff by (auto simp: bit_simps eval_nat_numeral)
qed

lemma payload_header_type:
  fixes x :: u8
  shows "drop_bit 1 ((x AND 0x81) OR push_bit 1 49) AND 0x3f = 49"
proof (rule bit_word_eqI)
  fix n
  assume "n < LENGTH(8)"
  then have "n \<in> {0, 1, 2, 3, 4, 5, 6, 7}" by auto
  then show "bit (drop_bit 1 ((x AND 0x81) OR push_bit 1 49) AND 0x3f) n = bit (49 :: u8) n"
    by (auto simp: bit_simps)
qed

lemma length_fu_header [simp]: "length (fu_header n f l) = 3"
  by (simp add: fu_header_def)

lemma fu_payload_fields:
  "fu_start (fu_header n f l @ d) = f" "fu_end (fu_header n f l @ d) = l"
  "drop 3 (fu_header n f l @ d) = d"
  "h265_nalu_type (fu_header n f l @ d) = 49"
  "(fu_header n f l @ d) ! 0 = fu_header n f l ! 0" "(fu_header n f l @ d) ! Suc 0 = n ! 1"
  "(fu_header n f l @ d) ! 2 = fu_header n f l ! 2"
proof -
  have "drop_bit 1 (fu_header n f l ! 0) AND 0x3f = 49"
    using payload_header_type [of "n ! 0"] by (simp add: fu_header_def H265_FU_TYPE_def)
  then show "h265_nalu_type (fu_header n f l @ d) = 49"
    by (simp add: h265_nalu_type_def fu_header_def)
qed (simp_all add: fu_start_def fu_end_def fu_header_def fu_flag_bits)

lemma fu_header_type:
  assumes "2 \<le> length n"
  shows "(fu_header n f l ! 0 AND 0x81) OR push_bit 1 (fu_header n f l ! 2 AND 0x3f) = n ! 0"
proof -
  have "fu_header n f l ! 2 AND 0x3f = drop_bit 1 (n ! 0) AND 0x3f"
    using assms by (simp add: fu_header_def fu_flag_bits h265_nalu_type_def and.assoc)
  moreover have "fu_header n f l ! 0 AND 0x81 = n ! 0 AND 0x81"
    by (simp add: fu_header_def H265_FU_TYPE_def bit.conj_disj_distrib2 and.assoc)
  ultimately show ?thesis using nal_header_rebuild by simp
qed

lemma fu_rest_plan:
  "rest \<noteq> [] \<Longrightarrow> fu_rest (map fst (fu_plan n m False rest)) = Some rest"
proof (induction "length rest" arbitrary: rest rule: less_induct)
  case less
  note eq = fu_plan.simps [of n m False rest]
  show ?case
  proof (cases "length rest \<le> 1197")
    case True
    with less.prems eq show ?thesis
      by (simp add: fu_payload_fields fu_plan.simps [of n m False "[]"])
  next
    case False
    then have "fu_rest (map fst (fu_plan n m False (drop 1197 rest))) = Some (drop 1197 rest)"
      by (intro less.hyps) auto
    with False less.prems eq show ?thesis by (simp add: fu_payload_fields)
  qed
qed

lemma depacketize_plan:
  assumes "2 \<le> length n" and "h265_nalu_type n \<noteq> 49"
  shows "depacketize (map fst (nalu_plan (Some n) m)) = Some n"
proof (cases "length n \<le> RTP_MAX_PAYLOAD")
  case True
  with assms show ?thesis by (simp add: nalu_plan_def)
next
  case False
  then have long: "\<not> length (drop 2 n) \<le> 1197" and ne: "drop 1197 (drop 2 n) \<noteq> []"
    by (simp_all add: rtp_sizes)
  obtain a b tl where n: "n = a # b # tl" using assms(1) by (metis Suc_le_length_iff numeral_2_eq_2)
  have "depacketize (map fst (fu_plan n m True (drop 2 n))) =
      Some ([n ! 0, n ! 1] @ take 1197 (drop 2 n) @ drop 1197 (drop 2 n))"
    using long fu_rest_plan [OF ne, of n m] fu_header_type [OF assms(1), of True False]
    by (subst fu_plan.simps) (simp add: fu_payload_fields)
  with False assms(1) n show ?thesis by (simp add: nalu_plan_def)
qed


section \<open>Properties\<close>

text \<open>What the receiver sees of a numbered list of packets.\<close>

fun views :: "u32 \<Rightarrow> u32 \<Rightarrow> u16 \<Rightarrow> (bytes \<times> u8) list \<Rightarrow> rtp_view list" where
  "views ts ssrc q [] = []"
| "views ts ssrc q ((p, m) # ps) =
     \<lparr>rv_version = 2, rv_marker = (m \<noteq> 0), rv_payload_type = 96, rv_seq = q,
      rv_timestamp = ts, rv_ssrc = ssrc, rv_payload = p\<rparr> # views ts ssrc (q + 1) ps"

lemma parse_numbered:
  "map (\<lambda>d. rtp_parse (dg_bytes d)) (numbered dest ts ssrc q ps) = map Some (views ts ssrc q ps)"
  by (induction ps arbitrary: q) (auto simp: rtp_parse_build)

lemma views_fields:
  "map rv_payload (views ts ssrc q ps) = map fst ps"
  "map rv_marker (views ts ssrc q ps) = map (\<lambda>x. snd x \<noteq> 0) ps"
  "map rv_seq (views ts ssrc q ps) = map (\<lambda>i. q + of_nat i) [0..<length ps]"
proof (induction ps arbitrary: q)
  case (Cons x xs)
  case 3
  have "map (\<lambda>i. q + of_nat i) [0..<length (x # xs)] =
      q # map (\<lambda>i. q + 1 + of_nat i) [0..<length xs]"
    by (simp add: upt_conv_Cons map_Suc_upt [symmetric] add.assoc del: upt_Suc map_Suc_upt)
  with Cons(3) [of "q + 1"] show ?case by (cases x) simp
qed auto

lemma fu_plan_markers:
  "rest \<noteq> [] \<Longrightarrow> map snd (fu_plan n m f rest) = replicate (length (fu_plan n m f rest) - 1) 0 @ [m]"
proof (induction "length rest" arbitrary: f rest rule: less_induct)
  case less
  note eq = fu_plan.simps [of n m f rest]
  show ?case
  proof (cases "length rest \<le> 1197")
    case True
    with less.prems eq show ?thesis by (simp add: fu_plan.simps [of n m False "[]"])
  next
    case False
    then have "drop 1197 rest \<noteq> []" by simp
    moreover from this have "0 < length (fu_plan n m False (drop 1197 rest))"
      by (subst fu_plan.simps) simp
    moreover have "map snd (fu_plan n m False (drop 1197 rest)) =
        replicate (length (fu_plan n m False (drop 1197 rest)) - 1) 0 @ [m]"
      using False by (intro less.hyps) auto
    ultimately show ?thesis
      using False less.prems eq by (simp flip: replicate_Suc append_Cons)
  qed
qed

lemma nalu_plan_markers:
  assumes "2 \<le> length n"
  shows "map snd (nalu_plan (Some n) m) = replicate (length (nalu_plan (Some n) m) - 1) 0 @ [m]"
  using assms fu_plan_markers [of "drop 2 n" n m True] by (auto simp: nalu_plan_def rtp_sizes)

text \<open>The 12 header bytes carry version 2, payload type 96, the marker flag, the sequence
  number, the timestamp and the SSRC without loss, whatever payload follows.\<close>

theorem rtp_header_roundtrip:
  "rtp_parse (build_rtp_header seq timestamp ssrc marker @ payload) =
     Some \<lparr>rv_version = 2, rv_marker = (marker \<noteq> 0), rv_payload_type = 96, rv_seq = seq,
           rv_timestamp = timestamp, rv_ssrc = ssrc, rv_payload = payload\<rparr>"
  by (rule rtp_parse_build)

text \<open>C28: Whatever the network does, \<open>send_h265_nalu_rtp\<close> transmits a prefix of the planned
  packets of the NALU, with consecutive 16-bit sequence numbers from \<open>*seq\<close>, leaves \<open>*seq\<close> at
  the number after the last accepted packet, and has sent all of them when it returns 0.\<close>

theorem send_h265_nalu_rtp_refines:
  assumes "send_h265_nalu_rtp N dest ts ssrc nalup m q u = (r, q', u')"
  shows "\<exists>k \<le> length (nalu_plan nalup m).
    udp_sent u' = udp_sent u @ numbered dest ts ssrc q (take k (nalu_plan nalup m)) \<and>
    q' = q + of_nat k \<and> (r = 0 \<longrightarrow> k = length (nalu_plan nalup m))"
  using nalu.send_emits [OF assms] by (simp add: emitted_def)

theorem send_h265_nalu_rtp_refines_witness:
  "\<exists>r q' u'. send_h265_nalu_rtp (\<lambda>_ _. 15) \<lparr>sin_family = 2, sin_port = 0, sin_addr = 0\<rparr> 7 9
      (Some [0x40, 1, 5]) 1 65535 \<lparr>udp_calls = 0, udp_sent = []\<rparr> = (r, q', u') \<and> q' = 0 \<and>
    (\<exists>k \<le> length (nalu_plan (Some [0x40, 1, 5]) 1).
       udp_sent u' = numbered \<lparr>sin_family = 2, sin_port = 0, sin_addr = 0\<rparr> 7 9 65535
         (take k (nalu_plan (Some [0x40, 1, 5]) 1)) \<and> q' = 65535 + of_nat k)"
proof -
  let ?d = "\<lparr>sin_family = 2, sin_port = 0, sin_addr = 0\<rparr>" and ?u = "\<lparr>udp_calls = 0, udp_sent = []\<rparr>"
  let ?X = "send_h265_nalu_rtp (\<lambda>_ _. 15) ?d 7 9 (Some [0x40, 1, 5]) 1 65535 ?u"
  obtain r q' u' where X: "?X = (r, q', u')" by (cases ?X) auto
  moreover have "fst (snd ?X) = 0"
    by (simp add: send_h265_nalu_rtp_def send_rtp_packet_def sendto_def Let_def rtp_sizes)
  ultimately show ?thesis
    using send_h265_nalu_rtp_refines [OF X] by (intro exI [of _ r] exI [of _ q'] exI [of _ u']) auto
qed

text \<open>C7: Fragmentation is lossless: on a network that accepts every datagram, a NALU of any
  length (at least 2 bytes, type not 49) is sent to \<open>dest\<close> as packets of at most 1212 bytes,
  numbered consecutively, the marker flag on the last one only, from which a receiver
  rebuilds the NALU byte for byte.\<close>

theorem send_h265_nalu_rtp_reassembles:
  assumes "net_accepts N" and "2 \<le> length n" and "h265_nalu_type n \<noteq> 49"
  shows "\<exists>q' u' ds vs. send_h265_nalu_rtp N dest ts ssrc (Some n) m q u = (0, q', u') \<and>
    udp_sent u' = udp_sent u @ ds \<and> q' = q + of_nat (length ds) \<and>
    list_all (\<lambda>d. dg_dest d = dest \<and> length (dg_bytes d) \<le> 1212) ds \<and>
    map (\<lambda>d. rtp_parse (dg_bytes d)) ds = map Some vs \<and>
    depacketize (map rv_payload vs) = Some n \<and>
    map rv_marker vs = replicate (length vs - 1) False @ [m \<noteq> 0] \<and>
    map rv_seq vs = map (\<lambda>i. q + of_nat i) [0..<length vs] \<and>
    list_all (\<lambda>v. rv_timestamp v = ts \<and> rv_ssrc v = ssrc) vs"
proof -
  let ?plan = "nalu_plan (Some n) m"
  let ?ds = "numbered dest ts ssrc q ?plan" and ?vs = "views ts ssrc q ?plan"
  obtain r q' u' where X: "send_h265_nalu_rtp N dest ts ssrc (Some n) m q u = (r, q', u')"
    by (cases "send_h265_nalu_rtp N dest ts ssrc (Some n) m q u") auto
  have r: "r = 0" using send_h265_nalu_rtp_live [OF assms(1), of "Some n" dest ts ssrc m q u] X assms(2) by simp
  from emitted_ok nalu.send_emits [OF X] r
  have sent: "udp_sent u' = udp_sent u @ ?ds" and q': "q' = q + of_nat (length ?ds)" by auto
  have small: "\<forall>x \<in> set ?plan. length (fst x) \<le> 1200"
    using fu_plan_sizes [of _ _ n m True "drop 2 n"] by (auto simp: nalu_plan_def rtp_sizes)
  have "list_all (\<lambda>d. dg_dest d = dest \<and> length (dg_bytes d) \<le> 1212) ?ds"
    using small numbered_nth [of _ ?plan dest ts ssrc q]
    by (auto simp: list_all_length)
  moreover have "map rv_marker ?vs = replicate (length ?vs - 1) False @ [m \<noteq> 0]"
  proof -
    have "map rv_marker ?vs = map (\<lambda>k. k \<noteq> 0) (map snd ?plan)" by (simp add: views_fields)
    also have "\<dots> = replicate (length ?plan - 1) False @ [m \<noteq> 0]"
      by (simp add: nalu_plan_markers [OF assms(2)])
    finally show ?thesis using views_fields(1) [of ts ssrc q ?plan] by (metis length_map)
  qed
  moreover have "list_all (\<lambda>v. rv_timestamp v = ts \<and> rv_ssrc v = ssrc) (views ts ssrc q ps)" for q ps
    by (induction ps arbitrary: q) auto
  moreover have "length ?vs = length ?plan"
    using views_fields(1) [of ts ssrc q ?plan] by (metis length_map)
  ultimately show ?thesis
    using X r sent q' parse_numbered views_fields depacketize_plan [OF assms(2,3)]
    by (intro exI [of _ q'] exI [of _ u'] exI [of _ ?ds] exI [of _ ?vs]) simp
qed

theorem send_h265_nalu_rtp_reassembles_witness:
  "\<exists>q' u' ds vs. send_h265_nalu_rtp (\<lambda>_ _. 1) \<lparr>sin_family = 2, sin_port = 0, sin_addr = 0\<rparr> 7 9
      (Some ([0x26, 1] @ replicate 3000 5)) 1 65534 \<lparr>udp_calls = 0, udp_sent = []\<rparr> = (0, q', u') \<and>
    udp_sent u' = ds \<and> map (\<lambda>d. rtp_parse (dg_bytes d)) ds = map Some vs \<and>
    depacketize (map rv_payload vs) = Some ([0x26, 1] @ replicate 3000 5)"
proof -
  have "h265_nalu_type ([0x26, 1] @ replicate 3000 5) \<noteq> 49"
    by (simp add: h265_nalu_type_def)
  then show ?thesis
    using send_h265_nalu_rtp_reassembles [of "\<lambda>_ _. 1" "[0x26, 1] @ replicate 3000 5"
        "\<lparr>sin_family = 2, sin_port = 0, sin_addr = 0\<rparr>" 7 9 1 65534 "\<lparr>udp_calls = 0, udp_sent = []\<rparr>"]
    by (auto simp: net_accepts_def)
qed

end
