(* ===== verification/Ipc_Message.thy ===== *)
theory Ipc_Message
  imports Prelude
begin

unbundle bit_operations_syntax

text \<open>
  The message that the big core puts into the DATAFIFO (\<open>lnc/nalu_datafifo.h\<close>) and
  \<open>nalu_datafifo_validate_msg\<close> of \<open>src/nalu_datafifo.c\<close>. A FIFO item is a block of 512 bytes of
  shared memory; \<open>msg_of_item\<close> is the cast \<open>(const mpp_nalu_ipc_msg *)item\<close> on the little-endian
  target, with the offsets of the C layout of the structure.
\<close>

section \<open>The message\<close>

record ipc_pack =
  pk_phys_addr :: u64
  pk_pts :: u64
  pk_len :: u32
  pk_type :: u32

record ipc_msg =
  msg_magic :: u32
  msg_version :: u32
  msg_chn :: u32
  msg_pack_cnt :: u32
  msg_seq :: u64
  msg_frame_pts :: u64
  msg_submit_time_ms :: u64
  msg_total_len :: u32
  msg_reserved :: u32
  msg_packs :: "ipc_pack list"

definition MPP_NALU_IPC_MAGIC :: u32 where "MPP_NALU_IPC_MAGIC = 0x4E414C55"
definition MPP_NALU_IPC_VERSION :: u32 where "MPP_NALU_IPC_VERSION = 1"
definition MPP_NALU_IPC_MAX_PACKS :: u32 where "MPP_NALU_IPC_MAX_PACKS = 8"
definition MPP_NALU_IPC_ITEM_SIZE :: u32 where "MPP_NALU_IPC_ITEM_SIZE = 512"
definition MPP_NALU_IPC_FLAG_SNAPSHOT :: u32 where "MPP_NALU_IPC_FLAG_SNAPSHOT = 1"

lemmas ipc_consts = MPP_NALU_IPC_MAGIC_def MPP_NALU_IPC_VERSION_def MPP_NALU_IPC_MAX_PACKS_def
  MPP_NALU_IPC_ITEM_SIZE_def MPP_NALU_IPC_FLAG_SNAPSHOT_def

section \<open>The item in memory\<close>

definition le32 :: "bytes \<Rightarrow> nat \<Rightarrow> u32" where
  "le32 bs i = ucast (bs ! i) OR push_bit 8 (ucast (bs ! (i + 1))) OR
     push_bit 16 (ucast (bs ! (i + 2))) OR push_bit 24 (ucast (bs ! (i + 3)))"

definition le64 :: "bytes \<Rightarrow> nat \<Rightarrow> u64" where
  "le64 bs i = ucast (le32 bs i) OR push_bit 32 (ucast (le32 bs (i + 4)))"

definition pack_at :: "bytes \<Rightarrow> nat \<Rightarrow> ipc_pack" where
  "pack_at bs i =
     \<lparr>pk_phys_addr = le64 bs i, pk_pts = le64 bs (i + 8), pk_len = le32 bs (i + 16),
      pk_type = le32 bs (i + 20)\<rparr>"

definition msg_of_item :: "bytes \<Rightarrow> ipc_msg" where
  "msg_of_item bs =
     \<lparr>msg_magic = le32 bs 0, msg_version = le32 bs 4, msg_chn = le32 bs 8, msg_pack_cnt = le32 bs 12,
      msg_seq = le64 bs 16, msg_frame_pts = le64 bs 24, msg_submit_time_ms = le64 bs 32,
      msg_total_len = le32 bs 40, msg_reserved = le32 bs 44,
      msg_packs = map (\<lambda>k. pack_at bs (48 + 24 * k)) [0..<8]\<rparr>"

text \<open>The writer's layout, to state that the reader's offsets are those of the structure.\<close>

definition le32_bytes :: "u32 \<Rightarrow> bytes" where
  "le32_bytes w = [ucast w, ucast (drop_bit 8 w), ucast (drop_bit 16 w), ucast (drop_bit 24 w)]"

definition le64_bytes :: "u64 \<Rightarrow> bytes" where
  "le64_bytes w = le32_bytes (ucast w) @ le32_bytes (ucast (drop_bit 32 w))"

definition pack_bytes :: "ipc_pack \<Rightarrow> bytes" where
  "pack_bytes p = le64_bytes (pk_phys_addr p) @ le64_bytes (pk_pts p) @ le32_bytes (pk_len p) @
     le32_bytes (pk_type p)"

definition msg_bytes :: "ipc_msg \<Rightarrow> bytes" where
  "msg_bytes m = le32_bytes (msg_magic m) @ le32_bytes (msg_version m) @ le32_bytes (msg_chn m) @
     le32_bytes (msg_pack_cnt m) @ le64_bytes (msg_seq m) @ le64_bytes (msg_frame_pts m) @
     le64_bytes (msg_submit_time_ms m) @ le32_bytes (msg_total_len m) @ le32_bytes (msg_reserved m) @
     concat (map pack_bytes (msg_packs m))"

lemma length_le_bytes [simp]:
  "length (le32_bytes w) = 4" "length (le64_bytes x) = 8" "length (pack_bytes p) = 24"
  by (simp_all add: le32_bytes_def le64_bytes_def pack_bytes_def)

lemma le32_split:
  "ucast (ucast w :: u8) OR push_bit 8 (ucast (ucast (drop_bit 8 w) :: u8)) OR
     push_bit 16 (ucast (ucast (drop_bit 16 w) :: u8)) OR push_bit 24 (ucast (ucast (drop_bit 24 w) :: u8)) =
   (w :: u32)"
proof (rule bit_word_eqI)
  fix n
  assume "n < LENGTH(32)"
  consider "n < 8" | "8 \<le> n" "n < 16" | "16 \<le> n" "n < 24" | "24 \<le> n" by linarith
  then show "bit ((ucast (ucast w :: u8) :: u32) OR push_bit 8 (ucast (ucast (drop_bit 8 w) :: u8)) OR
     push_bit 16 (ucast (ucast (drop_bit 16 w) :: u8)) OR
     push_bit 24 (ucast (ucast (drop_bit 24 w) :: u8))) n = bit w n"
    using \<open>n < LENGTH(32)\<close> by cases (auto simp: bit_simps)
qed

lemma le32_read: "length pre = i \<Longrightarrow> le32 (pre @ le32_bytes w @ post) i = w"
  using le32_split [of w] by (auto simp: le32_def le32_bytes_def nth_append)

lemma le64_split:
  "ucast (ucast w :: u32) OR push_bit 32 (ucast (ucast (drop_bit 32 w) :: u32)) = (w :: u64)"
  by (rule bit_word_eqI) (auto simp: bit_simps)

lemma le64_read: "length pre = i \<Longrightarrow> le64 (pre @ le64_bytes w @ post) i = w"
  using le32_read [of pre i "ucast w" "le32_bytes (ucast (drop_bit 32 w)) @ post"]
    le32_read [of "pre @ le32_bytes (ucast w)" "i + 4" "ucast (drop_bit 32 w)" post] le64_split [of w]
  by (simp add: le64_def le64_bytes_def)

lemma pack_at_read:
  assumes "length pre = i"
  shows "pack_at (pre @ pack_bytes p @ post) i = p"
proof -
  have a: "le64 (pre @ pack_bytes p @ post) i = pk_phys_addr p"
    using le64_read [OF assms, of "pk_phys_addr p"] by (simp add: pack_bytes_def)
  have b: "le64 (pre @ pack_bytes p @ post) (i + 8) = pk_pts p"
    using le64_read [of "pre @ le64_bytes (pk_phys_addr p)" "i + 8" "pk_pts p"] assms
    by (simp add: pack_bytes_def)
  have c: "le32 (pre @ pack_bytes p @ post) (i + 16) = pk_len p"
    using le32_read [of "pre @ le64_bytes (pk_phys_addr p) @ le64_bytes (pk_pts p)" "i + 16" "pk_len p"] assms
    by (simp add: pack_bytes_def)
  have d: "le32 (pre @ pack_bytes p @ post) (i + 20) = pk_type p"
    using le32_read [of "pre @ le64_bytes (pk_phys_addr p) @ le64_bytes (pk_pts p) @ le32_bytes (pk_len p)"
        "i + 20" "pk_type p"] assms
    by (simp add: pack_bytes_def)
  show ?thesis by (simp add: pack_at_def a b c d)
qed

lemma pack_at_nth:
  "k < length ps \<Longrightarrow> length pre = i \<Longrightarrow>
     pack_at (pre @ concat (map pack_bytes ps) @ post) (i + 24 * k) = ps ! k"
proof (induction ps arbitrary: k pre i)
  case (Cons p ps)
  show ?case
  proof (cases k)
    case 0
    with Cons.prems pack_at_read [of pre i p "concat (map pack_bytes ps) @ post"] show ?thesis by simp
  next
    case (Suc k')
    with Cons.prems Cons.IH [of k' "pre @ pack_bytes p" "i + 24"] show ?thesis
      by (simp add: add.assoc)
  qed
qed simp


section \<open>Validation\<close>

text \<open>
  The loop over \<open>packs[0 .. pack_cnt - 1]\<close>: \<open>Some\<close> of \<open>sum_len\<close>, a 32-bit sum, or \<open>None\<close> for the
  return with \<open>-1\<close>.
\<close>

fun validate_packs :: "ipc_pack list \<Rightarrow> u32 \<Rightarrow> u32 option" where
  "validate_packs [] sum_len = Some sum_len"
| "validate_packs (p # ps) sum_len =
     (if pk_phys_addr p = 0 \<or> pk_len p = 0 then None
      else if pk_len p > 8 * 1024 * 1024 \<or> sum_len > 0xffffffff - pk_len p then None
      else validate_packs ps (sum_len + pk_len p))"

definition nalu_datafifo_validate_msg :: "ipc_msg option \<Rightarrow> int" where
  "nalu_datafifo_validate_msg msgp =
     (case msgp of
        None \<Rightarrow> -1
      | Some msg \<Rightarrow>
          if msg_magic msg \<noteq> MPP_NALU_IPC_MAGIC then -1
          else if msg_version msg \<noteq> MPP_NALU_IPC_VERSION then -1
          else if msg_pack_cnt msg = 0 \<or> msg_pack_cnt msg > MPP_NALU_IPC_MAX_PACKS then -1
          else case validate_packs (take (unat (msg_pack_cnt msg)) (msg_packs msg)) 0 of
                 None \<Rightarrow> -1
               | Some sum_len \<Rightarrow>
                   if msg_total_len msg \<noteq> 0 \<and> msg_total_len msg \<noteq> sum_len then -1 else 0)"

text \<open>The abstract specification, over unbounded numbers.\<close>

definition pack_ok :: "ipc_pack \<Rightarrow> bool" where
  "pack_ok p \<longleftrightarrow> pk_phys_addr p \<noteq> 0 \<and> 0 < unat (pk_len p) \<and> unat (pk_len p) \<le> 8 * 1024 * 1024"

definition live_packs :: "ipc_msg \<Rightarrow> ipc_pack list" where
  "live_packs m = take (unat (msg_pack_cnt m)) (msg_packs m)"

definition msg_ok :: "ipc_msg \<Rightarrow> bool" where
  "msg_ok m \<longleftrightarrow> msg_magic m = 0x4E414C55 \<and> msg_version m = 1 \<and>
     1 \<le> unat (msg_pack_cnt m) \<and> unat (msg_pack_cnt m) \<le> 8 \<and> list_all pack_ok (live_packs m) \<and>
     (msg_total_len m = 0 \<or> unat (msg_total_len m) = sum_list (map (unat \<circ> pk_len) (live_packs m)))"

lemma pack_len_le: "p > (8 * 1024 * 1024 :: u32) \<longleftrightarrow> unat p > 8 * 1024 * 1024"
  by (simp add: word_less_nat_alt)

text \<open>
  With at most 8 packs of at most 8 MiB the second half of the overflow guard is never what
  rejects a message, and the 32-bit sum is the sum of the lengths.
\<close>

lemma validate_packs_Some:
  "validate_packs ps s = Some t \<Longrightarrow>
     list_all pack_ok ps \<and> unat t = unat s + sum_list (map (unat \<circ> pk_len) ps)"
proof (induction ps arbitrary: s)
  case (Cons p ps)
  from Cons.prems have ok: "pack_ok p" and le: "unat s + unat (pk_len p) \<le> 0xffffffff"
    and rec: "validate_packs ps (s + pk_len p) = Some t"
    using pack_len_le [of "pk_len p"]
    by (auto simp: pack_ok_def not_less u32_guard unat_gt_0 split: if_splits)
  with Cons.IH [OF rec] show ?case by (simp add: u32_add)
qed simp

lemma validate_packs_None:
  "list_all pack_ok ps \<Longrightarrow> unat s + 8388608 * length ps \<le> 0xffffffff \<Longrightarrow>
     validate_packs ps s \<noteq> None"
proof (induction ps arbitrary: s)
  case (Cons p ps)
  then have ok: "pack_ok p" and le: "unat (pk_len p) \<le> 8388608" by (simp_all add: pack_ok_def)
  then have fits: "unat s + unat (pk_len p) \<le> 0xffffffff" using Cons.prems by simp
  have "validate_packs ps (s + pk_len p) \<noteq> None"
    using Cons le by (intro Cons.IH) (simp_all add: u32_add [OF fits])
  moreover have "\<not> s > 0xffffffff - pk_len p" using fits u32_guard [of s "pk_len p"] by (simp add: not_less)
  ultimately show ?case
    using ok pack_len_le [of "pk_len p"] by (auto simp: pack_ok_def not_less)
qed simp

lemma validate_packs_iff:
  assumes "length ps \<le> 8"
  shows "validate_packs ps 0 = Some t \<longleftrightarrow>
    list_all pack_ok ps \<and> unat t = sum_list (map (unat \<circ> pk_len) ps)"
proof
  assume "validate_packs ps 0 = Some t"
  from validate_packs_Some [OF this]
  show "list_all pack_ok ps \<and> unat t = sum_list (map (unat \<circ> pk_len) ps)" by simp
next
  assume r: "list_all pack_ok ps \<and> unat t = sum_list (map (unat \<circ> pk_len) ps)"
  then obtain t' where t': "validate_packs ps 0 = Some t'"
    using validate_packs_None [of ps 0] assms by auto
  from validate_packs_Some [OF this] r have "unat t' = unat t" by simp
  then have "t' = t" by (simp add: word_unat_eq_iff)
  with t' show "validate_packs ps 0 = Some t" by simp
qed

lemma msg_valid_iff:
  "nalu_datafifo_validate_msg (Some m) = 0 \<longleftrightarrow> msg_ok m"
proof (cases "1 \<le> unat (msg_pack_cnt m) \<and> unat (msg_pack_cnt m) \<le> 8")
  case cnt: True
  then have c: "\<not> (msg_pack_cnt m = 0 \<or> msg_pack_cnt m > 8)"
    by (auto simp: word_less_nat_alt)
  have len: "length (live_packs m) \<le> 8" using cnt by (auto simp: live_packs_def)
  show ?thesis
  proof (cases "validate_packs (live_packs m) 0")
    case None
    then have "\<not> list_all pack_ok (live_packs m)"
      using validate_packs_None [of "live_packs m" 0] len by auto
    with None show ?thesis
      by (auto simp: nalu_datafifo_validate_msg_def msg_ok_def live_packs_def)
  next
    case (Some t)
    with validate_packs_iff [OF len] have "list_all pack_ok (live_packs m)"
      and sum: "unat t = sum_list (map (unat \<circ> pk_len) (live_packs m))" by auto
    moreover have "msg_total_len m = t \<longleftrightarrow> unat (msg_total_len m) = unat t"
      by (simp add: word_unat_eq_iff)
    ultimately show ?thesis
      using Some cnt c by (auto simp: nalu_datafifo_validate_msg_def msg_ok_def live_packs_def ipc_consts)
  qed
next
  case False
  then have "msg_pack_cnt m = 0 \<or> msg_pack_cnt m > 8"
    by (auto simp: word_less_nat_alt unat_eq_zero not_le)
  with False show ?thesis
    by (auto simp: nalu_datafifo_validate_msg_def msg_ok_def ipc_consts)
qed

text \<open>C16: \<open>nalu_datafifo_validate_msg\<close> accepts a message (returns 0) exactly when the magic and the
  version are right, it has 1 to 8 packs, each with a physical address and a length of 1 byte to
  8 MiB, and the announced total, if any, is the true sum of the lengths (no 32-bit wrap).\<close>

theorem validate_msg_iff:
  "nalu_datafifo_validate_msg (Some m) = 0 \<longleftrightarrow> msg_ok m"
  by (rule msg_valid_iff)

lemma msg_layout:
  assumes "length (msg_packs m) = 8"
  shows "msg_of_item (msg_bytes m @ pad) = m \<and> length (msg_bytes m) = 240"
proof -
  define hd32 where "hd32 = [msg_magic m, msg_version m, msg_chn m, msg_pack_cnt m]"
  define hd64 where "hd64 = [msg_seq m, msg_frame_pts m, msg_submit_time_ms m]"
  define pre where "pre = concat (map le32_bytes hd32) @ concat (map le64_bytes hd64) @
    le32_bytes (msg_total_len m) @ le32_bytes (msg_reserved m)"
  have bytes: "msg_bytes m @ pad = pre @ concat (map pack_bytes (msg_packs m)) @ pad"
    by (simp add: msg_bytes_def pre_def hd32_def hd64_def)
  have len: "length pre = 48" by (simp add: pre_def hd32_def hd64_def)
  have "map (\<lambda>k. pack_at (msg_bytes m @ pad) (48 + 24 * k)) [0..<8] = map ((!) (msg_packs m)) [0..<8]"
    using pack_at_nth [OF _ len, of _ "msg_packs m" pad] assms unfolding bytes by (intro map_cong) auto
  also have "\<dots> = msg_packs m" using map_nth [of "msg_packs m"] assms by simp
  finally have packs: "map (\<lambda>k. pack_at (msg_bytes m @ pad) (48 + 24 * k)) [0..<8] = msg_packs m" .
  have "le32 (msg_bytes m @ pad) 0 = msg_magic m" "le32 (msg_bytes m @ pad) 4 = msg_version m"
    "le32 (msg_bytes m @ pad) 8 = msg_chn m" "le32 (msg_bytes m @ pad) 12 = msg_pack_cnt m"
    using le32_read [of "[]" 0 "msg_magic m"] le32_read [of "le32_bytes (msg_magic m)" 4 "msg_version m"]
      le32_read [of "le32_bytes (msg_magic m) @ le32_bytes (msg_version m)" 8 "msg_chn m"]
      le32_read [of "le32_bytes (msg_magic m) @ le32_bytes (msg_version m) @ le32_bytes (msg_chn m)" 12
        "msg_pack_cnt m"]
    by (simp_all add: msg_bytes_def)
  moreover
  define p16 where "p16 = le32_bytes (msg_magic m) @ le32_bytes (msg_version m) @ le32_bytes (msg_chn m) @
    le32_bytes (msg_pack_cnt m)"
  have "le64 (msg_bytes m @ pad) 16 = msg_seq m" "le64 (msg_bytes m @ pad) 24 = msg_frame_pts m"
    "le64 (msg_bytes m @ pad) 32 = msg_submit_time_ms m"
    using le64_read [of p16 16 "msg_seq m"] le64_read [of "p16 @ le64_bytes (msg_seq m)" 24 "msg_frame_pts m"]
      le64_read [of "p16 @ le64_bytes (msg_seq m) @ le64_bytes (msg_frame_pts m)" 32 "msg_submit_time_ms m"]
    by (simp_all add: msg_bytes_def p16_def)
  moreover
  define p40 where "p40 = p16 @ le64_bytes (msg_seq m) @ le64_bytes (msg_frame_pts m) @
    le64_bytes (msg_submit_time_ms m)"
  have "le32 (msg_bytes m @ pad) 40 = msg_total_len m" "le32 (msg_bytes m @ pad) 44 = msg_reserved m"
    using le32_read [of p40 40 "msg_total_len m"] le32_read [of "p40 @ le32_bytes (msg_total_len m)" 44
        "msg_reserved m"]
    by (simp_all add: msg_bytes_def p40_def p16_def)
  moreover have "length (concat (map pack_bytes ps)) = 24 * length ps" for ps
    by (induction ps) simp_all
  ultimately show ?thesis
    using packs assms by (simp add: msg_of_item_def msg_bytes_def)
qed

text \<open>The fields that the reader finds in a 512-byte item are those the writer put there:
  casting the item that holds the C layout of a message with 8 pack slots gives the message,
  and the layout fits the item.\<close>

theorem msg_of_item_roundtrip:
  assumes "length (msg_packs m) = 8"
  shows "msg_of_item (msg_bytes m @ pad) = m \<and> length (msg_bytes m) = 240"
  by (rule msg_layout [OF assms])

theorem msg_of_item_roundtrip_witness:
  "\<exists>m. msg_pack_cnt m = 1 \<and> msg_of_item (msg_bytes m @ replicate 272 0) = m"
proof -
  let ?p = "\<lparr>pk_phys_addr = 0x12ffa000, pk_pts = 1, pk_len = 9, pk_type = 0\<rparr>"
  let ?m = "\<lparr>msg_magic = 0x4E414C55, msg_version = 1, msg_chn = 0, msg_pack_cnt = 1, msg_seq = 7,
    msg_frame_pts = 1, msg_submit_time_ms = 2, msg_total_len = 9, msg_reserved = 1,
    msg_packs = replicate 8 ?p\<rparr>"
  have "length (msg_packs ?m) = 8" by simp
  from msg_of_item_roundtrip [OF this, of "replicate 272 0"] show ?thesis
    by (intro exI [of _ ?m]) simp
qed

end
