(* ===== verification/Mmap.thy ===== *)
theory Mmap
  imports Ipc_Message
begin

unbundle bit_operations_syntax

text \<open>
  Mapping the physical memory of a pack into the process (\<open>little_sys_mmap\<close>,
  \<open>little_sys_munmap\<close>, \<open>nalu_datafifo_mmap_pack\<close>, \<open>nalu_datafifo_munmap_pack\<close> of
  \<open>src/nalu_datafifo.c\<close>; the branch without \<open>USE_RT_SMART\<close>). The operating system is the
  record \<open>mmap_env\<close> of the answers to its calls, each a function of the number of the call; a
  state of the mapping component is the descriptor \<open>g_datafifo_mem_fd\<close>, the number of calls and
  the live mappings (virtual address, size, physical offset), latest first.
\<close>

section \<open>State and environment\<close>

record mapping =
  map_addr :: u64
  map_size :: u64
  map_phys :: u64

record mmap_state =
  mm_fd :: int
  mm_calls :: nat
  mm_maps :: "mapping list"

text \<open>
  \<open>me_mmap t size offset\<close> is the address that the \<open>t\<close>-th call returns, \<open>None\<close> for
  \<open>MAP_FAILED\<close>; \<open>me_mem\<close> is the content of the physical memory.
\<close>

record mmap_env =
  me_page_size :: int
  me_open :: "nat \<Rightarrow> int"
  me_mmap :: "nat \<Rightarrow> u64 \<Rightarrow> u64 \<Rightarrow> u64 option"
  me_munmap :: "nat \<Rightarrow> u64 \<Rightarrow> u64 \<Rightarrow> int"
  me_mem :: "u64 \<Rightarrow> u8"

section \<open>Operations\<close>

definition page_mask :: "mmap_env \<Rightarrow> u64" where
  "page_mask E = of_int (me_page_size E) - 1"

definition page_offset :: "mmap_env \<Rightarrow> u64 \<Rightarrow> u64" where
  "page_offset E phys_addr = phys_addr AND page_mask E"

definition mmap_size :: "mmap_env \<Rightarrow> u64 \<Rightarrow> u32 \<Rightarrow> u64" where
  "mmap_size E phys_addr len =
     (ucast len + page_offset E phys_addr + page_mask E) AND NOT (page_mask E)"

text \<open>Opening \<open>/dev/mem\<close> once: the descriptor is kept in \<open>g_datafifo_mem_fd\<close>.\<close>

definition ensure_mem_fd :: "mmap_env \<Rightarrow> mmap_state \<Rightarrow> mmap_state" where
  "ensure_mem_fd E s =
     (if mm_fd s < 0 then s\<lparr>mm_fd := me_open E (mm_calls s), mm_calls := mm_calls s + 1\<rparr> else s)"

definition little_sys_mmap :: "mmap_env \<Rightarrow> u64 \<Rightarrow> u32 \<Rightarrow> mmap_state \<Rightarrow> u64 option \<times> mmap_state" where
  "little_sys_mmap E phys_addr len s =
     (if len = 0 then (None, s)
      else if me_page_size E \<le> 0 then (None, s)
      else
        let sz = mmap_size E phys_addr len;
            offset = phys_addr AND NOT (page_mask E);
            s1 = ensure_mem_fd E s
        in if mm_fd s1 < 0 then (None, s1)
           else case me_mmap E (mm_calls s1) sz offset of
             None \<Rightarrow> (None, s1\<lparr>mm_calls := mm_calls s1 + 1\<rparr>)
           | Some mmap_addr \<Rightarrow>
               (Some (mmap_addr + page_offset E phys_addr),
                s1\<lparr>mm_calls := mm_calls s1 + 1,
                   mm_maps := \<lparr>map_addr = mmap_addr, map_size = sz, map_phys = offset\<rparr> # mm_maps s1\<rparr>))"

text \<open>
  \<open>munmap\<close> releases the mapping with that address and size; \<open>virt_addr\<close> is the pointer, NULL
  being 0.
\<close>

definition unmap_region :: "u64 \<Rightarrow> u64 \<Rightarrow> mapping list \<Rightarrow> mapping list" where
  "unmap_region addr sz ms = filter (\<lambda>m. \<not> (map_addr m = addr \<and> map_size m = sz)) ms"

definition little_sys_munmap :: "mmap_env \<Rightarrow> u64 \<Rightarrow> u64 \<Rightarrow> u32 \<Rightarrow> mmap_state \<Rightarrow> int \<times> mmap_state" where
  "little_sys_munmap E phys_addr virt_addr len s =
     (if virt_addr = 0 \<or> len = 0 then (-1, s)
      else if me_page_size E \<le> 0 then (-1, s)
      else
        let sz = mmap_size E phys_addr len;
            mmap_addr = virt_addr - page_offset E phys_addr;
            s1 = s\<lparr>mm_calls := mm_calls s + 1\<rparr>
        in if me_munmap E (mm_calls s) mmap_addr sz \<noteq> 0 then (-1, s1)
           else (0, s1\<lparr>mm_maps := unmap_region mmap_addr sz (mm_maps s1)\<rparr>))"

definition little_sys_close_mmap_fd :: "mmap_state \<Rightarrow> mmap_state" where
  "little_sys_close_mmap_fd s = (if mm_fd s \<ge> 0 then s\<lparr>mm_fd := -1\<rparr> else s)"

definition nalu_datafifo_mmap_pack ::
    "mmap_env \<Rightarrow> ipc_pack option \<Rightarrow> mmap_state \<Rightarrow> u64 option \<times> mmap_state" where
  "nalu_datafifo_mmap_pack E packp s =
     (case packp of
        None \<Rightarrow> (None, s)
      | Some pack \<Rightarrow>
          if pk_phys_addr pack = 0 \<or> pk_len pack = 0 then (None, s)
          else case little_sys_mmap E (pk_phys_addr pack) (pk_len pack) s of
            (None, s') \<Rightarrow> (None, s')
          | (Some virt_addr, s') \<Rightarrow> (if virt_addr = 0 then None else Some virt_addr, s'))"

definition nalu_datafifo_munmap_pack ::
    "mmap_env \<Rightarrow> ipc_pack option \<Rightarrow> u64 \<Rightarrow> mmap_state \<Rightarrow> int \<times> mmap_state" where
  "nalu_datafifo_munmap_pack E packp virt_addr s =
     (case packp of
        None \<Rightarrow> (-1, s)
      | Some pack \<Rightarrow>
          if virt_addr = 0 \<or> pk_len pack = 0 then (-1, s)
          else case little_sys_munmap E (pk_phys_addr pack) virt_addr (pk_len pack) s of
            (ret, s') \<Rightarrow> (if ret \<noteq> 0 then -1 else 0, s'))"

section \<open>Reading through a mapping\<close>

text \<open>
  A load from the virtual address \<open>v\<close>: the byte of the first mapping that contains it, \<open>None\<close>
  (a fault) when none does.
\<close>

definition in_mapping :: "u64 \<Rightarrow> mapping \<Rightarrow> bool" where
  "in_mapping v m \<longleftrightarrow> unat (v - map_addr m) < unat (map_size m)"

definition vm_load :: "mmap_env \<Rightarrow> mmap_state \<Rightarrow> u64 \<Rightarrow> u8 option" where
  "vm_load E s v =
     map_option (\<lambda>m. me_mem E (map_phys m + (v - map_addr m))) (find (in_mapping v) (mm_maps s))"

definition vm_bytes :: "mmap_env \<Rightarrow> mmap_state \<Rightarrow> u64 \<Rightarrow> nat \<Rightarrow> bytes option" where
  "vm_bytes E s v n = those (map (\<lambda>k. vm_load E s (v + of_nat k)) [0..<n])"

text \<open>The bytes of a pack in the physical memory.\<close>

definition phys_bytes :: "mmap_env \<Rightarrow> ipc_pack \<Rightarrow> bytes" where
  "phys_bytes E p = map (\<lambda>k. me_mem E (pk_phys_addr p + of_nat k)) [0..<unat (pk_len p)]"

text \<open>
  Documented behaviour of the operating system that the arithmetic relies on: the page size is
  a power of two, far below \<open>2 ^ 32\<close> bytes.
\<close>

definition page_size_ok :: "mmap_env \<Rightarrow> bool" where
  "page_size_ok E \<longleftrightarrow> (\<exists>k \<le> 31. me_page_size E = 2 ^ k)"

lemma page_mask_eq: "page_size_ok E \<Longrightarrow> \<exists>k \<le> 31. page_mask E = mask k \<and> 0 < me_page_size E"
  by (auto simp: page_size_ok_def page_mask_def mask_eq_exp_minus_1)

lemma mask_parts:
  fixes x :: u64
  shows "(x AND mask k) + (x AND NOT (mask k)) = x"
proof -
  have "(x AND mask k) + (x AND NOT (mask k)) = (x AND mask k) OR (x AND NOT (mask k))"
    by (rule disjunctive_add) (auto simp: bit_simps)
  also have "\<dots> = x"
    by (rule bit_word_eqI) (auto simp: bit_simps)
  finally show ?thesis .
qed

lemma unat_and_mask: "unat (x AND mask k :: u64) = unat x mod 2 ^ k"
proof -
  have "x AND mask k = take_bit k x" by (rule take_bit_eq_mask [symmetric])
  then have "unat (x AND mask k) = take_bit k (unat x)" by (simp only: unsigned_take_bit_eq)
  then show ?thesis by (simp only: take_bit_eq_mod)
qed

lemma unat_and_not_mask: "unat (x AND NOT (mask k) :: u64) = unat x - unat x mod 2 ^ k"
proof -
  have "x AND NOT (mask k) = x - (x AND mask k)"
    using mask_parts [of x k] by (simp add: algebra_simps)
  moreover have "(x AND mask k) \<le> x"
    by (simp add: word_le_nat_alt unat_and_mask)
  ultimately show ?thesis by (simp add: unat_sub unat_and_mask)
qed

text \<open>The mapped region reaches at least to the end of the pack.\<close>

lemma mmap_size_covers:
  assumes "page_size_ok E"
  shows "unat (page_offset E phys) + unat len \<le> unat (mmap_size E phys len)"
proof -
  obtain k where k: "k \<le> 31" "page_mask E = mask k" using page_mask_eq [OF assms] by blast
  let ?o = "unat (page_offset E phys)" and ?m = "2 ^ k - 1 :: nat"
  have pos: "0 < (2 :: nat) ^ k" by simp
  have pow: "(2 :: nat) ^ k \<le> 2 ^ 31" using k(1) by (rule power_increasing) simp
  have o: "?o \<le> ?m" using mod_less_divisor [OF pos, of "unat phys"]
    unfolding page_offset_def k(2) unat_and_mask by linarith
  have "unat (of_nat (mask k) :: u64) = mask k"
    using pow by (simp only: unat_of_nat) (simp add: mask_eq_exp_minus_1)
  then have m: "unat (page_mask E) = ?m" by (simp add: k(2) mask_eq_exp_minus_1)
  have s: "unat (ucast len :: u64) = unat len" using u32_bound [of len] by (simp add: unsigned_ucast_eq take_bit_nat_eq_self_iff)
  have "unat (ucast len + page_offset E phys + page_mask E) = unat len + ?o + ?m"
    using o m s u32_bound [of len] pow by (simp add: unat_word_ariths)
  then have "unat (mmap_size E phys len) =
      (unat len + ?o + ?m) - (unat len + ?o + ?m) mod 2 ^ k"
    unfolding mmap_size_def k(2) unat_and_not_mask by simp
  moreover have "(unat len + ?o + ?m) mod 2 ^ k \<le> ?m"
    using mod_less_divisor [OF pos, of "unat len + ?o + ?m"] by linarith
  ultimately show ?thesis by linarith
qed


section \<open>The contract of a pack mapper\<close>

text \<open>
  What the users of a mapper rely on: a mapped pack reads as the bytes of the pack, and mapping
  followed by a successful unmapping leaves the live mappings as they were. \<open>ok\<close> collects the
  assumptions on the operating system, \<open>fresh s\<close> says that the addresses it hands out from \<open>s\<close> on
  are not in use.
\<close>

locale pack_mapper =
  fixes mmap :: "ipc_pack option \<Rightarrow> 's \<Rightarrow> u64 option \<times> 's"
    and munmap :: "ipc_pack option \<Rightarrow> u64 \<Rightarrow> 's \<Rightarrow> int \<times> 's"
    and load :: "'s \<Rightarrow> u64 \<Rightarrow> nat \<Rightarrow> bytes option"
    and live :: "'s \<Rightarrow> 'm list"
    and content :: "ipc_pack \<Rightarrow> bytes"
    and ok :: bool and fresh :: "'s \<Rightarrow> bool"
  assumes mmap_reads: "ok \<Longrightarrow> mmap (Some p) s = (Some v, s') \<Longrightarrow>
      load s' v (unat (pk_len p)) = Some (content p)"
    and mmap_fails: "mmap packp s = (None, s') \<Longrightarrow> ok \<Longrightarrow> fresh s \<Longrightarrow> live s' = live s"
    and mmap_munmap: "ok \<Longrightarrow> fresh s \<Longrightarrow> mmap (Some p) s = (Some v, s1) \<Longrightarrow>
      munmap (Some p) v s1 = (0, s2) \<Longrightarrow> live s2 = live s"
begin

text \<open>A client that maps a pack, works on its bytes and unmaps it again.\<close>

lemma mapped_work:
  assumes "ok" and "fresh s" and "mmap (Some p) s = (Some v, s1)"
  shows "load s1 v (unat (pk_len p)) = Some (content p) \<and>
    (fst (munmap (Some p) v s1) = 0 \<longrightarrow> live (snd (munmap (Some p) v s1)) = live s)"
  using mmap_reads [OF assms(1,3)] mmap_munmap [OF assms]
  by (cases "munmap (Some p) v s1") auto

end

text \<open>
  The addresses the kernel will hand out are page-aligned, not NULL and not those of a live mapping.
\<close>

definition maps_fresh :: "mmap_env \<Rightarrow> mmap_state \<Rightarrow> bool" where
  "maps_fresh E s \<longleftrightarrow> (\<forall>t sz off. case me_mmap E t sz off of
      None \<Rightarrow> True
    | Some a \<Rightarrow> a \<noteq> 0 \<and> a AND page_mask E = 0 \<and> a \<notin> map_addr ` set (mm_maps s))"

text \<open>Freshness depends on the live mappings only.\<close>

lemma maps_fresh_cong: "mm_maps s' = mm_maps s \<Longrightarrow> maps_fresh E s \<Longrightarrow> maps_fresh E s'"
  unfolding maps_fresh_def by (rule ssubst [of "mm_maps s'" "mm_maps s"])

lemma ensure_mem_fd_maps [simp]: "mm_maps (ensure_mem_fd E s) = mm_maps s"
  by (simp add: ensure_mem_fd_def)

lemma mmap_pack_Some:
  assumes "nalu_datafifo_mmap_pack E (Some p) s = (Some v, s')"
  obtains a where "v = a + page_offset E (pk_phys_addr p)" and "v \<noteq> 0" and "pk_len p \<noteq> 0"
    and "0 < me_page_size E"
    and "mm_maps s' = \<lparr>map_addr = a, map_size = mmap_size E (pk_phys_addr p) (pk_len p),
           map_phys = pk_phys_addr p AND NOT (page_mask E)\<rparr> # mm_maps s"
    and "\<exists>t sz off. me_mmap E t sz off = Some a"
  using assms
  by (auto simp: nalu_datafifo_mmap_pack_def little_sys_mmap_def Let_def
      split: if_splits option.splits prod.splits) blast

lemma mapped_not_null:
  fixes a :: u64
  assumes "a AND mask k = 0" and "a + (x AND mask k) = 0"
  shows "a = 0"
proof -
  have "a + (x AND mask k) = a OR (x AND mask k)"
  proof (rule disjunctive_add)
    fix n
    have "\<not> bit (a AND mask k) n" using assms(1) by simp
    then show "\<not> bit a n \<or> \<not> bit (x AND mask k) n" by (auto simp: bit_simps)
  qed
  with assms(2) show ?thesis by (simp add: or_eq_0_iff)
qed

lemma mmap_pack_None:
  assumes "nalu_datafifo_mmap_pack E packp s = (None, s')" and "page_size_ok E" and "maps_fresh E s"
  shows "mm_maps s' = mm_maps s"
proof (cases packp)
  case (Some p)
  obtain k where k: "page_mask E = mask k" using page_mask_eq [OF assms(2)] by blast
  have "a + page_offset E (pk_phys_addr p) \<noteq> 0" if "me_mmap E t sz off = Some a" for a t sz off
  proof -
    have "a AND mask k = 0" and "a \<noteq> 0"
      using assms(3) that k by (fastforce simp: maps_fresh_def split: option.splits)+
    then show ?thesis using mapped_not_null [of a k "pk_phys_addr p"] by (auto simp: page_offset_def k)
  qed
  with Some assms(1) show ?thesis
    by (auto simp: nalu_datafifo_mmap_pack_def little_sys_mmap_def Let_def
        split: if_splits option.splits prod.splits)
qed (use assms in \<open>simp add: nalu_datafifo_mmap_pack_def\<close>)

lemma those_map_Some: "(\<And>x. x \<in> set xs \<Longrightarrow> f x = Some (g x)) \<Longrightarrow> those (map f xs) = Some (map g xs)"
  by (induction xs) auto

lemma mapped_pack_bytes:
  assumes ok: "page_size_ok E" and m: "nalu_datafifo_mmap_pack E (Some p) s = (Some v, s')"
  shows "vm_bytes E s' v (unat (pk_len p)) = Some (phys_bytes E p)"
  unfolding vm_bytes_def phys_bytes_def
proof (rule those_map_Some)
  fix k
  assume "k \<in> set [0..<unat (pk_len p)]"
  then have k: "k < unat (pk_len p)" by simp
  obtain a where v: "v = a + page_offset E (pk_phys_addr p)"
    and maps: "mm_maps s' = \<lparr>map_addr = a, map_size = mmap_size E (pk_phys_addr p) (pk_len p),
           map_phys = pk_phys_addr p AND NOT (page_mask E)\<rparr> # mm_maps s"
    by (rule mmap_pack_Some [OF m])
  let ?o = "page_offset E (pk_phys_addr p)"
  have d: "v + of_nat k - a = ?o + of_nat k" using v by simp
  have "unat ?o + k < unat (mmap_size E (pk_phys_addr p) (pk_len p))"
    using mmap_size_covers [OF ok, of "pk_phys_addr p" "pk_len p"] k by simp
  moreover from this unsigned_less [of "mmap_size E (pk_phys_addr p) (pk_len p)", where 'a = nat]
  have "unat (?o + of_nat k) = unat ?o + k"
    by (simp add: unat_word_ariths unat_of_nat mod_simps)
  ultimately have "in_mapping (v + of_nat k) (hd (mm_maps s'))"
    by (simp add: in_mapping_def maps d)
  moreover obtain j where "page_mask E = mask j" using page_mask_eq [OF ok] by blast
  then have "(pk_phys_addr p AND NOT (page_mask E)) + (?o + of_nat k) = pk_phys_addr p + of_nat k"
    using mask_parts [of "pk_phys_addr p" j] by (simp add: page_offset_def algebra_simps)
  ultimately show "vm_load E s' (v + of_nat k) = Some (me_mem E (pk_phys_addr p + of_nat k))"
    by (simp add: vm_load_def maps d flip: add.assoc)
qed

lemma unmap_fresh:
  "a \<notin> map_addr ` set ms \<Longrightarrow> unmap_region a sz ms = ms"
  by (auto simp: unmap_region_def filter_id_conv)

lemma mapped_pack_released:
  assumes "maps_fresh E s" and m: "nalu_datafifo_mmap_pack E (Some p) s = (Some v, s1)"
    and u: "nalu_datafifo_munmap_pack E (Some p) v s1 = (0, s2)"
  shows "mm_maps s2 = mm_maps s"
proof -
  obtain a where v: "v = a + page_offset E (pk_phys_addr p)"
    and maps: "mm_maps s1 = \<lparr>map_addr = a, map_size = mmap_size E (pk_phys_addr p) (pk_len p),
           map_phys = pk_phys_addr p AND NOT (page_mask E)\<rparr> # mm_maps s"
    and "\<exists>t sz off. me_mmap E t sz off = Some a"
    by (rule mmap_pack_Some [OF m])
  with assms(1) have fr: "a \<notin> map_addr ` set (mm_maps s)"
    by (fastforce simp: maps_fresh_def split: option.splits)
  from u v have "mm_maps s2 = unmap_region a (mmap_size E (pk_phys_addr p) (pk_len p)) (mm_maps s1)"
    by (auto simp: nalu_datafifo_munmap_pack_def little_sys_munmap_def Let_def split: if_splits prod.splits)
  with maps unmap_fresh [OF fr] show ?thesis by (simp add: unmap_region_def)
qed


interpretation devmem: pack_mapper "nalu_datafifo_mmap_pack E" "nalu_datafifo_munmap_pack E"
    "vm_bytes E" mm_maps "phys_bytes E" "page_size_ok E" "maps_fresh E"
  for E
  by unfold_locales (auto intro: mapped_pack_bytes mapped_pack_released mmap_pack_None)

text \<open>
  An operating system that answers every request: the live senders below need it, the safety
  properties do not.
\<close>

definition munmap_accepts :: "mmap_env \<Rightarrow> bool" where
  "munmap_accepts E \<longleftrightarrow> (\<forall>t addr sz. me_munmap E t addr sz = 0)"

definition mmap_accepts :: "mmap_env \<Rightarrow> mmap_state \<Rightarrow> bool" where
  "mmap_accepts E s \<longleftrightarrow>
     (\<forall>t sz off. me_mmap E t sz off \<noteq> None) \<and> (0 \<le> mm_fd s \<or> 0 \<le> me_open E (mm_calls s))"

lemma munmap_of_mapped:
  assumes "nalu_datafifo_mmap_pack E (Some p) s = (Some v, s1)" and "munmap_accepts E"
    and "nalu_datafifo_munmap_pack E (Some p) v s1 = (r, s2)"
  shows "r = 0"
  by (rule mmap_pack_Some [OF assms(1)])
    (use assms(2,3) in \<open>auto simp: munmap_accepts_def nalu_datafifo_munmap_pack_def little_sys_munmap_def Let_def
       split: if_splits\<close>)

lemma mmap_pack_live:
  assumes "page_size_ok E" and "maps_fresh E s" and "mmap_accepts E s"
    and "pk_phys_addr p \<noteq> 0" and "pk_len p \<noteq> 0"
  shows "\<exists>v s1. nalu_datafifo_mmap_pack E (Some p) s = (Some v, s1)"
proof -
  obtain k where k: "page_mask E = mask k" and pos: "0 < me_page_size E"
    using page_mask_eq [OF assms(1)] by blast
  have fd: "\<not> mm_fd (ensure_mem_fd E s) < 0"
    using assms(3) by (auto simp: ensure_mem_fd_def mmap_accepts_def)
  obtain a where a: "me_mmap E (mm_calls (ensure_mem_fd E s)) (mmap_size E (pk_phys_addr p) (pk_len p))
      (pk_phys_addr p AND NOT (page_mask E)) = Some a"
    using assms(3) by (metis mmap_accepts_def not_None_eq)
  then have "a \<noteq> 0" and "a AND mask k = 0"
    using assms(2) k by (fastforce simp: maps_fresh_def split: option.splits)+
  then have "a + page_offset E (pk_phys_addr p) \<noteq> 0"
    using mapped_not_null [of a k "pk_phys_addr p"] by (auto simp: page_offset_def k)
  with a fd pos assms(4,5) show ?thesis
    by (simp add: nalu_datafifo_mmap_pack_def little_sys_mmap_def Let_def)
qed

section \<open>Properties\<close>

text \<open>C15: Page arithmetic: whatever the alignment of the physical address, reading \<open>len\<close> bytes
  through the pointer that \<open>nalu_datafifo_mmap_pack\<close> returns stays inside the mapping and
  yields exactly the bytes at \<open>phys_addr .. phys_addr + len - 1\<close> of the physical memory; and when
  the pack is unmapped again without error, the process has the mappings it had before.\<close>

theorem mmap_pack_correct:
  assumes "page_size_ok E" and "maps_fresh E s"
    and "nalu_datafifo_mmap_pack E (Some p) s = (Some v, s1)"
  shows "vm_bytes E s1 v (unat (pk_len p)) = Some (phys_bytes E p) \<and>
    (fst (nalu_datafifo_munmap_pack E (Some p) v s1) = 0 \<longrightarrow>
       mm_maps (snd (nalu_datafifo_munmap_pack E (Some p) v s1)) = mm_maps s)"
  by (rule devmem.mapped_work [OF assms])

text \<open>A machine with 4 KiB pages, as on the board, for the witnesses.\<close>

definition demo_mmap_env :: "(u64 \<Rightarrow> u8) \<Rightarrow> mmap_env" where
  "demo_mmap_env mem = \<lparr>me_page_size = 4096, me_open = (\<lambda>_. 3),
     me_mmap = (\<lambda>_ _ _. Some 0x3fa0000000), me_munmap = (\<lambda>_ _ _. 0), me_mem = mem\<rparr>"

definition no_maps :: mmap_state where
  "no_maps = \<lparr>mm_fd = -1, mm_calls = 0, mm_maps = []\<rparr>"

lemma demo_mmap_env_ok: "page_size_ok (demo_mmap_env mem)" "maps_fresh (demo_mmap_env mem) no_maps"
proof -
  show "page_size_ok (demo_mmap_env mem)"
    by (auto simp: page_size_ok_def demo_mmap_env_def intro!: exI [of _ 12])
  show "maps_fresh (demo_mmap_env mem) no_maps"
    by (simp add: maps_fresh_def demo_mmap_env_def no_maps_def page_mask_def)
qed

theorem mmap_pack_correct_witness:
  "\<exists>v s1. nalu_datafifo_mmap_pack (demo_mmap_env (\<lambda>a. ucast a))
      (Some \<lparr>pk_phys_addr = 0x12ffaff3, pk_pts = 0, pk_len = 40, pk_type = 0\<rparr>) no_maps = (Some v, s1) \<and>
    v = 0x3fa0000ff3 \<and>
    vm_bytes (demo_mmap_env (\<lambda>a. ucast a)) s1 v 40 =
      Some (phys_bytes (demo_mmap_env (\<lambda>a. ucast a))
        \<lparr>pk_phys_addr = 0x12ffaff3, pk_pts = 0, pk_len = 40, pk_type = 0\<rparr>)"
proof -
  let ?E = "demo_mmap_env (\<lambda>a. ucast a)"
  let ?p = "\<lparr>pk_phys_addr = 0x12ffaff3, pk_pts = 0, pk_len = 40, pk_type = 0\<rparr>"
  obtain v s1 where m: "nalu_datafifo_mmap_pack ?E (Some ?p) no_maps = (Some v, s1)" and v: "v = 0x3fa0000ff3"
    by (simp add: nalu_datafifo_mmap_pack_def little_sys_mmap_def ensure_mem_fd_def Let_def
        demo_mmap_env_def no_maps_def page_offset_def page_mask_def)
  from mmap_pack_correct [OF demo_mmap_env_ok m] m v show ?thesis by auto
qed

end
