(* ===== verification/Rtp_Buffer.thy ===== *)
theory Rtp_Buffer
  imports Rtp Mmap
begin

text \<open>
  Sending a whole buffer (\<open>send_h265_buffer_rtp\<close> of \<open>src/rtp.c\<close>), which may be one raw NALU or
  several NALUs behind start codes, and sending a pack of a message (\<open>send_datafifo_pack\<close>):
  map it, send its bytes, unmap it.
\<close>

section \<open>Operations\<close>

text \<open>The \<open>while (1)\<close> loop of \<open>send_h265_buffer_rtp\<close>.\<close>

function send_buffer_loop ::
    "net_env \<Rightarrow> sockaddr_in \<Rightarrow> u32 \<Rightarrow> u32 \<Rightarrow> bytes \<Rightarrow> u8 \<Rightarrow> nat \<Rightarrow> nat \<Rightarrow> u16 \<Rightarrow> udp \<Rightarrow> int \<times> u16 \<times> udp" where
  "send_buffer_loop N dest timestamp ssrc buf last_marker search_offset sent_count seq u =
     (case next_nalu find_start_code buf search_offset of
        None \<Rightarrow> (if sent_count > 0 then 0 else -1, seq, u)
      | Some (nalu_start, nalu_end, next_sc_pos) \<Rightarrow>
          if nalu_end > nalu_start then
            case send_h265_nalu_rtp N dest timestamp ssrc (Some (bslice buf nalu_start nalu_end))
                   (if next_sc_pos = None then last_marker else 0) seq u of
              (r, seq', u') \<Rightarrow>
                if r \<noteq> 0 then (-1, seq', u')
                else (case next_sc_pos of
                        None \<Rightarrow> (if sent_count + 1 > 0 then 0 else -1, seq', u')
                      | Some q \<Rightarrow> send_buffer_loop N dest timestamp ssrc buf last_marker q (sent_count + 1) seq' u')
          else (case next_sc_pos of
                  None \<Rightarrow> (if sent_count > 0 then 0 else -1, seq, u)
                | Some q \<Rightarrow> send_buffer_loop N dest timestamp ssrc buf last_marker q sent_count seq u))"
  by pat_completeness auto
termination
  by (relation "measure (\<lambda>(N, dest, ts, ssrc, buf, m, off, _). length buf - off)")
    (use rtp_next_nalu_Some(5) in \<open>fastforce+\<close>)

declare send_buffer_loop.simps [simp del]

definition send_h265_buffer_rtp ::
    "net_env \<Rightarrow> sockaddr_in \<Rightarrow> u32 \<Rightarrow> u32 \<Rightarrow> bytes option \<Rightarrow> u8 \<Rightarrow> u16 \<Rightarrow> udp \<Rightarrow> int \<times> u16 \<times> udp" where
  "send_h265_buffer_rtp N dest timestamp ssrc bufp last_marker seq u =
     (case bufp of
        None \<Rightarrow> (-1, seq, u)
      | Some buf \<Rightarrow>
          if length buf < 2 then (-1, seq, u)
          else if buffer_starts_with_start_code (Some buf) = None
          then send_h265_nalu_rtp N dest timestamp ssrc (Some buf) last_marker seq u
          else send_buffer_loop N dest timestamp ssrc buf last_marker 0 0 seq u)"

text \<open>
  The bytes behind \<open>virt_addr\<close> are what a load through the mapping yields; \<open>vm_bytes\<close> is
  \<open>None\<close> when one of the addresses is outside every mapping, which \<open>mmap_pack_correct\<close> excludes.
\<close>

definition send_datafifo_pack ::
    "mmap_env \<Rightarrow> net_env \<Rightarrow> sockaddr_in \<Rightarrow> u32 \<Rightarrow> u32 \<Rightarrow> ipc_pack option \<Rightarrow> u8 \<Rightarrow> u16 \<Rightarrow> udp \<Rightarrow> mmap_state
     \<Rightarrow> int \<times> u16 \<times> udp \<times> mmap_state" where
  "send_datafifo_pack E N dest timestamp ssrc packp marker seq u s =
     (case nalu_datafifo_mmap_pack E packp s of
        (None, s1) \<Rightarrow> (-1, seq, u, s1)
      | (Some virt_addr, s1) \<Rightarrow>
          let len = (case packp of None \<Rightarrow> 0 | Some pack \<Rightarrow> unat (pk_len pack)) in
          case send_h265_buffer_rtp N dest timestamp ssrc (vm_bytes E s1 virt_addr len) marker seq u of
            (ret, seq', u') \<Rightarrow>
              (case nalu_datafifo_munmap_pack E packp virt_addr s1 of
                 (munmap_ret, s2) \<Rightarrow>
                   (if munmap_ret \<noteq> 0 \<and> ret = 0 then -1 else ret, seq', u', s2)))"

section \<open>The buffer loop sends the units\<close>

text \<open>The NALUs of a buffer with the marker each is sent with.\<close>

definition marked_units :: "bytes \<Rightarrow> nat \<Rightarrow> u8 \<Rightarrow> (bytes option \<times> u8) list" where
  "marked_units buf off m = map (\<lambda>(n, l). (Some n, if l then m else 0)) (annexb_units buf off)"

definition buffer_nalus :: "bytes option \<Rightarrow> u8 \<Rightarrow> (bytes option \<times> u8) list" where
  "buffer_nalus bufp m =
     (case bufp of
        None \<Rightarrow> []
      | Some buf \<Rightarrow>
          if length buf < 2 then []
          else if sc_at buf 0 3 \<or> sc_at buf 0 4 then marked_units buf 0 m
          else [(Some buf, m)])"

definition buffer_plan :: "bytes option \<Rightarrow> u8 \<Rightarrow> (bytes \<times> u8) list" where
  "buffer_plan bufp m = concat (map (\<lambda>(n, k). nalu_plan n k) (buffer_nalus bufp m))"

lemma marked_units_None:
  "next_nalu find_start_code buf off = None \<Longrightarrow> marked_units buf off m = []"
  by (simp add: marked_units_def annexb_units.simps [of buf off])

lemma marked_units_Some:
  "next_nalu find_start_code buf off = Some (st, e, nx) \<Longrightarrow>
     marked_units buf off m =
       (if e > st then [(Some (bslice buf st e), if nx = None then m else 0)] else []) @
       (case nx of None \<Rightarrow> [] | Some q \<Rightarrow> marked_units buf q m)"
  by (simp add: marked_units_def annexb_units.simps [of buf off] split: option.splits)

lemma send_buffer_loop_eq:
  "send_buffer_loop N dest ts ssrc buf m off c q u =
     (case send_each (send_h265_nalu_rtp N dest ts ssrc) (marked_units buf off m) q u of
        (r, q', u') \<Rightarrow> (if r \<noteq> 0 \<or> c + length (marked_units buf off m) = 0 then -1 else 0, q', u'))"
proof (induction N dest ts ssrc buf m off c q u rule: send_buffer_loop.induct)
  case (1 N dest ts ssrc buf m off c q u)
  note eq = send_buffer_loop.simps [of N dest ts ssrc buf m off c q u]
  show ?case
  proof (cases "next_nalu find_start_code buf off")
    case None
    with eq show ?thesis by (simp add: marked_units_None)
  next
    case (Some x)
    then obtain st e nx where x: "next_nalu find_start_code buf off = Some (st, e, nx)"
      by (cases x) auto
    obtain r1 q1 u1 where s: "send_h265_nalu_rtp N dest ts ssrc (Some (bslice buf st e))
        (if nx = None then m else 0) q u = (r1, q1, u1)"
      by (metis prod_cases3)
    show ?thesis
    proof (cases nx)
      case None
      with eq x s show ?thesis by (auto simp: marked_units_Some)
    next
      case (Some p)
      note IH = "1.IH" [OF x refl refl]
      show ?thesis
      proof (cases "st < e")
        case True
        with IH(1) [OF True s [symmetric] refl _ Some] eq x s Some show ?thesis
          by (auto simp: marked_units_Some [OF x] split: prod.splits)
      next
        case False
        with IH(2) [OF False Some] eq x Some show ?thesis by (simp add: marked_units_Some [OF x])
      qed
    qed
  qed
qed

text \<open>Every sending routine returns 0 or \<open>-1\<close>.\<close>

lemma send_each_ret: "fst (send_each f xs q u) = 0 \<or> fst (send_each f xs q u) = -1"
proof (induction xs arbitrary: q u)
  case (Cons xm xs)
  obtain x m where xm: "xm = (x, m)" by (cases xm)
  obtain r1 q1 u1 where "f x m q u = (r1, q1, u1)" by (metis prod_cases3)
  with Cons.IH [of q1 u1] xm show ?case by simp
qed simp

lemma send_h265_nalu_rtp_ret:
  "send_h265_nalu_rtp N dest ts ssrc nalup m q u = (r, q', u') \<Longrightarrow> r = 0 \<or> r = -1"
  using send_each_ret [of "send_rtp_packet N dest ts ssrc"]
  by (auto simp: send_h265_nalu_rtp_def send_rtp_packet_def send_fu_loop_eq
      split: option.splits if_splits prod.splits) (metis fst_conv)+

lemma send_h265_buffer_rtp_eq:
  "send_h265_buffer_rtp N dest ts ssrc bufp m q u =
     (case send_each (send_h265_nalu_rtp N dest ts ssrc) (buffer_nalus bufp m) q u of
        (r, q', u') \<Rightarrow> (if r \<noteq> 0 \<or> buffer_nalus bufp m = [] then -1 else 0, q', u'))"
proof (cases bufp)
  case (Some buf)
  have sc: "buffer_starts_with_start_code (Some buf) = None \<longleftrightarrow> \<not> (sc_at buf 0 3 \<or> sc_at buf 0 4)"
    using buffer_starts_with_start_code_iff [of "Some buf"] sc_at_cases [of buf 0]
    by (cases "buffer_starts_with_start_code (Some buf)") auto
  obtain r1 q1 u1 where s: "send_h265_nalu_rtp N dest ts ssrc (Some buf) m q u = (r1, q1, u1)"
    by (metis prod_cases3)
  from send_h265_nalu_rtp_ret [OF s] sc s Some show ?thesis
    by (auto simp: send_h265_buffer_rtp_def buffer_nalus_def send_buffer_loop_eq)
qed (simp add: send_h265_buffer_rtp_def buffer_nalus_def)

lemma send_h265_buffer_rtp_emits:
  assumes "send_h265_buffer_rtp N dest ts ssrc bufp m q u = (r, q', u')"
  shows "emitted dest ts ssrc (buffer_plan bufp m) q u r q' u'"
proof -
  obtain r1 q1 u1 where s: "send_each (send_h265_nalu_rtp N dest ts ssrc) (buffer_nalus bufp m) q u = (r1, q1, u1)"
    by (metis prod_cases3)
  with assms have "q1 = q'" "u1 = u'" "r = 0 \<longrightarrow> r1 = 0"
    by (auto simp: send_h265_buffer_rtp_eq split: if_splits)
  with nalu.send_each_emits [OF s] show ?thesis
    by (auto simp: buffer_plan_def emitted_def)
qed

definition sendable_buffer :: "bytes option \<Rightarrow> bool" where
  "sendable_buffer bufp \<longleftrightarrow> buffer_nalus bufp 0 \<noteq> [] \<and>
     list_all (\<lambda>n. \<exists>b. n = Some b \<and> 2 \<le> length b) (map fst (buffer_nalus bufp 0))"

lemma buffer_nalus_fst: "map fst (buffer_nalus bufp m) = map fst (buffer_nalus bufp 0)"
  by (auto simp: buffer_nalus_def marked_units_def split: option.splits)

lemma sendable_buffer_any:
  assumes "sendable_buffer bufp"
  shows "buffer_nalus bufp m \<noteq> []"
    and "\<forall>(n, k) \<in> set (buffer_nalus bufp m). \<exists>b. n = Some b \<and> 2 \<le> length b"
proof -
  from assms buffer_nalus_fst [of bufp m] show "buffer_nalus bufp m \<noteq> []"
    by (metis sendable_buffer_def map_is_Nil_conv)
  from assms buffer_nalus_fst [of bufp m]
  have "\<forall>n \<in> set (map fst (buffer_nalus bufp m)). \<exists>b. n = Some b \<and> 2 \<le> length b"
    unfolding sendable_buffer_def list_all_iff by simp
  then show "\<forall>(n, k) \<in> set (buffer_nalus bufp m). \<exists>b. n = Some b \<and> 2 \<le> length b"
    by fastforce
qed

lemma send_h265_buffer_rtp_live:
  assumes "net_accepts N" and "sendable_buffer bufp"
  shows "fst (send_h265_buffer_rtp N dest ts ssrc bufp m q u) = 0"
  using nalu.send_each_live [OF assms(1) sendable_buffer_any(2) [OF assms(2), of m], of dest ts ssrc q u]
    sendable_buffer_any(1) [OF assms(2)]
  by (auto simp: send_h265_buffer_rtp_eq split: prod.splits)

interpretation buffer: live_rtp_sender "send_h265_buffer_rtp N dest ts ssrc" buffer_plan dest ts ssrc
    sendable_buffer "net_accepts N"
  for N dest ts ssrc
  by unfold_locales (auto intro: send_h265_buffer_rtp_emits send_h265_buffer_rtp_live)

section \<open>A pack\<close>

lemma send_datafifo_pack_emits:
  assumes "page_size_ok E" and "send_datafifo_pack E N dest ts ssrc (Some p) m q u s = (r, q', u', s')"
  shows "emitted dest ts ssrc (buffer_plan (Some (phys_bytes E p)) m) q u r q' u'"
proof (cases "nalu_datafifo_mmap_pack E (Some p) s")
  case (Pair vo s1)
  show ?thesis
  proof (cases vo)
    case None
    with assms(2) Pair show ?thesis by (auto simp: send_datafifo_pack_def intro: emitted_fail)
  next
    case (Some v)
    note map = Pair [unfolded Some]
    obtain r1 q1 u1 where b: "send_h265_buffer_rtp N dest ts ssrc (Some (phys_bytes E p)) m q u = (r1, q1, u1)"
      by (metis prod_cases3)
    with assms(2) map have "q1 = q'" "u1 = u'" "r = 0 \<longrightarrow> r1 = 0"
      by (auto simp: send_datafifo_pack_def Let_def devmem.mmap_reads [OF assms(1) map] split: prod.splits if_splits)
    with buffer.send_emits [OF b] show ?thesis by (auto simp: emitted_def)
  qed
qed

lemma send_datafifo_pack_maps:
  assumes "page_size_ok E" and "maps_fresh E s" and "munmap_accepts E"
    and "send_datafifo_pack E N dest ts ssrc (Some p) m q u s = (r, q', u', s')"
  shows "mm_maps s' = mm_maps s"
proof (cases "nalu_datafifo_mmap_pack E (Some p) s")
  case (Pair vo s1)
  show ?thesis
  proof (cases vo)
    case None
    with assms Pair devmem.mmap_fails [of E "Some p" s s1] show ?thesis
      by (auto simp: send_datafifo_pack_def)
  next
    case (Some v)
    note map = Pair [unfolded Some]
    obtain r2 s2 where mu: "nalu_datafifo_munmap_pack E (Some p) v s1 = (r2, s2)" by fastforce
    with assms(4) map have "s2 = s'" by (auto simp: send_datafifo_pack_def Let_def split: prod.splits)
    moreover have "r2 = 0" by (rule munmap_of_mapped [OF map assms(3) mu])
    ultimately show ?thesis using devmem.mmap_munmap [OF assms(1,2) map] mu by simp
  qed
qed

lemma send_datafifo_pack_live:
  assumes "page_size_ok E" and "maps_fresh E s" and "munmap_accepts E" and "mmap_accepts E s"
    and "net_accepts N" and "pk_phys_addr p \<noteq> 0" and "sendable_buffer (Some (phys_bytes E p))"
  shows "fst (send_datafifo_pack E N dest ts ssrc (Some p) m q u s) = 0"
proof -
  have "pk_len p \<noteq> 0" using assms(7) by (auto simp: sendable_buffer_def buffer_nalus_def phys_bytes_def)
  then obtain v s1 where map: "nalu_datafifo_mmap_pack E (Some p) s = (Some v, s1)"
    using mmap_pack_live [OF assms(1,2,4,6)] by blast
  obtain r2 s2 where mu: "nalu_datafifo_munmap_pack E (Some p) v s1 = (r2, s2)" by fastforce
  then have "r2 = 0" by (rule munmap_of_mapped [OF map assms(3)])
  with send_h265_buffer_rtp_live [OF assms(5,7), of dest ts ssrc m q u] map mu show ?thesis
    by (auto simp: send_datafifo_pack_def Let_def devmem.mmap_reads [OF assms(1) map] split: prod.splits)
qed

section \<open>Properties\<close>

text \<open>The packets for a list of NALUs, the marker on the last packet of the last one only.\<close>

definition access_unit_plan :: "bytes list \<Rightarrow> u8 \<Rightarrow> (bytes \<times> u8) list" where
  "access_unit_plan ns m = concat (map (\<lambda>(n, l). nalu_plan (Some n) (if l then m else 0)) (flag_last ns))"

lemma buffer_plan_join:
  assumes "ns \<noteq> []" and "\<forall>n \<in> set ns. clean_nalu n"
  shows "buffer_plan (Some (annexb_join ns)) m = access_unit_plan ns m"
    and "map fst (buffer_nalus (Some (annexb_join ns)) m) = map Some ns"
proof -
  from assms(1) obtain n ms where ns: "ns = n # ms" by (cases ns) auto
  have "sc_at (annexb_join ns) 0 4" using sc_at_here [of "[]"] ns by simp
  then have b: "buffer_nalus (Some (annexb_join ns)) m = marked_units (annexb_join ns) 0 m"
    using sc_at_bound [of "annexb_join ns" 0 4] by (simp add: buffer_nalus_def)
  have u: "annexb_units (annexb_join ns) 0 = flag_last ns"
    using annexb_units_join_flags [OF assms(2), of "[]"] by simp
  show "buffer_plan (Some (annexb_join ns)) m = access_unit_plan ns m"
    by (simp add: buffer_plan_def access_unit_plan_def b marked_units_def u comp_def case_prod_unfold)
  have "map fst (marked_units (annexb_join ns) 0 m) = map Some (map fst (flag_last ns))"
    unfolding marked_units_def u map_map by (rule map_cong) auto
  then show "map fst (buffer_nalus (Some (annexb_join ns)) m) = map Some ns" by (simp add: b)
qed

text \<open>Whatever the network does and whatever the buffer holds (one raw NALU, or NALUs behind
  3- or 4-byte start codes with padding zeros), \<open>send_h265_buffer_rtp\<close> sends a prefix of the
  packets of its NALUs in order, start codes removed, numbered consecutively; it returns 0 only
  when all were accepted and there was at least one, and \<open>-1\<close> otherwise.\<close>

theorem send_h265_buffer_rtp_refines:
  assumes "send_h265_buffer_rtp N dest ts ssrc bufp m q u = (r, q', u')"
  shows "(r = 0 \<or> r = -1) \<and> (r = 0 \<longrightarrow> buffer_nalus bufp m \<noteq> []) \<and>
    (\<exists>k \<le> length (buffer_plan bufp m).
       udp_sent u' = udp_sent u @ numbered dest ts ssrc q (take k (buffer_plan bufp m)) \<and>
       q' = q + of_nat k \<and> (r = 0 \<longrightarrow> k = length (buffer_plan bufp m)))"
proof -
  have "(r = 0 \<or> r = -1) \<and> (r = 0 \<longrightarrow> buffer_nalus bufp m \<noteq> [])"
    using assms by (auto simp: send_h265_buffer_rtp_eq split: prod.splits if_splits)
  with buffer.send_emits [OF assms] show ?thesis by (simp add: emitted_def)
qed

theorem send_h265_buffer_rtp_refines_witness:
  "\<exists>r q' u'. send_h265_buffer_rtp (\<lambda>t _. if t = 0 then 20 else -1)
      \<lparr>sin_family = 2, sin_port = 0, sin_addr = 0\<rparr> 7 9 (Some [0, 0, 1, 0x40, 1, 0, 0, 1, 0x42, 1]) 1 5
      \<lparr>udp_calls = 0, udp_sent = []\<rparr> = (r, q', u') \<and> (r = 0 \<or> r = -1)"
proof -
  let ?X = "send_h265_buffer_rtp (\<lambda>t _. if t = 0 then 20 else -1)
      \<lparr>sin_family = 2, sin_port = 0, sin_addr = 0\<rparr> 7 9 (Some [0, 0, 1, 0x40, 1, 0, 0, 1, 0x42, 1]) 1 5
      \<lparr>udp_calls = 0, udp_sent = []\<rparr>"
  obtain r q' u' where X: "?X = (r, q', u')" by (metis prod_cases3)
  with send_h265_buffer_rtp_refines [OF X] show ?thesis by simp
qed

text \<open>Reading a buffer of NALUs joined with start codes: on a network that accepts everything,
  each NALU of at least 2 bytes is sent, in order, and the marker bit is set on the last packet
  of the last NALU and on no other.\<close>

theorem send_h265_buffer_rtp_access_unit:
  assumes "net_accepts N" and "ns \<noteq> []" and "\<forall>n \<in> set ns. clean_nalu n \<and> 2 \<le> length n"
  shows "\<exists>q' u'. send_h265_buffer_rtp N dest ts ssrc (Some (annexb_join ns)) m q u = (0, q', u') \<and>
    udp_sent u' = udp_sent u @ numbered dest ts ssrc q (access_unit_plan ns m) \<and>
    map snd (access_unit_plan ns m) = replicate (length (access_unit_plan ns m) - 1) 0 @ [m]"
proof -
  let ?b = "Some (annexb_join ns)"
  have cl: "\<forall>n \<in> set ns. clean_nalu n" using assms(3) by simp
  have "sendable_buffer ?b"
    using assms(2,3) buffer_plan_join(2) [OF assms(2) cl, of 0] unfolding sendable_buffer_def
    by (auto simp: list_all_iff)
  from send_h265_buffer_rtp_live [OF assms(1) this] obtain q' u' where
    s: "send_h265_buffer_rtp N dest ts ssrc ?b m q u = (0, q', u')" by (metis eq_fst_iff)
  have "map snd (access_unit_plan ms m) = replicate (length (access_unit_plan ms m) - 1) 0 @ [m]"
    if "ms \<noteq> []" "\<forall>n \<in> set ms. 2 \<le> length n" for ms
    using that
  proof (induction ms)
    case (Cons n ms)
    show ?case
    proof (cases "ms = []")
      case True
      with Cons.prems nalu_plan_markers [of n m] show ?thesis by (simp add: access_unit_plan_def)
    next
      case False
      have zeros: "map snd (nalu_plan (Some n) 0) = replicate (length (nalu_plan (Some n) 0)) 0"
        using nalu_plan_markers [of n 0] Cons.prems
        by (metis length_map length_replicate list.set_intros(1) replicate_append_same
            length_append_singleton replicate_Suc)
      have tail: "access_unit_plan (n # ms) m = nalu_plan (Some n) 0 @ access_unit_plan ms m"
        using False by (simp add: access_unit_plan_def)
      have IH: "map snd (access_unit_plan ms m) = replicate (length (access_unit_plan ms m) - 1) 0 @ [m]"
        using Cons False by simp
      then have "0 < length (access_unit_plan ms m)" by (cases "access_unit_plan ms m") auto
      then have "length (access_unit_plan (n # ms) m) - 1 =
          length (nalu_plan (Some n) 0) + (length (access_unit_plan ms m) - 1)"
        unfolding tail length_append by linarith
      then show ?thesis using IH unfolding tail by (simp add: replicate_add zeros)
    qed
  qed simp
  with assms(2,3) s emitted_ok [OF buffer.send_emits [OF s]] buffer_plan_join(1) [OF assms(2) cl]
  show ?thesis by auto
qed

theorem send_h265_buffer_rtp_access_unit_witness:
  "\<exists>q' u'. send_h265_buffer_rtp (\<lambda>_ _. 1) \<lparr>sin_family = 2, sin_port = 0, sin_addr = 0\<rparr> 7 9
      (Some (annexb_join [[0x40, 1], [0x26, 1, 7]])) 1 5 \<lparr>udp_calls = 0, udp_sent = []\<rparr> = (0, q', u') \<and>
    length (udp_sent u') = 2"
proof -
  have "\<not> is_sc [0x40, 1] j" and "\<not> is_sc [0x26, 1, 7] j" for j
    by (cases j; auto simp: is_sc_def sc_at_3 sc_at_4 nth_Cons' split: if_splits)+
  then have "\<forall>n \<in> set [[0x40, 1], [0x26, 1, 7]]. clean_nalu n \<and> 2 \<le> length n"
    by (simp add: clean_nalu_def)
  moreover have "length (access_unit_plan [[0x40, 1], [0x26, 1, 7]] 1) = 2"
    by (simp add: access_unit_plan_def nalu_plan_def rtp_sizes)
  ultimately show ?thesis
    using send_h265_buffer_rtp_access_unit [of "\<lambda>_ _. 1" "[[0x40, 1], [0x26, 1, 7]]"
        "\<lparr>sin_family = 2, sin_port = 0, sin_addr = 0\<rparr>" 7 9 1 5 "\<lparr>udp_calls = 0, udp_sent = []\<rparr>"]
    by (auto simp: net_accepts_def)
qed

text \<open>Sending a pack transmits the NALUs that lie in the physical memory of the pack and leaves
  no mapping behind, whether the transmission succeeds or fails.\<close>

theorem send_datafifo_pack_safe:
  assumes "page_size_ok E" and "maps_fresh E s" and "munmap_accepts E"
    and "send_datafifo_pack E N dest ts ssrc (Some p) m q u s = (r, q', u', s')"
  shows "mm_maps s' = mm_maps s \<and>
    (\<exists>k \<le> length (buffer_plan (Some (phys_bytes E p)) m).
       udp_sent u' = udp_sent u @ numbered dest ts ssrc q (take k (buffer_plan (Some (phys_bytes E p)) m)) \<and>
       (r = 0 \<longrightarrow> k = length (buffer_plan (Some (phys_bytes E p)) m)))"
  using send_datafifo_pack_maps [OF assms] send_datafifo_pack_emits [OF assms(1,4)]
  by (auto simp: emitted_def)

theorem send_datafifo_pack_safe_witness:
  "\<exists>r q' u' s'. send_datafifo_pack (demo_mmap_env (\<lambda>_. 0x42)) (\<lambda>_ _. -1)
      \<lparr>sin_family = 2, sin_port = 0, sin_addr = 0\<rparr> 7 9
      (Some \<lparr>pk_phys_addr = 0x12ffaff3, pk_pts = 0, pk_len = 40, pk_type = 0\<rparr>) 1 5
      \<lparr>udp_calls = 0, udp_sent = []\<rparr> no_maps = (r, q', u', s') \<and> mm_maps s' = []"
proof -
  let ?X = "send_datafifo_pack (demo_mmap_env (\<lambda>_. 0x42)) (\<lambda>_ _. -1)
      \<lparr>sin_family = 2, sin_port = 0, sin_addr = 0\<rparr> 7 9
      (Some \<lparr>pk_phys_addr = 0x12ffaff3, pk_pts = 0, pk_len = 40, pk_type = 0\<rparr>) 1 5
      \<lparr>udp_calls = 0, udp_sent = []\<rparr> no_maps"
  obtain r q' u' s' where X: "?X = (r, q', u', s')" by (metis prod_cases4)
  moreover have "munmap_accepts (demo_mmap_env (\<lambda>_. 0x42))"
    by (simp add: munmap_accepts_def demo_mmap_env_def)
  ultimately show ?thesis
    using send_datafifo_pack_safe [OF demo_mmap_env_ok _ X] by (auto simp: no_maps_def)
qed

end
