(* ===== verification/Datafifo_Reader.thy ===== *)
theory Datafifo_Reader
  imports Ipc_Message
begin

text \<open>
  The reader of the shared-memory FIFO (\<open>nalu_datafifo_open\<close>, \<open>_close\<close>, \<open>_read\<close>,
  \<open>_read_done\<close> of \<open>src/nalu_datafifo.c\<close>) with its rate-limited log. The \<open>kd_datafifo\<close> calls
  belong to the vendor's SDK, which is not part of the repository: their answers are the record
  \<open>kd_env\<close>, functions of the number of the call. What the program does to the FIFO is the list
  \<open>ff_events\<close>: the big core releases a frame only when it sees \<open>Released\<close> for its item.
\<close>

section \<open>Time\<close>

text \<open>\<open>gettimeofday\<close>: seconds and microseconds, \<open>None\<close> when it fails; \<open>t\<close> counts the calls.\<close>

type_synonym clock_env = "nat \<Rightarrow> (u64 \<times> u64) option"

definition nalu_datafifo_log_now_ms :: "clock_env \<Rightarrow> nat \<Rightarrow> u64 \<times> nat" where
  "nalu_datafifo_log_now_ms C t =
     (case C t of
        None \<Rightarrow> (0, t + 1)
      | Some (tv_sec, tv_usec) \<Rightarrow> (tv_sec * 1000 + tv_usec div 1000, t + 1))"

text \<open>The result, \<open>*last_ms\<close> and the call counter afterwards.\<close>

definition nalu_datafifo_should_log :: "clock_env \<Rightarrow> u64 \<Rightarrow> u64 \<Rightarrow> nat \<Rightarrow> int \<times> u64 \<times> nat" where
  "nalu_datafifo_should_log C last_ms interval_ms t =
     (case nalu_datafifo_log_now_ms C t of
        (now, t') \<Rightarrow>
          if now = 0 then (0, last_ms, t')
          else if last_ms = 0 \<or> now - last_ms \<ge> interval_ms then (1, now, t')
          else (0, last_ms, t'))"

section \<open>State\<close>

definition NALU_DATAFIFO_FIFO_ENTRIES :: u32 where "NALU_DATAFIFO_FIFO_ENTRIES = 3"
definition NALU_DATAFIFO_IDLE_LOG_INTERVAL_MS :: u64 where "NALU_DATAFIFO_IDLE_LOG_INTERVAL_MS = 3000"

record nalu_datafifo_reader =
  rd_handle :: u64
  rd_opened :: bool

text \<open>An item of the FIFO: its address (not NULL) and its bytes.\<close>

record kd_item =
  it_addr :: u64
  it_bytes :: bytes

datatype fifo_event = Opened u64 | Took u64 | Released u64 | Closed u64

text \<open>What a FIFO is opened with; of the modes the program uses one.\<close>

datatype datafifo_open_mode = DATAFIFO_READER

record datafifo_params =
  dp_entries_num :: u32
  dp_cache_line_size :: u32
  dp_data_release_by_writer :: bool
  dp_open_mode :: datafifo_open_mode

record kd_env =
  kd_invalid_handle :: u64
  kd_open_by_addr :: "nat \<Rightarrow> datafifo_params \<Rightarrow> u64 \<Rightarrow> int \<times> u64"
  kd_avail_read_len :: "nat \<Rightarrow> int \<times> u32"
  kd_read :: "nat \<Rightarrow> int \<times> kd_item option"
  kd_read_done :: "nat \<Rightarrow> u64 \<Rightarrow> int"
  kd_clock :: clock_env

text \<open>
  The calls made so far, the static variables of \<open>nalu_datafifo_read\<close> and the events. The
  static \<open>last_poll_begin_log_ms\<close> is used only when \<open>NALU_DATAFIFO_VERBOSE_LOG\<close> is set; it is 0.
\<close>

record fifo_state =
  ff_calls :: nat
  ff_clock :: nat
  ff_last_idle_log_ms :: u64
  ff_idle_poll_count :: u64
  ff_events :: "fifo_event list"

section \<open>Operations\<close>

definition nalu_datafifo_open ::
    "kd_env \<Rightarrow> nalu_datafifo_reader option \<Rightarrow> u64 \<Rightarrow> fifo_state \<Rightarrow> int \<times> nalu_datafifo_reader option \<times> fifo_state" where
  "nalu_datafifo_open K readerp fifo_phy_addr s =
     (if readerp = None \<or> fifo_phy_addr = 0 then (-1, readerp, s)
      else
        let params = \<lparr>dp_entries_num = NALU_DATAFIFO_FIFO_ENTRIES, dp_cache_line_size = MPP_NALU_IPC_ITEM_SIZE,
                      dp_data_release_by_writer = True, dp_open_mode = DATAFIFO_READER\<rparr> in
        case kd_open_by_addr K (ff_calls s) params fifo_phy_addr of
        (ret, handle) \<Rightarrow>
          let s1 = s\<lparr>ff_calls := ff_calls s + 1\<rparr> in
          if ret \<noteq> 0 then (-1, Some \<lparr>rd_handle = kd_invalid_handle K, rd_opened = False\<rparr>, s1)
          else (0, Some \<lparr>rd_handle = handle, rd_opened = True\<rparr>,
                s1\<lparr>ff_events := ff_events s1 @ [Opened handle]\<rparr>))"

text \<open>
  The second component says whether \<open>little_sys_close_mmap_fd\<close> is called.
\<close>

definition nalu_datafifo_close ::
    "kd_env \<Rightarrow> nalu_datafifo_reader option \<Rightarrow> fifo_state \<Rightarrow> nalu_datafifo_reader option \<times> bool \<times> fifo_state" where
  "nalu_datafifo_close K readerp s =
     (case readerp of
        None \<Rightarrow> (None, False, s)
      | Some reader \<Rightarrow>
          if rd_opened reader
          then (Some \<lparr>rd_handle = kd_invalid_handle K, rd_opened = False\<rparr>, True,
                s\<lparr>ff_calls := ff_calls s + 1, ff_events := ff_events s @ [Closed (rd_handle reader)]\<rparr>)
          else (Some reader, False, s))"

text \<open>
  \<open>None\<close> is the return with \<open>-1\<close>; otherwise \<open>*out_msg\<close>, the item cast to a message, and
  \<open>*out_item\<close>.
\<close>

definition nalu_datafifo_read ::
    "kd_env \<Rightarrow> nalu_datafifo_reader option \<Rightarrow> fifo_state \<Rightarrow> (ipc_msg \<times> kd_item) option \<times> fifo_state" where
  "nalu_datafifo_read K readerp s =
     (case readerp of
        None \<Rightarrow> (None, s)
      | Some reader \<Rightarrow>
          if \<not> rd_opened reader then (None, s)
          else case kd_avail_read_len K (ff_calls s) of
            (ret, read_len) \<Rightarrow>
              let s1 = s\<lparr>ff_calls := ff_calls s + 1\<rparr> in
              if ret \<noteq> 0 then (None, s1)
              else if read_len < MPP_NALU_IPC_ITEM_SIZE then
                (case nalu_datafifo_should_log (kd_clock K) (ff_last_idle_log_ms s1)
                        NALU_DATAFIFO_IDLE_LOG_INTERVAL_MS (ff_clock s1) of
                   (_, last_ms, t') \<Rightarrow>
                     (None, s1\<lparr>ff_idle_poll_count := ff_idle_poll_count s1 + 1,
                               ff_last_idle_log_ms := last_ms, ff_clock := t'\<rparr>))
              else
                let s2 = s1\<lparr>ff_idle_poll_count := 0\<rparr> in
                if read_len > NALU_DATAFIFO_FIFO_ENTRIES * MPP_NALU_IPC_ITEM_SIZE then (None, s2)
                else case kd_read K (ff_calls s2) of
                  (ret', itemp) \<Rightarrow>
                    let s3 = s2\<lparr>ff_calls := ff_calls s2 + 1\<rparr> in
                    if ret' \<noteq> 0 then (None, s3)
                    else (case itemp of
                            None \<Rightarrow> (None, s3)
                          | Some item \<Rightarrow>
                              (Some (msg_of_item (it_bytes item), item),
                               s3\<lparr>ff_events := ff_events s3 @ [Took (it_addr item)]\<rparr>)))"

definition nalu_datafifo_read_done ::
    "kd_env \<Rightarrow> nalu_datafifo_reader option \<Rightarrow> kd_item option \<Rightarrow> fifo_state \<Rightarrow> int \<times> fifo_state" where
  "nalu_datafifo_read_done K readerp itemp s =
     (case (readerp, itemp) of
        (Some reader, Some item) \<Rightarrow>
          if \<not> rd_opened reader then (-1, s)
          else
            let s1 = s\<lparr>ff_calls := ff_calls s + 1, ff_events := ff_events s @ [Released (it_addr item)]\<rparr> in
            if kd_read_done K (ff_calls s) (it_addr item) \<noteq> 0 then (-1, s1) else (0, s1)
      | _ \<Rightarrow> (-1, s))"

section \<open>The contract of an item source\<close>

text \<open>
  The items that were taken and whose READ_DONE has not been issued yet. (\<open>Released\<close> stands for
  the command, whatever the SDK answers.)
\<close>

fun pending_after :: "fifo_event list \<Rightarrow> u64 list \<Rightarrow> u64 list" where
  "pending_after [] ps = ps"
| "pending_after (Took a # es) ps = pending_after es (ps @ [a])"
| "pending_after (Released a # es) ps = pending_after es (remove1 a ps)"
| "pending_after (_ # es) ps = pending_after es ps"

definition pending_items :: "fifo_state \<Rightarrow> u64 list" where
  "pending_items s = pending_after (ff_events s) []"

lemma pending_after_append: "pending_after (es @ fs) ps = pending_after fs (pending_after es ps)"
  by (induction es ps rule: pending_after.induct) auto

text \<open>
  A reader takes an item, works on it in a way that leaves the source alone, and releases it:
  no item is ever left unreleased, and none is released twice.
\<close>

locale item_source =
  fixes take_item :: "'s \<Rightarrow> ('m \<times> 'i) option \<times> 's"
    and give_back :: "'i \<Rightarrow> 's \<Rightarrow> int \<times> 's"
    and addr :: "'i \<Rightarrow> 'a"
    and pending :: "'s \<Rightarrow> 'a list"
  assumes take_Some: "take_item s = (Some (m, i), s') \<Longrightarrow> pending s' = pending s @ [addr i]"
    and take_None: "take_item s = (None, s') \<Longrightarrow> pending s' = pending s"
    and give_back: "give_back i s = (r, s') \<Longrightarrow> pending s' = remove1 (addr i) (pending s)"
begin

lemma cycle_balanced:
  assumes "pending s = []" and "take_item s = (Some (m, i), s1)" and "give_back i s1 = (r, s2)"
  shows "pending s2 = []"
  using take_Some [OF assms(2)] give_back [OF assms(3)] assms(1) by simp

end

lemma read_cases:
  assumes "nalu_datafifo_read K (Some rd) s = (r, s')"
  shows "(case r of
      None \<Rightarrow> ff_events s' = ff_events s
    | Some (m, item) \<Rightarrow>
        rd_opened rd \<and> ff_idle_poll_count s' = 0 \<and> m = msg_of_item (it_bytes item) \<and>
        ff_events s' = ff_events s @ [Took (it_addr item)] \<and>
        kd_read K (ff_calls s + 1) = (0, Some item) \<and>
        (\<exists>len. kd_avail_read_len K (ff_calls s) = (0, len) \<and> 512 \<le> len \<and> len \<le> 1536))"
  using assms
  by (auto simp: nalu_datafifo_read_def Let_def ipc_consts NALU_DATAFIFO_FIFO_ENTRIES_def not_less
      split: prod.splits if_splits option.splits)

interpretation datafifo: item_source "nalu_datafifo_read K (Some rd)"
    "\<lambda>item. nalu_datafifo_read_done K (Some rd) (Some item)" it_addr
    "\<lambda>s. if rd_opened rd then pending_items s else []"
  for K rd
proof unfold_locales
  fix s m i s'
  assume "nalu_datafifo_read K (Some rd) s = (Some (m, i), s')"
  from read_cases [OF this]
  show "(if rd_opened rd then pending_items s' else []) =
      (if rd_opened rd then pending_items s else []) @ [it_addr i]"
    by (simp add: pending_items_def pending_after_append)
next
  fix s s'
  assume "nalu_datafifo_read K (Some rd) s = (None, s')"
  from read_cases [OF this]
  show "(if rd_opened rd then pending_items s' else []) = (if rd_opened rd then pending_items s else [])"
    by (simp add: pending_items_def)
next
  fix i s r s'
  assume "nalu_datafifo_read_done K (Some rd) (Some i) s = (r, s')"
  then show "(if rd_opened rd then pending_items s' else []) =
      remove1 (it_addr i) (if rd_opened rd then pending_items s else [])"
    by (auto simp: nalu_datafifo_read_done_def Let_def pending_items_def pending_after_append
        split: if_splits)
qed

section \<open>The rate limit\<close>

text \<open>The times at which \<open>n\<close> successive calls of \<open>nalu_datafifo_should_log\<close> say yes.\<close>

fun log_times :: "clock_env \<Rightarrow> u64 \<Rightarrow> nat \<Rightarrow> u64 \<Rightarrow> nat \<Rightarrow> u64 list" where
  "log_times C interval_ms 0 last_ms t = []"
| "log_times C interval_ms (Suc n) last_ms t =
     (case nalu_datafifo_should_log C last_ms interval_ms t of
        (r, last_ms', t') \<Rightarrow>
          (if r \<noteq> 0 then [last_ms'] else []) @ log_times C interval_ms n last_ms' t')"

definition spaced :: "u64 \<Rightarrow> u64 \<Rightarrow> u64 \<Rightarrow> bool" where
  "spaced interval a b \<longleftrightarrow> b < a \<or> unat a + unat interval \<le> unat b"

lemma should_log_cases:
  assumes "nalu_datafifo_should_log C last_ms iv t = (r, last_ms', t')"
  shows "r = 0 \<and> last_ms' = last_ms \<or> r = 1 \<and> last_ms' \<noteq> 0 \<and> (last_ms = 0 \<or> spaced iv last_ms last_ms')"
proof -
  have "spaced iv a b" if "iv \<le> b - a" for a b
  proof (cases "b < a")
    case False
    then have "unat (b - a) = unat b - unat a" and "unat a \<le> unat b"
      by (simp_all add: unat_sub word_le_nat_alt not_less)
    with that show ?thesis by (auto simp: spaced_def word_le_nat_alt)
  qed (simp add: spaced_def)
  with assms show ?thesis
    by (auto simp: nalu_datafifo_should_log_def split: prod.splits if_splits)
qed

lemma log_times_spaced:
  "successively (spaced iv) (log_times C iv n last_ms t) \<and>
    (last_ms = 0 \<or> log_times C iv n last_ms t = [] \<or> spaced iv last_ms (hd (log_times C iv n last_ms t)))"
proof (induction n arbitrary: last_ms t)
  case (Suc n)
  obtain r l t' where s: "nalu_datafifo_should_log C last_ms iv t = (r, l, t')" by (metis prod_cases3)
  from should_log_cases [OF s] Suc.IH [of l t'] s show ?case
    by (auto simp: successively_Cons)
qed simp

section \<open>Properties\<close>

text \<open>\<open>nalu_datafifo_read\<close> hands out an item only when the reader is open and the FIFO
  announced between one and three whole items; the message is the cast of the item that the
  SDK returned, and the item then waits for its READ_DONE. In every other case nothing is
  taken from the FIFO.\<close>

theorem nalu_datafifo_read_spec:
  "case nalu_datafifo_read K (Some rd) s of
     (None, s') \<Rightarrow> pending_items s' = pending_items s
   | (Some (m, item), s') \<Rightarrow>
       rd_opened rd \<and> m = msg_of_item (it_bytes item) \<and>
       pending_items s' = pending_items s @ [it_addr item] \<and>
       kd_read K (ff_calls s + 1) = (0, Some item) \<and>
       (\<exists>len. kd_avail_read_len K (ff_calls s) = (0, len) \<and> 512 \<le> len \<and> len \<le> 1536)"
proof (cases "nalu_datafifo_read K (Some rd) s")
  case (Pair r s')
  from read_cases [OF Pair] Pair show ?thesis
    by (auto simp: pending_items_def pending_after_append split: option.splits)
qed

text \<open>Log lines of an idle reader are at least the interval (3 s) apart, however often the
  FIFO is polled, unless the clock was set back in between.\<close>

theorem should_log_rate_limited:
  "successively (spaced interval_ms) (log_times C interval_ms n last_ms t)"
  using log_times_spaced by blast

end
