(* ===== verification/Session.thy ===== *)
theory Session
  imports Net
begin

text \<open>
  The state that the RTSP thread and the sender thread share under \<open>g_mutex\<close> (\<open>g_play\<close>,
  \<open>g_client_addr_set\<close>, \<open>g_need_parameter_sets\<close>, \<open>g_client_addr\<close> of \<open>src/RTSP_Create.c\<close>) and
  both threads' critical sections on it. The sender is modelled with every interleaving: the
  argument \<open>R\<close> of its operations says what the RTSP thread did to the shared state before the
  \<open>t\<close>-th time the sender took the mutex.
\<close>

section \<open>State\<close>

record session =
  se_play :: bool
  se_client_addr_set :: bool
  se_need_parameter_sets :: bool
  se_client_addr :: sockaddr_in

definition null_addr :: sockaddr_in where
  "null_addr = \<lparr>sin_family = 0, sin_port = 0, sin_addr = 0\<rparr>"

definition session_init :: session where
  "session_init = \<lparr>se_play = False, se_client_addr_set = False, se_need_parameter_sets = False,
     se_client_addr = null_addr\<rparr>"

type_synonym rtsp_env = "nat \<Rightarrow> session \<Rightarrow> session"

record shared =
  sh_session :: session
  sh_locks :: nat

text \<open>What the sender finds when it holds the mutex.\<close>

definition lock_mutex :: "rtsp_env \<Rightarrow> shared \<Rightarrow> shared" where
  "lock_mutex R sh = \<lparr>sh_session = R (sh_locks sh) (sh_session sh), sh_locks = sh_locks sh + 1\<rparr>"

section \<open>The critical sections of the sender thread\<close>

definition get_rtsp_target :: "rtsp_env \<Rightarrow> shared \<Rightarrow> (bool \<times> sockaddr_in \<times> bool \<times> bool) \<times> shared" where
  "get_rtsp_target R sh =
     (let sh1 = lock_mutex R sh; g = sh_session sh1
      in ((se_play g,
           if se_client_addr_set g then se_client_addr g else null_addr,
           se_client_addr_set g, se_need_parameter_sets g), sh1))"

definition rtsp_session_needs_parameter_sets :: "rtsp_env \<Rightarrow> shared \<Rightarrow> bool \<times> shared" where
  "rtsp_session_needs_parameter_sets R sh =
     (let sh1 = lock_mutex R sh in (se_need_parameter_sets (sh_session sh1), sh1))"

definition rtsp_mark_parameter_sets_sent :: "rtsp_env \<Rightarrow> shared \<Rightarrow> shared" where
  "rtsp_mark_parameter_sets_sent R sh =
     (let sh1 = lock_mutex R sh in sh1\<lparr>sh_session := (sh_session sh1)\<lparr>se_need_parameter_sets := False\<rparr>\<rparr>)"

text \<open>
  The loop around \<open>pthread_cond_wait\<close>, which gives the mutex up and takes it again. It may wait
  forever; then the value is \<open>None\<close>.
\<close>

partial_function (option) wait_for_rtsp_play :: "rtsp_env \<Rightarrow> shared \<Rightarrow> (sockaddr_in \<times> shared) option" where
  "wait_for_rtsp_play R sh =
     (let sh1 = lock_mutex R sh; g = sh_session sh1 in
      if \<not> se_play g \<or> \<not> se_client_addr_set g then wait_for_rtsp_play R sh1
      else Some (se_client_addr g, sh1))"

section \<open>The critical sections of the RTSP thread\<close>

text \<open>SETUP, with the address of the RTSP connection and the client's port.\<close>

definition session_setup :: "sockaddr_in \<Rightarrow> int \<Rightarrow> session \<Rightarrow> session" where
  "session_setup cli_addr client_port g =
     g\<lparr>se_client_addr := cli_addr\<lparr>sin_port := htons (of_int client_port)\<rparr>,
       se_client_addr_set := True, se_play := False, se_need_parameter_sets := True\<rparr>"

definition session_play :: "session \<Rightarrow> session" where
  "session_play g = g\<lparr>se_play := True, se_need_parameter_sets := True\<rparr>"

text \<open>TEARDOWN, and the end of a connection.\<close>

definition session_stop :: "session \<Rightarrow> session" where
  "session_stop g = g\<lparr>se_play := False\<rparr>"

section \<open>The RTSP thread as a state machine\<close>

inductive session_step :: "session \<Rightarrow> session \<Rightarrow> bool" where
  step_setup: "0 < port \<Longrightarrow> port \<le> 65535 \<Longrightarrow> session_step g (session_setup cli port g)"
| step_play: "session_step g (session_play g)"
| step_stop: "session_step g (session_stop g)"

inductive_simps session_step_simps: "session_step g g'"

text \<open>An RTSP thread that does nothing.\<close>

definition quiet :: "rtsp_env \<Rightarrow> bool" where
  "quiet R \<longleftrightarrow> (\<forall>t g. R t g = g)"

lemma lock_mutex_quiet [simp]:
  "quiet R \<Longrightarrow> sh_session (lock_mutex R sh) = sh_session sh"
  by (simp add: lock_mutex_def quiet_def)

text \<open>Invariant of the whole machine: a session that plays without a target has never had one,
  and an address that is set is one that a SETUP gave (family and IP of the connection).\<close>

definition session_inv :: "session \<Rightarrow> bool" where
  "session_inv g \<longleftrightarrow>
     (se_client_addr_set g \<or> se_client_addr g = null_addr) \<and>
     (se_client_addr_set g \<longrightarrow> sin_port (se_client_addr g) \<noteq> 0)"

lemma htons_eq_0_iff: "htons w = 0 \<longleftrightarrow> w = 0"
proof
  assume "htons w = 0"
  then have "htons (htons w) = htons 0" by (rule arg_cong)
  then have "w = htons 0" by (simp only: htons_htons)
  then show "w = 0" by (simp add: htons_def)
qed (simp add: htons_def)

lemma session_step_inv: "session_step g g' \<Longrightarrow> session_inv g \<Longrightarrow> session_inv g'"
proof (induction rule: session_step.induct)
  case (step_setup port g cli)
  then have "(of_int port :: u16) \<noteq> 0"
    using zdvd_not_zless [of port "2 ^ 16"] by (simp add: word_of_int_eq_0_iff)
  then show ?case by (simp add: session_inv_def session_setup_def htons_eq_0_iff)
qed (auto simp: session_inv_def session_play_def session_stop_def)

section \<open>Waiting for PLAY\<close>

definition target_ready :: "shared \<Rightarrow> bool" where
  "target_ready sh \<longleftrightarrow> se_play (sh_session sh) \<and> se_client_addr_set (sh_session sh)"

lemma wait_for_rtsp_play_Some:
  "wait_for_rtsp_play R sh = Some r \<Longrightarrow>
     target_ready (snd r) \<and> fst r = se_client_addr (sh_session (snd r)) \<and>
     (\<exists>n. snd r = (lock_mutex R ^^ Suc n) sh)"
proof (induction rule: wait_for_rtsp_play.raw_induct [rotated, consumes 1, case_names step])
  case (step w R sh r)
  show ?case
  proof (cases "target_ready (lock_mutex R sh)")
    case True
    with step(2) have "snd r = lock_mutex R sh" and "fst r = se_client_addr (sh_session (lock_mutex R sh))"
      by (auto simp: Let_def target_ready_def)
    with True show ?thesis by (auto intro: exI [of _ 0])
  next
    case False
    then have "w R (lock_mutex R sh) = Some r"
      using step(2) by (auto simp: Let_def target_ready_def split: if_splits)
    from step(1) [OF this] obtain n where n: "snd r = (lock_mutex R ^^ Suc n) (lock_mutex R sh)"
      and r: "target_ready (snd r)" "fst r = se_client_addr (sh_session (snd r))" by blast
    then have "snd r = (lock_mutex R ^^ Suc (Suc n)) sh" by (simp add: funpow_swap1)
    with r show ?thesis by blast
  qed
qed

lemma wait_for_rtsp_play_live:
  "target_ready ((lock_mutex R ^^ Suc n) sh) \<Longrightarrow> \<exists>r. wait_for_rtsp_play R sh = Some r"
proof (induction n arbitrary: sh)
  case 0
  then show ?case by (subst wait_for_rtsp_play.simps) (auto simp: Let_def target_ready_def)
next
  case (Suc n)
  then have "target_ready ((lock_mutex R ^^ Suc n) (lock_mutex R sh))" by (simp add: funpow_swap1)
  from Suc.IH [OF this] show ?case by (subst wait_for_rtsp_play.simps) (auto simp: Let_def)
qed

section \<open>Properties\<close>

text \<open>C32: \<open>wait_for_rtsp_play\<close> returns if and only if some client is set up and playing at one of
  the moments at which the sender holds the mutex, and then with the address of that client.\<close>

theorem wait_for_rtsp_play_iff:
  "(case wait_for_rtsp_play R sh of
      Some (dest, sh') \<Rightarrow> target_ready sh' \<and> dest = se_client_addr (sh_session sh') \<and>
        (\<exists>n. sh' = (lock_mutex R ^^ Suc n) sh)
    | None \<Rightarrow> \<not> (\<exists>n. target_ready ((lock_mutex R ^^ Suc n) sh)))"
proof (cases "wait_for_rtsp_play R sh")
  case None
  have "\<not> target_ready ((lock_mutex R ^^ Suc n) sh)" for n
    using wait_for_rtsp_play_live [of n R sh] None by auto
  with None show ?thesis by simp
next
  case (Some r)
  from wait_for_rtsp_play_Some [OF Some] Some show ?thesis by (cases r) auto
qed

text \<open>Whatever requests the RTSP thread serves, an address that the sender may use has been
  given by a SETUP with a non-zero port, and an address that was never given is never used.\<close>

theorem session_reachable_inv:
  assumes "session_step\<^sup>*\<^sup>* session_init g"
  shows "session_inv g"
  using assms
proof (induction rule: rtranclp_induct)
  case base
  then show ?case by (simp add: session_inv_def session_init_def)
next
  case (step g g')
  then show ?case by (blast intro: session_step_inv)
qed

theorem session_reachable_inv_witness:
  "session_inv (session_play (session_setup \<lparr>sin_family = 2, sin_port = 9, sin_addr = 7\<rparr> 5000 session_init))"
proof (rule session_reachable_inv)
  have "session_step session_init (session_setup \<lparr>sin_family = 2, sin_port = 9, sin_addr = 7\<rparr> 5000 session_init)"
    by (rule step_setup) simp_all
  then show "session_step\<^sup>*\<^sup>* session_init
      (session_play (session_setup \<lparr>sin_family = 2, sin_port = 9, sin_addr = 7\<rparr> 5000 session_init))"
    by (meson converse_rtranclp_into_rtranclp r_into_rtranclp step_play)
qed

end
