(* ===== verification/Playback.thy ===== *)
theory Playback
  imports Rtp_Buffer Session
begin

unbundle bit_operations_syntax

text \<open>
  The live path of the sender (\<open>src/RTSP_Create.c\<close>): the cache of the parameter sets VPS, SPS,
  PPS, and \<open>datafifo_process_*_for_playback\<close>, which hold a new session back until the parameter
  sets and then an IDR picture have been sent.
\<close>

section \<open>Constants and NALU classes\<close>

definition H265_NAL_IDR_W_RADL :: int where "H265_NAL_IDR_W_RADL = 19"
definition H265_NAL_IDR_N_LP :: int where "H265_NAL_IDR_N_LP = 20"
definition H265_NAL_VPS :: int where "H265_NAL_VPS = 32"
definition H265_NAL_SPS :: int where "H265_NAL_SPS = 33"
definition H265_NAL_PPS :: int where "H265_NAL_PPS = 34"
definition H265_PARAM_SET_MAX_SIZE :: nat where "H265_PARAM_SET_MAX_SIZE = 16 * 1024"

lemmas nal_consts = H265_NAL_IDR_W_RADL_def H265_NAL_IDR_N_LP_def H265_NAL_VPS_def H265_NAL_SPS_def
  H265_NAL_PPS_def

definition h265_is_parameter_set :: "int \<Rightarrow> bool" where
  "h265_is_parameter_set nal_type \<longleftrightarrow>
     nal_type = H265_NAL_VPS \<or> nal_type = H265_NAL_SPS \<or> nal_type = H265_NAL_PPS"

definition h265_is_idr :: "int \<Rightarrow> bool" where
  "h265_is_idr nal_type \<longleftrightarrow> nal_type = H265_NAL_IDR_W_RADL \<or> nal_type = H265_NAL_IDR_N_LP"

definition h265_nal_name :: "int \<Rightarrow> string" where
  "h265_nal_name nal_type =
     (if nal_type = H265_NAL_VPS then ''VPS''
      else if nal_type = H265_NAL_SPS then ''SPS''
      else if nal_type = H265_NAL_PPS then ''PPS''
      else if nal_type = H265_NAL_IDR_W_RADL then ''IDR_W_RADL''
      else if nal_type = H265_NAL_IDR_N_LP then ''IDR_N_LP''
      else ''NAL'')"

section \<open>State\<close>

datatype param_kind = VPS | SPS | PPS

text \<open>The kinds can be enumerated, so that a statement about the whole cache can be computed.\<close>

instantiation param_kind :: enum
begin

definition enum_param_kind :: "param_kind list" where
  "enum_param_kind = [VPS, SPS, PPS]"

definition enum_all_param_kind :: "(param_kind \<Rightarrow> bool) \<Rightarrow> bool" where
  "enum_all_param_kind P \<longleftrightarrow> P VPS \<and> P SPS \<and> P PPS"

definition enum_ex_param_kind :: "(param_kind \<Rightarrow> bool) \<Rightarrow> bool" where
  "enum_ex_param_kind P \<longleftrightarrow> P VPS \<or> P SPS \<or> P PPS"

instance
proof
  show "(UNIV :: param_kind set) = set enum_class.enum"
    unfolding enum_param_kind_def using param_kind.exhaust by auto
  then have all: "(\<forall>k. P k) \<longleftrightarrow> P VPS \<and> P SPS \<and> P PPS" for P :: "param_kind \<Rightarrow> bool"
    by (metis param_kind.exhaust)
  show "enum_class.enum_all P \<longleftrightarrow> Ball UNIV P" for P :: "param_kind \<Rightarrow> bool"
    by (simp add: enum_all_param_kind_def all)
  show "enum_class.enum_ex P \<longleftrightarrow> Bex UNIV P" for P :: "param_kind \<Rightarrow> bool"
    using all [of "\<lambda>k. \<not> P k"] by (auto simp: enum_ex_param_kind_def)
qed (simp add: enum_param_kind_def)

end

text \<open>
  A cache entry \<open>{data, len}\<close> is an option, \<open>None\<close> for \<open>data == NULL\<close>. The state of the live
  path: the three caches, the static \<open>missing_log_count\<close>, the number of \<open>malloc\<close> calls, the
  shared session, and the sender's \<open>wait_for_idr\<close>, \<open>seq\<close>, socket and memory mappings.
\<close>

record player =
  pl_cache :: "param_kind \<Rightarrow> bytes option"
  pl_missing_log_count :: u32
  pl_mallocs :: nat
  pl_shared :: shared
  pl_wait_for_idr :: bool
  pl_seq :: u16
  pl_udp :: udp
  pl_mem :: mmap_state

record world =
  w_alloc :: alloc_env
  w_rtsp :: rtsp_env
  w_net :: net_env
  w_mmap :: mmap_env

section \<open>The parameter-set cache\<close>

definition h265_param_cache_for_type :: "int \<Rightarrow> param_kind option" where
  "h265_param_cache_for_type nal_type =
     (if nal_type = H265_NAL_VPS then Some VPS
      else if nal_type = H265_NAL_SPS then Some SPS
      else if nal_type = H265_NAL_PPS then Some PPS
      else None)"

definition entry_filled :: "bytes option \<Rightarrow> bool" where
  "entry_filled e \<longleftrightarrow> (case e of None \<Rightarrow> False | Some d \<Rightarrow> length d > 0)"

definition h265_have_all_parameter_sets :: "player \<Rightarrow> bool" where
  "h265_have_all_parameter_sets st \<longleftrightarrow>
     entry_filled (pl_cache st VPS) \<and> entry_filled (pl_cache st SPS) \<and> entry_filled (pl_cache st PPS)"

definition h265_cache_parameter_set :: "world \<Rightarrow> bytes option \<Rightarrow> player \<Rightarrow> int \<times> player" where
  "h265_cache_parameter_set W nalup st =
     (case nalup of
        None \<Rightarrow> (0, st)
      | Some nalu \<Rightarrow>
          if length nalu < 2 then (0, st)
          else case h265_param_cache_for_type (h265_nalu_type nalu) of
            None \<Rightarrow> (0, st)
          | Some k \<Rightarrow>
              if length nalu > H265_PARAM_SET_MAX_SIZE then (-1, st)
              else if pl_cache st k = Some nalu then (0, st)
              else
                let st1 = st\<lparr>pl_mallocs := pl_mallocs st + 1\<rparr> in
                if \<not> w_alloc W (pl_mallocs st) (length nalu) then (-1, st1)
                else (0, st1\<lparr>pl_cache := (pl_cache st1)(k := Some nalu)\<rparr>))"

section \<open>Sending\<close>

definition send_nalu_from :: "world \<Rightarrow> sockaddr_in \<Rightarrow> u32 \<Rightarrow> u32 \<Rightarrow> bytes option \<Rightarrow> u8 \<Rightarrow> player \<Rightarrow> int \<times> player" where
  "send_nalu_from W dest timestamp ssrc nalup marker st =
     (case send_h265_nalu_rtp (w_net W) dest timestamp ssrc nalup marker (pl_seq st) (pl_udp st) of
        (r, seq', u') \<Rightarrow> (r, st\<lparr>pl_seq := seq', pl_udp := u'\<rparr>))"

definition send_cached_parameter_sets :: "world \<Rightarrow> sockaddr_in \<Rightarrow> u32 \<Rightarrow> u32 \<Rightarrow> player \<Rightarrow> int \<times> player" where
  "send_cached_parameter_sets W dest timestamp ssrc st =
     (if \<not> h265_have_all_parameter_sets st
      then (-1, st\<lparr>pl_missing_log_count := pl_missing_log_count st + 1\<rparr>)
      else case send_nalu_from W dest timestamp ssrc (pl_cache st VPS) 0 st of
        (r1, st1) \<Rightarrow>
          if r1 \<noteq> 0 then (-1, st1)
          else case send_nalu_from W dest timestamp ssrc (pl_cache st1 SPS) 0 st1 of
            (r2, st2) \<Rightarrow>
              if r2 \<noteq> 0 then (-1, st2)
              else case send_nalu_from W dest timestamp ssrc (pl_cache st2 PPS) 0 st2 of
                (r3, st3) \<Rightarrow> if r3 \<noteq> 0 then (-1, st3) else (0, st3))"

text \<open>
  \<open>datafifo_process_nalu_for_playback\<close>. The block after the check of the flag is split off: the
  first part ends with the return 0 (\<open>Inl\<close>) or goes on (\<open>Inr\<close>).
\<close>

definition playback_parameter_sets :: "world \<Rightarrow> sockaddr_in \<Rightarrow> u32 \<Rightarrow> u32 \<Rightarrow> player \<Rightarrow> player + player" where
  "playback_parameter_sets W dest timestamp ssrc st =
     (case rtsp_session_needs_parameter_sets (w_rtsp W) (pl_shared st) of
        (need, sh1) \<Rightarrow>
          let st1 = st\<lparr>pl_shared := sh1\<rparr> in
          if need then
            (case send_cached_parameter_sets W dest timestamp ssrc st1 of
               (r, st2) \<Rightarrow>
                 if r \<noteq> 0 then Inl st2
                 else Inr (st2\<lparr>pl_shared := rtsp_mark_parameter_sets_sent (w_rtsp W) (pl_shared st2),
                               pl_wait_for_idr := True\<rparr>))
          else Inr st1)"

definition datafifo_process_nalu_for_playback ::
    "world \<Rightarrow> sockaddr_in \<Rightarrow> u32 \<Rightarrow> u32 \<Rightarrow> bytes option \<Rightarrow> u8 \<Rightarrow> bool \<Rightarrow> player \<Rightarrow> int \<times> player" where
  "datafifo_process_nalu_for_playback W dest timestamp ssrc nalup marker can_send st =
     (case nalup of
        None \<Rightarrow> (0, st)
      | Some nalu \<Rightarrow>
          if length nalu < 2 then (0, st)
          else
            let nal_type = h265_nalu_type nalu;
                st1 = (if h265_is_parameter_set nal_type
                       then snd (h265_cache_parameter_set W (Some nalu) st) else st) in
            if \<not> can_send then (0, st1)
            else case playback_parameter_sets W dest timestamp ssrc st1 of
              Inl st2 \<Rightarrow> (0, st2)
            | Inr st2 \<Rightarrow>
                if pl_wait_for_idr st2 \<and> \<not> h265_is_idr nal_type then (0, st2)
                else send_nalu_from W dest timestamp ssrc (Some nalu) marker (st2\<lparr>pl_wait_for_idr := False\<rparr>))"

section \<open>The local copies of the scanner\<close>

function h265_find_start_code_local :: "bytes \<Rightarrow> nat \<Rightarrow> (nat \<times> nat) option" where
  "h265_find_start_code_local buf i =
     (if i + 3 \<le> length buf then
        if buf ! i = 0 \<and> buf ! (i + 1) = 0 \<and> buf ! (i + 2) = 1 then Some (i, 3)
        else if i + 4 \<le> length buf \<and> buf ! i = 0 \<and> buf ! (i + 1) = 0 \<and>
                buf ! (i + 2) = 0 \<and> buf ! (i + 3) = 1 then Some (i, 4)
        else h265_find_start_code_local buf (i + 1)
      else None)"
  by pat_completeness auto
termination
  by (relation "measure (\<lambda>(buf, i). length buf - i)") auto

declare h265_find_start_code_local.simps [simp del]

definition h265_buffer_starts_with_start_code_local :: "bytes option \<Rightarrow> bool" where
  "h265_buffer_starts_with_start_code_local bufp =
     (case bufp of
        None \<Rightarrow> False
      | Some buf \<Rightarrow>
          if length buf < 3 then False
          else if buf ! 0 = 0 \<and> buf ! 1 = 0 \<and> buf ! 2 = 1 then True
          else length buf \<ge> 4 \<and> buf ! 0 = 0 \<and> buf ! 1 = 0 \<and> buf ! 2 = 0 \<and> buf ! 3 = 1)"

text \<open>The copy computes the same function as the scanner of \<open>rtp.c\<close>.\<close>

lemma h265_find_start_code_local_eq: "h265_find_start_code_local = find_start_code"
proof (rule ext, rule ext)
  fix buf i
  show "h265_find_start_code_local buf i = find_start_code buf i"
  proof (induction buf i rule: h265_find_start_code_local.induct)
    case (1 buf i)
    then show ?case
      by (simp add: h265_find_start_code_local.simps [of buf i] find_start_code.simps [of buf i])
  qed
qed

interpretation local_scan: start_code_scanner h265_find_start_code_local "\<lambda>_. True"
  unfolding h265_find_start_code_local_eq by (rule rtp_scan.start_code_scanner_axioms)

lemma starts_with_local_eq:
  "h265_buffer_starts_with_start_code_local bufp \<longleftrightarrow> buffer_starts_with_start_code bufp \<noteq> None"
  by (auto simp: h265_buffer_starts_with_start_code_local_def buffer_starts_with_start_code_def
      split: option.splits)

section \<open>Buffers and packs\<close>

function playback_loop ::
    "world \<Rightarrow> sockaddr_in \<Rightarrow> u32 \<Rightarrow> u32 \<Rightarrow> bytes \<Rightarrow> u8 \<Rightarrow> bool \<Rightarrow> nat \<Rightarrow> player \<Rightarrow> int \<times> player" where
  "playback_loop W dest timestamp ssrc buf last_marker can_send search_offset st =
     (case next_nalu h265_find_start_code_local buf search_offset of
        None \<Rightarrow> (0, st)
      | Some (nalu_start, nalu_end, next_sc_pos) \<Rightarrow>
          if nalu_end > nalu_start then
            case datafifo_process_nalu_for_playback W dest timestamp ssrc (Some (bslice buf nalu_start nalu_end))
                   (if next_sc_pos = None then last_marker else 0) can_send st of
              (r, st1) \<Rightarrow>
                if r \<noteq> 0 then (-1, st1)
                else (case next_sc_pos of
                        None \<Rightarrow> (0, st1)
                      | Some q \<Rightarrow> playback_loop W dest timestamp ssrc buf last_marker can_send q st1)
          else (case next_sc_pos of
                  None \<Rightarrow> (0, st)
                | Some q \<Rightarrow> playback_loop W dest timestamp ssrc buf last_marker can_send q st))"
  by pat_completeness auto
termination
  by (relation "measure (\<lambda>(W, dest, ts, ssrc, buf, m, c, off, _). length buf - off)")
    (use local_scan.next_nalu_Some(5) [OF TrueI] in \<open>fastforce+\<close>)

declare playback_loop.simps [simp del]

definition datafifo_process_h265_buffer_for_playback ::
    "world \<Rightarrow> sockaddr_in \<Rightarrow> u32 \<Rightarrow> u32 \<Rightarrow> bytes option \<Rightarrow> u8 \<Rightarrow> bool \<Rightarrow> player \<Rightarrow> int \<times> player" where
  "datafifo_process_h265_buffer_for_playback W dest timestamp ssrc bufp last_marker can_send st =
     (case bufp of
        None \<Rightarrow> (0, st)
      | Some buf \<Rightarrow>
          if length buf < 2 then (0, st)
          else if \<not> h265_buffer_starts_with_start_code_local (Some buf)
          then datafifo_process_nalu_for_playback W dest timestamp ssrc (Some buf) last_marker can_send st
          else playback_loop W dest timestamp ssrc buf last_marker can_send 0 st)"

definition datafifo_process_pack_for_playback ::
    "world \<Rightarrow> sockaddr_in \<Rightarrow> u32 \<Rightarrow> u32 \<Rightarrow> ipc_pack option \<Rightarrow> u8 \<Rightarrow> bool \<Rightarrow> player \<Rightarrow> int \<times> player" where
  "datafifo_process_pack_for_playback W dest timestamp ssrc packp marker can_send st =
     (case nalu_datafifo_mmap_pack (w_mmap W) packp (pl_mem st) of
        (None, s1) \<Rightarrow> (-1, st\<lparr>pl_mem := s1\<rparr>)
      | (Some virt_addr, s1) \<Rightarrow>
          let len = (case packp of None \<Rightarrow> 0 | Some pack \<Rightarrow> unat (pk_len pack)) in
          case datafifo_process_h265_buffer_for_playback W dest timestamp ssrc
                 (vm_bytes (w_mmap W) s1 virt_addr len) marker can_send (st\<lparr>pl_mem := s1\<rparr>) of
            (ret, st1) \<Rightarrow>
              (case nalu_datafifo_munmap_pack (w_mmap W) packp virt_addr (pl_mem st1) of
                 (munmap_ret, s2) \<Rightarrow>
                   (if munmap_ret \<noteq> 0 then (if ret = 0 then -1 else ret) else ret, st1\<lparr>pl_mem := s2\<rparr>)))"

section \<open>The buffer routine visits the NALUs of the buffer\<close>

fun play_each :: "(bytes option \<Rightarrow> u8 \<Rightarrow> player \<Rightarrow> int \<times> player) \<Rightarrow> (bytes option \<times> u8) list \<Rightarrow> player \<Rightarrow> int \<times> player" where
  "play_each f [] st = (0, st)"
| "play_each f ((n, m) # xs) st =
     (case f n m st of (r, st1) \<Rightarrow> if r \<noteq> 0 then (-1, st1) else play_each f xs st1)"

lemma playback_loop_eq:
  "playback_loop W dest ts ssrc buf m c off st =
     play_each (\<lambda>n k. datafifo_process_nalu_for_playback W dest ts ssrc n k c) (marked_units buf off m) st"
proof (induction W dest ts ssrc buf m c off st rule: playback_loop.induct)
  case (1 W dest ts ssrc buf m c off st)
  note eq = playback_loop.simps [of W dest ts ssrc buf m c off st, unfolded h265_find_start_code_local_eq]
  show ?case
  proof (cases "next_nalu find_start_code buf off")
    case None
    with eq show ?thesis by (simp add: marked_units_None)
  next
    case (Some x)
    then obtain st0 e nx where x: "next_nalu find_start_code buf off = Some (st0, e, nx)"
      by (cases x) auto
    obtain r1 st1 where s: "datafifo_process_nalu_for_playback W dest ts ssrc (Some (bslice buf st0 e))
        (if nx = None then m else 0) c st = (r1, st1)"
      by fastforce
    show ?thesis
    proof (cases nx)
      case None
      with eq x s show ?thesis by (auto simp: marked_units_Some)
    next
      case (Some p)
      note IH = "1.IH" [unfolded h265_find_start_code_local_eq, OF x refl refl]
      show ?thesis
      proof (cases "st0 < e")
        case True
        with IH(1) [OF True s [symmetric] _ Some] eq x s Some show ?thesis
          by (auto simp: marked_units_Some [OF x] split: prod.splits)
      next
        case False
        with IH(2) [OF False Some] eq x Some show ?thesis by (simp add: marked_units_Some [OF x])
      qed
    qed
  qed
qed

lemma process_nalu_ret:
  "datafifo_process_nalu_for_playback W dest ts ssrc nalup m c st = (r, st') \<Longrightarrow> r = 0 \<or> r = -1"
  using send_h265_nalu_rtp_ret
  by (fastforce simp: datafifo_process_nalu_for_playback_def send_nalu_from_def Let_def
      split: option.splits if_splits sum.splits prod.splits)

lemma process_buffer_eq:
  "datafifo_process_h265_buffer_for_playback W dest ts ssrc bufp m c st =
     play_each (\<lambda>n k. datafifo_process_nalu_for_playback W dest ts ssrc n k c) (buffer_nalus bufp m) st"
proof (cases bufp)
  case (Some buf)
  have sc: "h265_buffer_starts_with_start_code_local (Some buf) \<longleftrightarrow> sc_at buf 0 3 \<or> sc_at buf 0 4"
    using buffer_starts_with_start_code_iff [of "Some buf"] sc_at_cases [of buf 0]
    by (cases "buffer_starts_with_start_code (Some buf)") (auto simp: starts_with_local_eq)
  obtain r1 st1 where s: "datafifo_process_nalu_for_playback W dest ts ssrc (Some buf) m c st = (r1, st1)"
    by fastforce
  from process_nalu_ret [OF s] sc s Some show ?thesis
    by (auto simp: datafifo_process_h265_buffer_for_playback_def buffer_nalus_def playback_loop_eq)
qed (simp add: datafifo_process_h265_buffer_for_playback_def buffer_nalus_def)

section \<open>The cache\<close>

text \<open>Each entry holds a NALU of its own type, of 2 to 16384 bytes.\<close>

definition cache_inv :: "(param_kind \<Rightarrow> bytes option) \<Rightarrow> bool" where
  "cache_inv c \<longleftrightarrow> (\<forall>k. case c k of None \<Rightarrow> True | Some d \<Rightarrow>
     h265_param_cache_for_type (h265_nalu_type d) = Some k \<and> 2 \<le> length d \<and> length d \<le> 16384)"

lemma cache_inv_iff:
  "cache_inv c \<longleftrightarrow> (\<forall>k d. c k = Some d \<longrightarrow>
     h265_param_cache_for_type (h265_nalu_type d) = Some k \<and> 2 \<le> length d \<and> length d \<le> 16384)"
  by (simp add: cache_inv_def split: option.split)

lemma cache_inv_update:
  "cache_inv c \<Longrightarrow> h265_param_cache_for_type (h265_nalu_type d) = Some k \<Longrightarrow> 2 \<le> length d \<Longrightarrow>
     length d \<le> 16384 \<Longrightarrow> cache_inv (c(k := Some d))"
  by (auto simp: cache_inv_iff)

lemma cache_parameter_set_frame [frame]:
  "pl_shared (snd (h265_cache_parameter_set W n st)) = pl_shared st"
  "pl_wait_for_idr (snd (h265_cache_parameter_set W n st)) = pl_wait_for_idr st"
  "pl_seq (snd (h265_cache_parameter_set W n st)) = pl_seq st"
  "pl_udp (snd (h265_cache_parameter_set W n st)) = pl_udp st"
  "pl_mem (snd (h265_cache_parameter_set W n st)) = pl_mem st"
  by (auto simp: h265_cache_parameter_set_def Let_def split: option.splits)

lemma cache_parameter_set_inv:
  "cache_inv (pl_cache st) \<Longrightarrow> cache_inv (pl_cache (snd (h265_cache_parameter_set W n st)))"
  by (auto simp: h265_cache_parameter_set_def Let_def H265_PARAM_SET_MAX_SIZE_def
      intro!: cache_inv_update split: option.splits)

lemma is_parameter_set_iff: "h265_is_parameter_set t \<longleftrightarrow> h265_param_cache_for_type t \<noteq> None"
  by (simp add: h265_is_parameter_set_def h265_param_cache_for_type_def)

lemma send_nalu_from_frame [frame]:
  assumes "send_nalu_from W dest ts ssrc n m st = (r, st')"
  shows "pl_cache st' = pl_cache st" "pl_shared st' = pl_shared st" "pl_wait_for_idr st' = pl_wait_for_idr st"
    "pl_mem st' = pl_mem st"
    "emitted dest ts ssrc (nalu_plan n m) (pl_seq st) (pl_udp st) r (pl_seq st') (pl_udp st')"
  using assms nalu.send_emits by (auto simp: send_nalu_from_def split: prod.splits)

text \<open>The three parameter sets, in the order in which they are sent.\<close>

definition param_plan :: "(param_kind \<Rightarrow> bytes option) \<Rightarrow> (bytes \<times> u8) list" where
  "param_plan c = nalu_plan (c VPS) 0 @ nalu_plan (c SPS) 0 @ nalu_plan (c PPS) 0"

lemma send_cached_frame:
  assumes "send_cached_parameter_sets W dest ts ssrc st = (r, st')"
  shows "pl_cache st' = pl_cache st" "pl_shared st' = pl_shared st" "pl_wait_for_idr st' = pl_wait_for_idr st"
    "pl_mem st' = pl_mem st"
  using assms
  by (auto simp: send_cached_parameter_sets_def frame split: if_splits prod.splits)

lemma send_cached_emits:
  assumes "send_cached_parameter_sets W dest ts ssrc st = (r, st')"
  shows "emitted dest ts ssrc (if h265_have_all_parameter_sets st then param_plan (pl_cache st) else [])
    (pl_seq st) (pl_udp st) r (pl_seq st') (pl_udp st')"
proof (cases "h265_have_all_parameter_sets st")
  case False
  with assms show ?thesis by (auto simp: send_cached_parameter_sets_def emitted_none)
next
  case True
  obtain r1 st1 where s1: "send_nalu_from W dest ts ssrc (pl_cache st VPS) 0 st = (r1, st1)" by fastforce
  obtain r2 st2 where s2: "send_nalu_from W dest ts ssrc (pl_cache st1 SPS) 0 st1 = (r2, st2)" by fastforce
  obtain r3 st3 where s3: "send_nalu_from W dest ts ssrc (pl_cache st2 PPS) 0 st2 = (r3, st3)" by fastforce
  note c = send_nalu_from_frame(1) [OF s1] send_nalu_from_frame(1) [OF s2]
  note e = send_nalu_from_frame(5) [OF s1] send_nalu_from_frame(5) [OF s2] send_nalu_from_frame(5) [OF s3]
  consider "r1 \<noteq> 0" "r = -1" "st' = st1" | "r1 = 0" "r2 \<noteq> 0" "r = -1" "st' = st2"
    | "r1 = 0" "r2 = 0" "r3 \<noteq> 0" "r = -1" "st' = st3" | "r1 = 0" "r2 = 0" "r3 = 0" "r = 0" "st' = st3"
    using assms True s1 s2 s3 by (auto simp: send_cached_parameter_sets_def split: if_splits)
  then show ?thesis
  proof cases
    case 1
    with True c e(1) show ?thesis by (auto simp: param_plan_def intro: emitted_stop)
  next
    case 2
    then have "emitted dest ts ssrc (nalu_plan (pl_cache st SPS) 0 @ nalu_plan (pl_cache st PPS) 0)
        (pl_seq st1) (pl_udp st1) (-1) (pl_seq st2) (pl_udp st2)"
      using c e(2) by (auto intro: emitted_stop)
    with 2 True c e(1) show ?thesis by (auto simp: param_plan_def intro: emitted_seq)
  next
    case 3
    with c e(2,3) have "emitted dest ts ssrc (nalu_plan (pl_cache st SPS) 0 @ nalu_plan (pl_cache st PPS) 0)
        (pl_seq st1) (pl_udp st1) (-1) (pl_seq st3) (pl_udp st3)"
      by (auto intro: emitted_seq emitted_weaken)
    with 3 True c e(1) show ?thesis by (auto simp: param_plan_def intro: emitted_seq)
  next
    case 4
    with c e(2,3) have "emitted dest ts ssrc (nalu_plan (pl_cache st SPS) 0 @ nalu_plan (pl_cache st PPS) 0)
        (pl_seq st1) (pl_udp st1) 0 (pl_seq st3) (pl_udp st3)"
      by (auto intro: emitted_seq)
    with 4 True c e(1) show ?thesis by (auto simp: param_plan_def intro: emitted_seq)
  qed
qed

section \<open>One NALU, any network, any interleaving\<close>

text \<open>The caches after the NALU was looked at, and the flag that the sender finds.\<close>

definition looked_at :: "world \<Rightarrow> bytes \<Rightarrow> player \<Rightarrow> player" where
  "looked_at W n st = (if h265_is_parameter_set (h265_nalu_type n)
     then snd (h265_cache_parameter_set W (Some n) st) else st)"

definition cache_after :: "world \<Rightarrow> bytes \<Rightarrow> player \<Rightarrow> param_kind \<Rightarrow> bytes option" where
  "cache_after W n st = pl_cache (looked_at W n st)"

lemma looked_at_frame [frame]:
  "pl_shared (looked_at W n st) = pl_shared st" "pl_wait_for_idr (looked_at W n st) = pl_wait_for_idr st"
  "pl_seq (looked_at W n st) = pl_seq st" "pl_udp (looked_at W n st) = pl_udp st"
  "pl_mem (looked_at W n st) = pl_mem st"
  by (simp_all add: looked_at_def frame)

lemma looked_at_inv: "cache_inv (pl_cache st) \<Longrightarrow> cache_inv (pl_cache (looked_at W n st))"
  by (simp add: looked_at_def cache_parameter_set_inv)

lemma process_nalu_short:
  "\<not> 2 \<le> length n \<Longrightarrow> datafifo_process_nalu_for_playback W dest ts ssrc (Some n) m c st = (0, st)"
  by (simp add: datafifo_process_nalu_for_playback_def)

lemma process_nalu_body:
  "2 \<le> length n \<Longrightarrow> datafifo_process_nalu_for_playback W dest ts ssrc (Some n) m c st =
     (if \<not> c then (0, looked_at W n st)
      else case playback_parameter_sets W dest ts ssrc (looked_at W n st) of
        Inl st2 \<Rightarrow> (0, st2)
      | Inr st2 \<Rightarrow>
          if pl_wait_for_idr st2 \<and> \<not> h265_is_idr (h265_nalu_type n) then (0, st2)
          else send_nalu_from W dest ts ssrc (Some n) m (st2\<lparr>pl_wait_for_idr := False\<rparr>))"
  by (simp only: datafifo_process_nalu_for_playback_def Let_def option.case not_less looked_at_def [symmetric]) simp

definition need_seen :: "world \<Rightarrow> player \<Rightarrow> bool" where
  "need_seen W st = se_need_parameter_sets (sh_session (lock_mutex (w_rtsp W) (pl_shared st)))"

definition all_filled :: "(param_kind \<Rightarrow> bytes option) \<Rightarrow> bool" where
  "all_filled c \<longleftrightarrow> entry_filled (c VPS) \<and> entry_filled (c SPS) \<and> entry_filled (c PPS)"

text \<open>The packets that a NALU may cause, in order.\<close>

definition nalu_script :: "world \<Rightarrow> bool \<Rightarrow> bytes \<Rightarrow> u8 \<Rightarrow> player \<Rightarrow> (bytes \<times> u8) list" where
  "nalu_script W can_send n m st =
     (if \<not> can_send then []
      else if need_seen W st then
        (if all_filled (cache_after W n st)
         then param_plan (cache_after W n st) @
           (if h265_is_idr (h265_nalu_type n) then nalu_plan (Some n) m else [])
         else [])
      else if pl_wait_for_idr st \<and> \<not> h265_is_idr (h265_nalu_type n) then []
      else nalu_plan (Some n) m)"

lemma emitted_shrink: "emitted dest ts ssrc plan q u r q' u' \<Longrightarrow> emitted dest ts ssrc plan q u (-1) q' u'"
  by (auto simp: emitted_def)

lemma emitted_stay: "emitted dest ts ssrc plan q u (-1) q u"
  by (rule emitted_fail) simp_all

lemma emitted_extend:
  "emitted dest ts ssrc plan q u r q' u' \<Longrightarrow> emitted dest ts ssrc (plan @ plan') q u (-1) q' u'"
  by (cases "r = 0") (auto intro: emitted_stop emitted_seq [OF _ emitted_fail])

lemma playback_parameter_sets_cases:
  assumes "\<not> need_seen W st"
  shows "playback_parameter_sets W dest ts ssrc st =
    Inr (st\<lparr>pl_shared := lock_mutex (w_rtsp W) (pl_shared st)\<rparr>)"
  using assms
  by (simp add: playback_parameter_sets_def rtsp_session_needs_parameter_sets_def need_seen_def Let_def)

lemma playback_parameter_sets_need:
  assumes "need_seen W st"
    and "send_cached_parameter_sets W dest ts ssrc
      (st\<lparr>pl_shared := lock_mutex (w_rtsp W) (pl_shared st)\<rparr>) = (r, st2)"
  shows "playback_parameter_sets W dest ts ssrc st = (if r \<noteq> 0 then Inl st2
      else Inr (st2\<lparr>pl_shared := rtsp_mark_parameter_sets_sent (w_rtsp W) (pl_shared st2),
                    pl_wait_for_idr := True\<rparr>))"
  using assms
  by (simp add: playback_parameter_sets_def rtsp_session_needs_parameter_sets_def need_seen_def Let_def)

text \<open>The sender finds the flag: the parameter sets, and the NALU only after all of them and if it is an IDR.\<close>

lemma process_nalu_need:
  assumes p: "datafifo_process_nalu_for_playback W dest ts ssrc (Some n) m True st = (r, st')" and len: "2 \<le> length n"
    and need: "need_seen W st"
  shows "emitted dest ts ssrc (nalu_script W True n m st) (pl_seq st) (pl_udp st) (-1) (pl_seq st') (pl_udp st')"
proof -
  let ?st1 = "looked_at W n st"
  have need1: "need_seen W ?st1" using need by (simp add: need_seen_def frame)
  obtain r1 st2 where s: "send_cached_parameter_sets W dest ts ssrc
      (?st1\<lparr>pl_shared := lock_mutex (w_rtsp W) (pl_shared ?st1)\<rparr>) = (r1, st2)" by fastforce
  note R = playback_parameter_sets_need [OF need1 s]
  note body = p [unfolded process_nalu_body [OF len] R]
  have have_all: "h265_have_all_parameter_sets (?st1\<lparr>pl_shared := x\<rparr>) = all_filled (pl_cache ?st1)" for x
    by (simp add: h265_have_all_parameter_sets_def all_filled_def)
  from send_cached_emits [OF s] have e: "emitted dest ts ssrc
      (if all_filled (pl_cache ?st1) then param_plan (pl_cache ?st1) else [])
      (pl_seq st) (pl_udp st) r1 (pl_seq st2) (pl_udp st2)"
    by (cases "all_filled (pl_cache ?st1)") (simp_all add: have_all frame)
  show ?thesis
  proof (cases "r1 = 0 \<and> h265_is_idr (h265_nalu_type n)")
    case idr: True
    then have al: "all_filled (pl_cache ?st1)"
      using s have_all by (auto simp: send_cached_parameter_sets_def split: if_splits)
    from body idr have "send_nalu_from W dest ts ssrc (Some n) m
        (st2\<lparr>pl_shared := rtsp_mark_parameter_sets_sent (w_rtsp W) (pl_shared st2), pl_wait_for_idr := False\<rparr>) = (r, st')"
      by simp
    from send_nalu_from_frame(5) [OF this] have "emitted dest ts ssrc (nalu_plan (Some n) m)
        (pl_seq st2) (pl_udp st2) (-1) (pl_seq st') (pl_udp st')"
      by (auto intro: emitted_shrink)
    with e idr al need show ?thesis by (auto simp: nalu_script_def cache_after_def intro: emitted_seq)
  next
    case False
    with body have "pl_seq st' = pl_seq st2" "pl_udp st' = pl_udp st2" by (auto split: if_splits)
    with e need show ?thesis
      by (auto simp: nalu_script_def cache_after_def intro: emitted_extend emitted_shrink)
  qed
qed

lemma process_nalu_script:
  assumes p: "datafifo_process_nalu_for_playback W dest ts ssrc (Some n) m c st = (r, st')" and len: "2 \<le> length n"
  shows "emitted dest ts ssrc (nalu_script W c n m st) (pl_seq st) (pl_udp st) (-1) (pl_seq st') (pl_udp st')"
proof -
  consider "\<not> c" | "c" "need_seen W st" | "c" "\<not> need_seen W st" by blast
  then show ?thesis
  proof cases
    case 1
    with p show ?thesis
      by (auto simp: process_nalu_body [OF len] nalu_script_def frame intro: emitted_stay)
  next
    case 2
    with process_nalu_need [OF _ len 2(2)] p show ?thesis by simp
  next
    case 3
    then have "\<not> need_seen W (looked_at W n st)" by (simp add: need_seen_def frame)
    from p [unfolded process_nalu_body [OF len] playback_parameter_sets_cases [OF this]] 3 show ?thesis
      by (auto simp: nalu_script_def frame intro: emitted_stay emitted_shrink
          dest!: send_nalu_from_frame(5) split: if_splits)
  qed
qed

section \<open>The gate: an abstract machine of the live path\<close>

text \<open>
  What the live path decides, without network, memory or threads: which NALUs are transmitted.
  \<open>ga_need\<close> is the flag of the session, \<open>ga_wait\<close> the sender's \<open>wait_for_idr\<close>.
\<close>

record gate =
  ga_cache :: "param_kind \<Rightarrow> bytes option"
  ga_need :: bool
  ga_wait :: bool

definition gate_of :: "player \<Rightarrow> gate" where
  "gate_of st = \<lparr>ga_cache = pl_cache st,
     ga_need = se_need_parameter_sets (sh_session (pl_shared st)), ga_wait = pl_wait_for_idr st\<rparr>"

definition gate_cache :: "bytes \<Rightarrow> gate \<Rightarrow> gate" where
  "gate_cache n g =
     (case h265_param_cache_for_type (h265_nalu_type n) of
        Some k \<Rightarrow> if length n \<le> 16384 then g\<lparr>ga_cache := (ga_cache g)(k := Some n)\<rparr> else g
      | None \<Rightarrow> g)"

definition gate_nalu :: "bool \<Rightarrow> bytes \<Rightarrow> u8 \<Rightarrow> gate \<Rightarrow> (bytes \<times> u8) list \<times> gate" where
  "gate_nalu can_send n m g =
     (if length n < 2 then ([], g)
      else
        let g1 = gate_cache n g;
            sets = (if ga_need g1
                    then map (\<lambda>k. (the (ga_cache g1 k), 0)) [VPS, SPS, PPS] else []);
            g2 = g1\<lparr>ga_need := False, ga_wait := ga_wait g1 \<or> ga_need g1\<rparr>
        in if \<not> can_send \<or> ga_need g1 \<and> \<not> all_filled (ga_cache g1) then ([], g1)
           else if ga_wait g2 \<and> \<not> h265_is_idr (h265_nalu_type n) then (sets, g2)
           else (sets @ [(n, m)], g2\<lparr>ga_wait := False\<rparr>))"

text \<open>A run over frames: each NALU with its target, timestamp and whether a client is playing.\<close>

type_synonym play_input = "bool \<times> sockaddr_in \<times> u32 \<times> bytes \<times> u8"
type_synonym play_output = "sockaddr_in \<times> u32 \<times> bytes \<times> u8"

fun gate_run :: "play_input list \<Rightarrow> gate \<Rightarrow> play_output list \<times> gate" where
  "gate_run [] g = ([], g)"
| "gate_run ((c, dest, ts, n, m) # xs) g =
     (case gate_nalu c n m g of
        (out, g1) \<Rightarrow>
          (case gate_run xs g1 of (outs, g2) \<Rightarrow> (map (\<lambda>(x, k). (dest, ts, x, k)) out @ outs, g2)))"

lemma gate_run_append:
  "gate_run (xs @ ys) g =
     (case gate_run xs g of (o1, g1) \<Rightarrow> (case gate_run ys g1 of (o2, g2) \<Rightarrow> (o1 @ o2, g2)))"
  by (induction xs g rule: gate_run.induct) (auto split: prod.splits)

text \<open>
  \<open>decodable outs\<close>: nothing, or VPS, SPS, PPS in this order, followed by nothing or by an IDR
  picture and whatever comes after it.
\<close>

definition nalu_kind :: "play_output \<Rightarrow> param_kind option" where
  "nalu_kind x = (case x of (_, _, n, _) \<Rightarrow> h265_param_cache_for_type (h265_nalu_type n))"

definition idr_first :: "play_output list \<Rightarrow> bool" where
  "idr_first outs \<longleftrightarrow>
     (case outs of [] \<Rightarrow> True | (_, _, n, _) # _ \<Rightarrow> h265_is_idr (h265_nalu_type n))"

definition decodable :: "play_output list \<Rightarrow> bool" where
  "decodable outs \<longleftrightarrow> outs = [] \<or>
     map nalu_kind (take 3 outs) = [Some VPS, Some SPS, Some PPS] \<and> idr_first (drop 3 outs)"

lemma gate_cache_frame [simp]: "ga_need (gate_cache n g) = ga_need g" "ga_wait (gate_cache n g) = ga_wait g"
  by (auto simp: gate_cache_def split: option.splits)

lemma gate_cache_inv: "cache_inv (ga_cache g) \<Longrightarrow> 2 \<le> length n \<Longrightarrow> cache_inv (ga_cache (gate_cache n g))"
  by (auto simp: gate_cache_def intro: cache_inv_update split: option.splits)

lemma gate_nalu_inv: "cache_inv (ga_cache g) \<Longrightarrow> cache_inv (ga_cache (snd (gate_nalu c n m g)))"
  by (auto simp: gate_nalu_def Let_def gate_cache_inv)

lemma gate_waiting:
  assumes "gate_run xs g = (outs, g')" and "\<not> ga_need g" and "ga_wait g"
  shows "idr_first outs"
  using assms
proof (induction xs arbitrary: g outs)
  case (Cons x xs)
  obtain c dest ts n m where x: "x = (c, dest, ts, n, m)" by (metis prod_cases5)
  obtain out g1 where o: "gate_nalu c n m g = (out, g1)" by fastforce
  obtain outs' where r: "gate_run xs g1 = (outs', g')" and outs: "outs = map (\<lambda>(x, k). (dest, ts, x, k)) out @ outs'"
    using Cons.prems(1) x o by (auto split: prod.splits)
  consider "out = []" "\<not> ga_need g1" "ga_wait g1" | "out = [(n, m)]" "h265_is_idr (h265_nalu_type n)"
    using o Cons.prems(2,3) by (auto simp: gate_nalu_def Let_def split: if_splits)
  then show ?case
    by cases (use Cons.IH [OF r] outs in \<open>auto simp: idr_first_def\<close>)
qed (simp add: idr_first_def)

lemma filled_kind:
  "cache_inv c \<Longrightarrow> entry_filled (c k) \<Longrightarrow>
     h265_param_cache_for_type (h265_nalu_type (the (c k))) = Some k"
  by (auto simp: entry_filled_def cache_inv_iff split: option.splits)

lemma gate_decodable:
  assumes "gate_run xs g = (outs, g')" and "ga_need g" and "cache_inv (ga_cache g)"
  shows "decodable outs"
  using assms
proof (induction xs arbitrary: g outs)
  case (Cons x xs)
  obtain c dest ts n m where x: "x = (c, dest, ts, n, m)" by (metis prod_cases5)
  obtain out g1 where o: "gate_nalu c n m g = (out, g1)" by fastforce
  obtain outs' where r: "gate_run xs g1 = (outs', g')" and outs: "outs = map (\<lambda>(x, k). (dest, ts, x, k)) out @ outs'"
    using Cons.prems(1) x o by (auto split: prod.splits)
  have inv1: "cache_inv (ga_cache g1)" using gate_nalu_inv [OF Cons.prems(3), of c n m] o by simp
  show ?case
  proof (cases "length n < 2 \<or> \<not> c \<or> \<not> all_filled (ga_cache (gate_cache n g))")
    case True
    then have "out = []" and "ga_need g1"
      using o Cons.prems(2) by (auto simp: gate_nalu_def Let_def split: if_splits)
    with Cons.IH [OF r _ inv1] outs show ?thesis by simp
  next
    case False
    let ?c = "ga_cache (gate_cache n g)"
    let ?sets = "[(the (?c VPS), 0), (the (?c SPS), 0), (the (?c PPS), 0)]"
    have inv: "cache_inv ?c" using False Cons.prems(3) by (auto intro: gate_cache_inv)
    have kinds: "map nalu_kind (map (\<lambda>(x, k). (dest, ts, x, k)) ?sets) = [Some VPS, Some SPS, Some PPS]"
      using False filled_kind [OF inv] by (simp add: nalu_kind_def all_filled_def)
    consider "out = ?sets" "\<not> ga_need g1" "ga_wait g1"
      | "out = ?sets @ [(n, m)]" "h265_is_idr (h265_nalu_type n)"
      using o False Cons.prems(2) by (auto simp: gate_nalu_def Let_def split: if_splits)
    then show ?thesis
    proof cases
      case 1
      from gate_waiting [OF r 1(2,3)] have "idr_first outs'" .
      with kinds 1(1) outs show ?thesis by (simp add: decodable_def eval_nat_numeral)
    next
      case 2
      with kinds outs show ?thesis by (simp add: decodable_def eval_nat_numeral idr_first_def)
    qed
  qed
qed (simp add: decodable_def)

section \<open>The live path implements the gate\<close>

text \<open>
  A world in which allocation and the network always succeed and the RTSP thread is idle; the
  refinement below is for such runs, \<open>process_nalu_script\<close> for all others.
\<close>

definition calm :: "world \<Rightarrow> bool" where
  "calm W \<longleftrightarrow> (\<forall>t n. w_alloc W t n) \<and> quiet (w_rtsp W) \<and> net_accepts (w_net W)"

text \<open>The datagrams of a list of transmitted NALUs, numbered from \<open>q\<close>.\<close>

fun output_datagrams :: "u32 \<Rightarrow> u16 \<Rightarrow> play_output list \<Rightarrow> datagram list" where
  "output_datagrams ssrc q [] = []"
| "output_datagrams ssrc q ((dest, ts, n, m) # xs) =
     numbered dest ts ssrc q (nalu_plan (Some n) m) @
     output_datagrams ssrc (q + of_nat (length (nalu_plan (Some n) m))) xs"

lemma output_datagrams_append:
  "output_datagrams ssrc q (xs @ ys) =
     output_datagrams ssrc q xs @
     output_datagrams ssrc (q + of_nat (length (output_datagrams ssrc q xs))) ys"
  by (induction ssrc q xs rule: output_datagrams.induct) (auto simp: add.assoc)

text \<open>\<open>st'\<close> is \<open>st\<close> after the gate transmitted \<open>outs\<close> and moved to \<open>g'\<close>.\<close>

definition transmits :: "u32 \<Rightarrow> player \<Rightarrow> play_output list \<Rightarrow> gate \<Rightarrow> player \<Rightarrow> bool" where
  "transmits ssrc st outs g' st' \<longleftrightarrow>
     udp_sent (pl_udp st') = udp_sent (pl_udp st) @ output_datagrams ssrc (pl_seq st) outs \<and>
     pl_seq st' = pl_seq st + of_nat (length (output_datagrams ssrc (pl_seq st) outs)) \<and>
     gate_of st' = g'"

lemma transmits_trans:
  "transmits ssrc st o1 g1 st1 \<Longrightarrow> transmits ssrc st1 o2 g2 st2 \<Longrightarrow> transmits ssrc st (o1 @ o2) g2 st2"
  by (auto simp: transmits_def output_datagrams_append)

lemma transmits_nothing: "transmits ssrc st [] (gate_of st) st"
  by (simp add: transmits_def)

lemma send_nalu_from_calm:
  assumes "calm W" and "2 \<le> length n"
  obtains st' where "send_nalu_from W dest ts ssrc (Some n) m st = (0, st')"
    and "transmits ssrc st [(dest, ts, n, m)] (gate_of st) st'"
    and "pl_cache st' = pl_cache st"
proof -
  obtain r st' where s: "send_nalu_from W dest ts ssrc (Some n) m st = (r, st')" by fastforce
  have "net_accepts (w_net W)" using assms(1) by (simp add: calm_def)
  from send_h265_nalu_rtp_live [OF this, of "Some n" dest ts ssrc m "pl_seq st" "pl_udp st"] assms(2)
  have r: "r = 0" using s by (auto simp: send_nalu_from_def split: prod.splits)
  note fr = send_nalu_from_frame [OF s [unfolded r]]
  from emitted_ok [OF fr(5)] have "transmits ssrc st [(dest, ts, n, m)] (gate_of st) st'"
    using fr by (simp add: transmits_def gate_of_def)
  with that s r fr(1) show ?thesis by blast
qed

lemma filled_entry:
  assumes "cache_inv c" and "entry_filled (c k)"
  obtains d where "c k = Some d" and "2 \<le> length d"
  using assms by (auto simp: cache_inv_iff entry_filled_def split: option.splits)

lemma send_cached_calm:
  assumes "calm W" and "cache_inv (pl_cache st)" and "all_filled (pl_cache st)"
  obtains st' where "send_cached_parameter_sets W dest ts ssrc st = (0, st')"
    and "transmits ssrc st (map (\<lambda>k. (dest, ts, the (pl_cache st k), 0)) [VPS, SPS, PPS]) (gate_of st) st'"
proof -
  have fl: "entry_filled (pl_cache st VPS)" "entry_filled (pl_cache st SPS)" "entry_filled (pl_cache st PPS)"
    using assms(3) by (simp_all add: all_filled_def)
  obtain v where v: "pl_cache st VPS = Some v" "2 \<le> length v" by (rule filled_entry [OF assms(2) fl(1)])
  obtain s where s: "pl_cache st SPS = Some s" "2 \<le> length s" by (rule filled_entry [OF assms(2) fl(2)])
  obtain p where p: "pl_cache st PPS = Some p" "2 \<le> length p" by (rule filled_entry [OF assms(2) fl(3)])
  obtain s1 where s1: "send_nalu_from W dest ts ssrc (Some v) 0 st = (0, s1)"
      "transmits ssrc st [(dest, ts, v, 0)] (gate_of st) s1" "pl_cache s1 = pl_cache st"
    by (rule send_nalu_from_calm [OF assms(1) v(2)])
  obtain s2 where s2: "send_nalu_from W dest ts ssrc (Some s) 0 s1 = (0, s2)"
      "transmits ssrc s1 [(dest, ts, s, 0)] (gate_of s1) s2" "pl_cache s2 = pl_cache s1"
    by (rule send_nalu_from_calm [OF assms(1) s(2)])
  obtain s3 where s3: "send_nalu_from W dest ts ssrc (Some p) 0 s2 = (0, s3)"
      "transmits ssrc s2 [(dest, ts, p, 0)] (gate_of s2) s3" "pl_cache s3 = pl_cache s2"
    by (rule send_nalu_from_calm [OF assms(1) p(2)])
  have "h265_have_all_parameter_sets st" using fl by (simp add: h265_have_all_parameter_sets_def)
  then have "send_cached_parameter_sets W dest ts ssrc st = (0, s3)"
    using v s p s1 s2 s3 by (simp add: send_cached_parameter_sets_def)
  moreover have "gate_of s1 = gate_of st" "gate_of s2 = gate_of s1"
    using s1(2) s2(2) by (simp_all add: transmits_def)
  then have "transmits ssrc st [(dest, ts, v, 0), (dest, ts, s, 0), (dest, ts, p, 0)] (gate_of st) s3"
    using transmits_trans [OF transmits_trans [OF s1(2) s2(2)] s3(2)] by simp
  ultimately show ?thesis using that v s p by simp
qed

lemma cache_parameter_set_gate:
  assumes "\<forall>t n. w_alloc W t n" and "2 \<le> length n"
  shows "gate_of (if h265_is_parameter_set (h265_nalu_type n)
      then snd (h265_cache_parameter_set W (Some n) st) else st) = gate_cache n (gate_of st)"
  using assms
  by (auto simp: gate_of_def gate_cache_def frame is_parameter_set_iff h265_cache_parameter_set_def
      H265_PARAM_SET_MAX_SIZE_def Let_def split: option.splits)

lemma gate_of_lock [simp]:
  "quiet R \<Longrightarrow> gate_of (st\<lparr>pl_shared := lock_mutex R (pl_shared st)\<rparr>) = gate_of st"
  by (simp add: gate_of_def)

text \<open>The part before the NALU itself: either it stops with nothing sent, or it goes on with the
  parameter sets sent if they were asked for.\<close>

lemma playback_parameter_sets_calm:
  assumes "calm W" and inv: "cache_inv (pl_cache st)" and g: "gate_of st = g"
  shows "if ga_need g \<and> \<not> all_filled (ga_cache g)
    then \<exists>st'. playback_parameter_sets W dest ts ssrc st = Inl st' \<and> transmits ssrc st [] g st'
    else \<exists>st'. playback_parameter_sets W dest ts ssrc st = Inr st' \<and>
      transmits ssrc st
        (if ga_need g then map (\<lambda>k. (dest, ts, the (ga_cache g k), 0)) [VPS, SPS, PPS] else [])
        (g\<lparr>ga_need := False, ga_wait := ga_wait g \<or> ga_need g\<rparr>) st'"
proof -
  have q: "quiet (w_rtsp W)" using assms(1) by (simp add: calm_def)
  let ?sl = "st\<lparr>pl_shared := lock_mutex (w_rtsp W) (pl_shared st)\<rparr>"
  have need: "need_seen W st = ga_need g" and cache: "pl_cache st = ga_cache g"
    using g q by (auto simp: need_seen_def gate_of_def)
  have gl: "gate_of ?sl = g" using q g by simp
  then have same: "transmits ssrc st [] g ?sl" by (simp add: transmits_def)
  show ?thesis
  proof (cases "ga_need g")
    case False
    then have "g\<lparr>ga_need := False\<rparr> = g" by (cases g) simp
    with same have "transmits ssrc st [] (g\<lparr>ga_need := False\<rparr>) ?sl" by (simp only:)
    with False need show ?thesis by (simp add: playback_parameter_sets_cases)
  next
    case True
    then have seen: "need_seen W st" using need by simp
    show ?thesis
    proof (cases "all_filled (ga_cache g)")
      case False
      then have "send_cached_parameter_sets W dest ts ssrc ?sl =
          (-1, ?sl\<lparr>pl_missing_log_count := pl_missing_log_count ?sl + 1\<rparr>)"
        by (simp add: send_cached_parameter_sets_def h265_have_all_parameter_sets_def all_filled_def cache)
      from playback_parameter_sets_need [OF seen this] True False gl show ?thesis
        by (auto simp: transmits_def gate_of_def)
    next
      case filled: True
      obtain st2 where s: "send_cached_parameter_sets W dest ts ssrc ?sl = (0, st2)"
          "transmits ssrc ?sl (map (\<lambda>k. (dest, ts, the (pl_cache ?sl k), 0)) [VPS, SPS, PPS]) (gate_of ?sl) st2"
        using send_cached_calm [of W ?sl dest ts ssrc] assms(1) inv filled cache by auto
      let ?s3 = "st2\<lparr>pl_shared := rtsp_mark_parameter_sets_sent (w_rtsp W) (pl_shared st2), pl_wait_for_idr := True\<rparr>"
      have "transmits ssrc st (map (\<lambda>k. (dest, ts, the (ga_cache g k), 0)) [VPS, SPS, PPS]) g st2"
        using transmits_trans [OF same s(2)] cache gl by simp
      then have "transmits ssrc st (map (\<lambda>k. (dest, ts, the (ga_cache g k), 0)) [VPS, SPS, PPS])
          (g\<lparr>ga_need := False, ga_wait := True\<rparr>) ?s3"
        using q by (auto simp: transmits_def gate_of_def rtsp_mark_parameter_sets_sent_def Let_def)
      with playback_parameter_sets_need [OF seen s(1)] True filled show ?thesis by simp
    qed
  qed
qed

text \<open>The last step, from a state that agrees with the gate.\<close>

lemma playback_finish_calm:
  assumes "calm W" and "2 \<le> length n" and t: "transmits ssrc st outs g st2"
  shows "\<exists>st'. (if pl_wait_for_idr st2 \<and> \<not> h265_is_idr (h265_nalu_type n) then (0, st2)
      else send_nalu_from W dest ts ssrc (Some n) m (st2\<lparr>pl_wait_for_idr := False\<rparr>)) = (0, st') \<and>
    transmits ssrc st (outs @ (if ga_wait g \<and> \<not> h265_is_idr (h265_nalu_type n) then [] else [(dest, ts, n, m)]))
      (if ga_wait g \<and> \<not> h265_is_idr (h265_nalu_type n) then g else g\<lparr>ga_wait := False\<rparr>) st'"
proof (cases "ga_wait g \<and> \<not> h265_is_idr (h265_nalu_type n)")
  case True
  with t show ?thesis by (auto simp: transmits_def gate_of_def)
next
  case False
  obtain st' where s: "send_nalu_from W dest ts ssrc (Some n) m (st2\<lparr>pl_wait_for_idr := False\<rparr>) = (0, st')"
    "transmits ssrc (st2\<lparr>pl_wait_for_idr := False\<rparr>) [(dest, ts, n, m)]
      (gate_of (st2\<lparr>pl_wait_for_idr := False\<rparr>)) st'"
    by (rule send_nalu_from_calm [OF assms(1,2)])
  have "transmits ssrc st outs (g\<lparr>ga_wait := False\<rparr>) (st2\<lparr>pl_wait_for_idr := False\<rparr>)"
    using t by (auto simp: transmits_def gate_of_def)
  from transmits_trans [OF this s(2)] s(1) False t show ?thesis
    by (auto simp: transmits_def gate_of_def)
qed

lemma process_nalu_calm:
  assumes "calm W" and "cache_inv (pl_cache st)"
  shows "\<exists>st'. datafifo_process_nalu_for_playback W dest ts ssrc (Some n) m c st = (0, st') \<and>
    transmits ssrc st (map (\<lambda>(x, k). (dest, ts, x, k)) (fst (gate_nalu c n m (gate_of st))))
      (snd (gate_nalu c n m (gate_of st))) st'"
proof (cases "2 \<le> length n")
  case short: False
  then show ?thesis by (auto simp: process_nalu_short gate_nalu_def transmits_nothing)
next
  case len: True
  define st1 where "st1 = looked_at W n st"
  define g1 where "g1 = gate_cache n (gate_of st)"
  have g1: "gate_of st1 = g1"
    using cache_parameter_set_gate [OF _ len, of W st] assms(1) by (simp add: st1_def looked_at_def g1_def calm_def)
  have inv: "cache_inv (pl_cache st1)" using assms(2) by (simp add: st1_def looked_at_inv)
  have same: "transmits ssrc st [] g1 st1" using g1 by (auto simp: transmits_def st1_def frame)
  note body = process_nalu_body [OF len, of W dest ts ssrc m c st, folded st1_def]
  let ?sets = "if ga_need g1 then map (\<lambda>k. (dest, ts, the (ga_cache g1 k), 0)) [VPS, SPS, PPS] else []"
  let ?g2 = "g1\<lparr>ga_need := False, ga_wait := ga_wait g1 \<or> ga_need g1\<rparr>"
  note sets = playback_parameter_sets_calm [OF assms(1) inv g1, of dest ts ssrc]
  consider "\<not> c" | "c" "ga_need g1 \<and> \<not> all_filled (ga_cache g1)"
    | "c" "\<not> (ga_need g1 \<and> \<not> all_filled (ga_cache g1))" by blast
  then show ?thesis
  proof cases
    case 1
    with body same len show ?thesis by (simp add: gate_nalu_def g1_def [symmetric] Let_def)
  next
    case 2
    with sets obtain st2 where p: "playback_parameter_sets W dest ts ssrc st1 = Inl st2"
      and t: "transmits ssrc st1 [] g1 st2" by auto
    from body p transmits_trans [OF same t] 2 len show ?thesis
      by (simp add: gate_nalu_def g1_def [symmetric] Let_def)
  next
    case 3
    with sets obtain st2 where p: "playback_parameter_sets W dest ts ssrc st1 = Inr st2"
      and t: "transmits ssrc st1 ?sets ?g2 st2" by (auto split: if_splits)
    have t2: "transmits ssrc st ?sets ?g2 st2" using transmits_trans [OF same t] by simp
    have gn: "map (\<lambda>(x, k). (dest, ts, x, k)) (fst (gate_nalu c n m (gate_of st))) =
        ?sets @ (if ga_wait ?g2 \<and> \<not> h265_is_idr (h265_nalu_type n) then [] else [(dest, ts, n, m)])"
      "snd (gate_nalu c n m (gate_of st)) =
        (if ga_wait ?g2 \<and> \<not> h265_is_idr (h265_nalu_type n) then ?g2 else ?g2\<lparr>ga_wait := False\<rparr>)"
      using 3 len by (auto simp: gate_nalu_def g1_def [symmetric] Let_def)
    show ?thesis
      unfolding gn body using p 3(1) playback_finish_calm [OF assms(1) len t2] by simp
  qed
qed

section \<open>Buffers and packs of the live path\<close>

definition buffer_inputs :: "bool \<Rightarrow> sockaddr_in \<Rightarrow> u32 \<Rightarrow> bytes option \<Rightarrow> u8 \<Rightarrow> play_input list" where
  "buffer_inputs c dest ts bufp m = map (\<lambda>(n, k). (c, dest, ts, the n, k)) (buffer_nalus bufp m)"

lemma buffer_nalus_Some: "(n, k) \<in> set (buffer_nalus bufp m) \<Longrightarrow> n \<noteq> None"
  by (auto simp: buffer_nalus_def marked_units_def split: option.splits if_splits)

lemma play_each_calm:
  assumes "calm W" and "cache_inv (pl_cache st)" and "\<forall>(n, k) \<in> set xs. n \<noteq> None"
  shows "\<exists>st'. play_each (\<lambda>n k. datafifo_process_nalu_for_playback W dest ts ssrc n k c) xs st = (0, st') \<and>
    transmits ssrc st (fst (gate_run (map (\<lambda>(n, k). (c, dest, ts, the n, k)) xs) (gate_of st)))
      (snd (gate_run (map (\<lambda>(n, k). (c, dest, ts, the n, k)) xs) (gate_of st))) st'"
  using assms(2,3)
proof (induction xs arbitrary: st)
  case Nil
  then show ?case by (simp add: transmits_nothing)
next
  case (Cons x xs)
  obtain n k where x: "x = (Some n, k)" using Cons.prems(2) by (cases x) auto
  obtain st1 where s: "datafifo_process_nalu_for_playback W dest ts ssrc (Some n) k c st = (0, st1)"
    and t: "transmits ssrc st (map (\<lambda>(x, k). (dest, ts, x, k)) (fst (gate_nalu c n k (gate_of st))))
      (snd (gate_nalu c n k (gate_of st))) st1"
    using process_nalu_calm [OF assms(1) Cons.prems(1)] by blast
  have g1: "gate_of st1 = snd (gate_nalu c n k (gate_of st))" using t by (simp add: transmits_def)
  then have "cache_inv (pl_cache st1)"
    using gate_nalu_inv [of "gate_of st" c n k] Cons.prems(1) by (simp add: gate_of_def) (metis gate.select_convs(1))
  from Cons.IH [OF this] Cons.prems(2) obtain st' where
    "play_each (\<lambda>n k. datafifo_process_nalu_for_playback W dest ts ssrc n k c) xs st1 = (0, st')"
    "transmits ssrc st1 (fst (gate_run (map (\<lambda>(n, k). (c, dest, ts, the n, k)) xs) (gate_of st1)))
      (snd (gate_run (map (\<lambda>(n, k). (c, dest, ts, the n, k)) xs) (gate_of st1))) st'" by auto
  with s t g1 x show ?case
    by (auto simp: split: prod.splits intro: transmits_trans)
qed

lemma process_buffer_calm:
  assumes "calm W" and "cache_inv (pl_cache st)"
  shows "\<exists>st'. datafifo_process_h265_buffer_for_playback W dest ts ssrc bufp m c st = (0, st') \<and>
    transmits ssrc st (fst (gate_run (buffer_inputs c dest ts bufp m) (gate_of st)))
      (snd (gate_run (buffer_inputs c dest ts bufp m) (gate_of st))) st'"
  using play_each_calm [OF assms, of "buffer_nalus bufp m" dest ts ssrc c] buffer_nalus_Some [of _ _ bufp m]
  by (auto simp: process_buffer_eq buffer_inputs_def)

lemma gate_run_inv: "cache_inv (ga_cache g) \<Longrightarrow> cache_inv (ga_cache (snd (gate_run xs g)))"
proof (induction xs arbitrary: g)
  case (Cons x xs)
  obtain c dest ts n m where x: "x = (c, dest, ts, n, m)" by (metis prod_cases5)
  obtain out g1 where o: "gate_nalu c n m g = (out, g1)" by fastforce
  with gate_nalu_inv [OF Cons.prems, of c n m] Cons.IH [of g1] x show ?case by (auto split: prod.splits)
qed simp

text \<open>The memory mappings are touched by the pack routine only.\<close>

lemma process_nalu_mem:
  "datafifo_process_nalu_for_playback W dest ts ssrc nalup m c st = (r, st') \<Longrightarrow> pl_mem st' = pl_mem st"
proof -
  have s: "pl_mem (snd (send_nalu_from W dest ts ssrc n m st)) = pl_mem st" for n m st
    by (cases "send_nalu_from W dest ts ssrc n m st") (simp add: frame)
  have p: "pl_mem (case playback_parameter_sets W dest ts ssrc st of Inl x \<Rightarrow> x | Inr x \<Rightarrow> x) = pl_mem st" for st
    by (auto simp: playback_parameter_sets_def Let_def dest: send_cached_frame(4) split: prod.splits)
  assume x: "datafifo_process_nalu_for_playback W dest ts ssrc nalup m c st = (r, st')"
  show ?thesis
  proof (cases "\<exists>n. nalup = Some n \<and> 2 \<le> length n")
    case True
    then obtain n where n: "nalup = Some n" "2 \<le> length n" by blast
    have "st' = snd (datafifo_process_nalu_for_playback W dest ts ssrc (Some n) m c st)" using x n by simp
    then show ?thesis using p [of "looked_at W n st"]
      by (auto simp: process_nalu_body [OF n(2)] s frame split: sum.splits if_splits)
  next
    case False
    with x show ?thesis by (cases nalup) (auto simp: process_nalu_short, simp add: datafifo_process_nalu_for_playback_def)
  qed
qed

lemma process_buffer_mem:
  "pl_mem (snd (datafifo_process_h265_buffer_for_playback W dest ts ssrc bufp m c st)) = pl_mem st"
proof -
  have "pl_mem (snd (play_each (\<lambda>n k. datafifo_process_nalu_for_playback W dest ts ssrc n k c) xs st)) = pl_mem st" for xs
  proof (induction xs arbitrary: st)
    case (Cons x xs)
    obtain n k where x: "x = (n, k)" by (cases x)
    obtain r st1 where s: "datafifo_process_nalu_for_playback W dest ts ssrc n k c st = (r, st1)" by fastforce
    from process_nalu_mem [OF s] Cons s x show ?case by simp
  qed simp
  then show ?thesis by (simp add: process_buffer_eq)
qed

lemma process_pack_maps:
  assumes "page_size_ok (w_mmap W)" and "maps_fresh (w_mmap W) (pl_mem st)" and "munmap_accepts (w_mmap W)"
    and "datafifo_process_pack_for_playback W dest ts ssrc (Some p) m c st = (r, st')"
  shows "mm_maps (pl_mem st') = mm_maps (pl_mem st)"
proof (cases "nalu_datafifo_mmap_pack (w_mmap W) (Some p) (pl_mem st)")
  case (Pair vo s1)
  show ?thesis
  proof (cases vo)
    case None
    with assms Pair devmem.mmap_fails [of "w_mmap W" "Some p" "pl_mem st" s1] show ?thesis
      by (auto simp: datafifo_process_pack_for_playback_def)
  next
    case (Some v)
    note map = Pair [unfolded Some]
    let ?X = "datafifo_process_h265_buffer_for_playback W dest ts ssrc
        (vm_bytes (w_mmap W) s1 v (unat (pk_len p))) m c (st\<lparr>pl_mem := s1\<rparr>)"
    obtain r1 st1 where X: "?X = (r1, st1)" by fastforce
    have mem: "pl_mem st1 = s1"
      using process_buffer_mem [of W dest ts ssrc "vm_bytes (w_mmap W) s1 v (unat (pk_len p))" m c "st\<lparr>pl_mem := s1\<rparr>"] X
      by simp
    obtain r2 s2 where mu: "nalu_datafifo_munmap_pack (w_mmap W) (Some p) v s1 = (r2, s2)" by fastforce
    with assms(4) map X mem have "pl_mem st' = s2"
      by (auto simp: datafifo_process_pack_for_playback_def Let_def)
    moreover have "r2 = 0" by (rule munmap_of_mapped [OF map assms(3) mu])
    ultimately show ?thesis using devmem.mmap_munmap [OF assms(1,2) map] mu by simp
  qed
qed

lemma process_pack_calm:
  assumes "calm W" and "cache_inv (pl_cache st)" and "page_size_ok (w_mmap W)"
    and "maps_fresh (w_mmap W) (pl_mem st)" and "munmap_accepts (w_mmap W)" and "mmap_accepts (w_mmap W) (pl_mem st)"
    and "pk_phys_addr p \<noteq> 0" and "pk_len p \<noteq> 0"
  shows "\<exists>st'. datafifo_process_pack_for_playback W dest ts ssrc (Some p) m c st = (0, st') \<and>
    transmits ssrc st
      (fst (gate_run (buffer_inputs c dest ts (Some (phys_bytes (w_mmap W) p)) m) (gate_of st)))
      (snd (gate_run (buffer_inputs c dest ts (Some (phys_bytes (w_mmap W) p)) m) (gate_of st))) st'"
proof -
  obtain v s1 where map: "nalu_datafifo_mmap_pack (w_mmap W) (Some p) (pl_mem st) = (Some v, s1)"
    using mmap_pack_live [OF assms(3,4,6-8)] by blast
  let ?st = "st\<lparr>pl_mem := s1\<rparr>" and ?b = "Some (phys_bytes (w_mmap W) p)"
  have g: "gate_of ?st = gate_of st" by (simp add: gate_of_def)
  have inv: "cache_inv (pl_cache ?st)" using assms(2) by simp
  from process_buffer_calm [OF assms(1) inv, of dest ts ssrc ?b m c] obtain st1 where
    b: "datafifo_process_h265_buffer_for_playback W dest ts ssrc ?b m c ?st = (0, st1)"
    and t: "transmits ssrc ?st (fst (gate_run (buffer_inputs c dest ts ?b m) (gate_of st)))
      (snd (gate_run (buffer_inputs c dest ts ?b m) (gate_of st))) st1"
    unfolding g by blast
  have mem: "pl_mem st1 = s1" using process_buffer_mem [of W dest ts ssrc ?b m c ?st] b by simp
  obtain r2 s2 where mu: "nalu_datafifo_munmap_pack (w_mmap W) (Some p) v s1 = (r2, s2)" by fastforce
  then have "r2 = 0" by (rule munmap_of_mapped [OF map assms(5)])
  with map b mem mu t show ?thesis
    by (auto simp: datafifo_process_pack_for_playback_def Let_def devmem.mmap_reads [OF assms(3) map]
        transmits_def gate_of_def)
qed

section \<open>Properties\<close>

text \<open>
  C27: Safety of the live path under any network, allocator and interleaving with the RTSP
  thread: the packets that a NALU causes are a prefix of its script. If nobody plays, there
  are none. If the sender finds the flag of a new session set, they are those of the cached VPS,
  SPS and PPS (all three must be present), then, only after these were all accepted and only
  if the NALU is an IDR picture, those of the NALU. If it waits for an IDR, they are those of the
  NALU when it is one, and none otherwise.
\<close>

theorem playback_nalu_script:
  assumes "datafifo_process_nalu_for_playback W dest ts ssrc (Some n) m c st = (r, st')" and "2 \<le> length n"
  shows "\<exists>k \<le> length (nalu_script W c n m st).
    udp_sent (pl_udp st') = udp_sent (pl_udp st) @
      numbered dest ts ssrc (pl_seq st) (take k (nalu_script W c n m st)) \<and>
    pl_seq st' = pl_seq st + of_nat k"
  using process_nalu_script [OF assms] by (auto simp: emitted_def)

text \<open>A world for the witnesses, and a player at the start of a session.\<close>

definition demo_world :: world where
  "demo_world = \<lparr>w_alloc = (\<lambda>_ _. True), w_rtsp = (\<lambda>_ g. g), w_net = (\<lambda>_ _. 1),
     w_mmap = demo_mmap_env (\<lambda>_. 0)\<rparr>"

definition demo_player :: "bool \<Rightarrow> player" where
  "demo_player need = \<lparr>pl_cache = (\<lambda>_. None), pl_missing_log_count = 0, pl_mallocs = 0,
     pl_shared = \<lparr>sh_session = session_init\<lparr>se_need_parameter_sets := need\<rparr>, sh_locks = 0\<rparr>,
     pl_wait_for_idr = False, pl_seq = 0, pl_udp = \<lparr>udp_calls = 0, udp_sent = []\<rparr>, pl_mem = no_maps\<rparr>"

theorem playback_nalu_script_witness:
  "\<exists>r st'. datafifo_process_nalu_for_playback demo_world null_addr 5 6 (Some [0x02, 1, 9]) 1 True (demo_player True) =
      (r, st') \<and> udp_sent (pl_udp st') = []"
proof -
  obtain r st' where X: "datafifo_process_nalu_for_playback demo_world null_addr 5 6 (Some [0x02, 1, 9]) 1 True
      (demo_player True) = (r, st')" by fastforce
  have "nalu_script demo_world True [0x02, 1, 9] 1 (demo_player True) = []"
    by (simp add: nalu_script_def need_seen_def lock_mutex_def demo_world_def demo_player_def all_filled_def
        cache_after_def looked_at_def entry_filled_def h265_is_parameter_set_def h265_nalu_type_def nal_consts)
  with playback_nalu_script [OF X] X show ?thesis by (auto simp: demo_player_def)
qed

text \<open>A sequence of buffers, as the frames of the encoder deliver them.\<close>

type_synonym play_buffer = "bool \<times> sockaddr_in \<times> u32 \<times> bytes option \<times> u8"

fun play_buffers :: "world \<Rightarrow> u32 \<Rightarrow> play_buffer list \<Rightarrow> player \<Rightarrow> player" where
  "play_buffers W ssrc [] st = st"
| "play_buffers W ssrc ((c, dest, ts, bufp, m) # bs) st =
     play_buffers W ssrc bs (snd (datafifo_process_h265_buffer_for_playback W dest ts ssrc bufp m c st))"

definition play_inputs :: "play_buffer list \<Rightarrow> play_input list" where
  "play_inputs bs = concat (map (\<lambda>(c, dest, ts, bufp, m). buffer_inputs c dest ts bufp m) bs)"

lemma transmits_run:
  assumes "transmits ssrc st (fst (gate_run xs (gate_of st))) (snd (gate_run xs (gate_of st))) st1"
    and "transmits ssrc st1 (fst (gate_run ys (gate_of st1))) (snd (gate_run ys (gate_of st1))) st2"
  shows "transmits ssrc st (fst (gate_run (xs @ ys) (gate_of st))) (snd (gate_run (xs @ ys) (gate_of st))) st2"
proof -
  have "gate_of st1 = snd (gate_run xs (gate_of st))" using assms(1) by (simp add: transmits_def)
  with transmits_trans [OF assms] show ?thesis by (simp add: gate_run_append case_prod_beta)
qed

lemma transmits_inv:
  assumes "transmits ssrc st (fst (gate_run xs (gate_of st))) (snd (gate_run xs (gate_of st))) st1"
    and "cache_inv (pl_cache st)"
  shows "cache_inv (pl_cache st1)"
proof -
  have "pl_cache st1 = ga_cache (snd (gate_run xs (gate_of st)))"
    using assms(1) by (simp add: transmits_def gate_of_def) (metis gate.select_convs(1))
  then show ?thesis using gate_run_inv [of "gate_of st" xs] assms(2) by (simp add: gate_of_def)
qed

lemma play_buffers_calm:
  assumes "calm W" and "cache_inv (pl_cache st)"
  shows "transmits ssrc st (fst (gate_run (play_inputs bs) (gate_of st)))
    (snd (gate_run (play_inputs bs) (gate_of st))) (play_buffers W ssrc bs st)"
  using assms(2)
proof (induction bs arbitrary: st)
  case Nil
  show ?case by (simp add: play_inputs_def transmits_nothing)
next
  case (Cons b bs)
  obtain c dest ts bufp m where b: "b = (c, dest, ts, bufp, m)" by (metis prod_cases5)
  let ?xs = "buffer_inputs c dest ts bufp m"
  obtain st1 where s: "datafifo_process_h265_buffer_for_playback W dest ts ssrc bufp m c st = (0, st1)"
    and t: "transmits ssrc st (fst (gate_run ?xs (gate_of st))) (snd (gate_run ?xs (gate_of st))) st1"
    using process_buffer_calm [OF assms(1) Cons.prems] by blast
  from transmits_run [OF t Cons.IH [OF transmits_inv [OF t Cons.prems]]] s b show ?case
    by (simp add: play_inputs_def)
qed

text \<open>
  C6: What a new client receives: from the moment SETUP or PLAY asked for parameter sets, whatever
  buffers the encoder delivers, the datagrams are those of the NALUs that the gate lets through,
  and these are VPS, SPS, PPS, then an IDR picture, then the rest of the stream, or an initial
  part of this.
\<close>

theorem playback_starts_decodable:
  assumes "calm W" and "cache_inv (pl_cache st)" and "se_need_parameter_sets (sh_session (pl_shared st))"
  shows "let outs = fst (gate_run (play_inputs bs) (gate_of st)); st' = play_buffers W ssrc bs st in
    decodable outs \<and>
    udp_sent (pl_udp st') = udp_sent (pl_udp st) @ output_datagrams ssrc (pl_seq st) outs \<and>
    pl_seq st' = pl_seq st + of_nat (length (output_datagrams ssrc (pl_seq st) outs))"
proof -
  have "decodable (fst (gate_run (play_inputs bs) (gate_of st)))"
    using gate_decodable [of "play_inputs bs" "gate_of st"] assms(2,3)
    by (metis gate.select_convs(1,2) gate_of_def prod.collapse)
  with play_buffers_calm [OF assms(1,2), of ssrc bs] show ?thesis
    by (simp add: transmits_def Let_def)
qed

theorem playback_starts_decodable_witness:
  "let st' = play_buffers demo_world 6
       [(True, null_addr, 5, Some [0x02, 1, 9], 1), (True, null_addr, 5, Some [0x40, 1], 0),
        (True, null_addr, 5, Some [0x42, 1], 0), (True, null_addr, 5, Some [0x44, 1], 0),
        (True, null_addr, 5, Some [0x02, 1, 9], 1), (True, null_addr, 5, Some [0x26, 1, 7], 1)] (demo_player True)
   in map dg_bytes (udp_sent (pl_udp st')) =
     map (\<lambda>(i, n, m). build_rtp_header i 5 6 m @ n)
       [(0, [0x40, 1], 0), (1, [0x42, 1], 0), (2, [0x44, 1], 0), (3, [0x26, 1, 7], 1)]"
proof -
  let ?bs = "[(True, null_addr, 5, Some [0x02, 1, 9], 1), (True, null_addr, 5, Some [0x40, 1], 0),
        (True, null_addr, 5, Some [0x42, 1], 0), (True, null_addr, 5, Some [0x44, 1], 0),
        (True, null_addr, 5, Some [0x02, 1, 9], 1), (True, null_addr, 5, Some [0x26, 1, 7], 1)]"
  have "calm demo_world" by (simp add: calm_def demo_world_def quiet_def net_accepts_def)
  moreover have "cache_inv (pl_cache (demo_player True))" by code_simp
  moreover have "se_need_parameter_sets (sh_session (pl_shared (demo_player True)))" by (simp add: demo_player_def)
  ultimately have T: "let outs = fst (gate_run (play_inputs ?bs) (gate_of (demo_player True)));
      st' = play_buffers demo_world 6 ?bs (demo_player True) in
    decodable outs \<and>
    udp_sent (pl_udp st') = udp_sent (pl_udp (demo_player True)) @ output_datagrams 6 (pl_seq (demo_player True)) outs \<and>
    pl_seq st' = pl_seq (demo_player True) +
      of_nat (length (output_datagrams 6 (pl_seq (demo_player True)) outs))"
    by (rule playback_starts_decodable)
  have "play_inputs ?bs = [(True, null_addr, 5, [0x02, 1, 9], 1), (True, null_addr, 5, [0x40, 1], 0),
        (True, null_addr, 5, [0x42, 1], 0), (True, null_addr, 5, [0x44, 1], 0),
        (True, null_addr, 5, [0x02, 1, 9], 1), (True, null_addr, 5, [0x26, 1, 7], 1)]"
    by (simp add: play_inputs_def buffer_inputs_def buffer_nalus_def sc_at_3 sc_at_4)
  moreover have "fst (gate_run [(True, null_addr, 5, [0x02, 1, 9], 1), (True, null_addr, 5, [0x40, 1], 0),
        (True, null_addr, 5, [0x42, 1], 0), (True, null_addr, 5, [0x44, 1], 0),
        (True, null_addr, 5, [0x02, 1, 9], 1), (True, null_addr, 5, [0x26, 1, 7], 1)] (gate_of (demo_player True))) =
      [(null_addr, 5, [0x40, 1], 0), (null_addr, 5, [0x42, 1], 0), (null_addr, 5, [0x44, 1], 0),
       (null_addr, 5, [0x26, 1, 7], 1)]"
    by code_simp
  ultimately show ?thesis
    using T by (simp add: Let_def demo_player_def nalu_plan_def rtp_sizes)
qed

text \<open>C33: The parameter-set cache: after \<open>h265_cache_parameter_set\<close> every entry is still a NALU of
  its own type and of 2 to 16384 bytes; at most the entry of the NALU's type changed, and then
  it holds the NALU; a return of 0 for a parameter set means that it is cached.\<close>

theorem h265_cache_parameter_set_correct:
  assumes "cache_inv (pl_cache st)" and "h265_cache_parameter_set W (Some n) st = (r, st')"
  shows "cache_inv (pl_cache st') \<and>
    (pl_cache st' = pl_cache st \<or>
     (\<exists>k. h265_param_cache_for_type (h265_nalu_type n) = Some k \<and> pl_cache st' = (pl_cache st)(k := Some n))) \<and>
    (case h265_param_cache_for_type (h265_nalu_type n) of
       None \<Rightarrow> r = 0 \<and> st' = st
     | Some k \<Rightarrow> if length n < 2 then st' = st else r = 0 \<and> pl_cache st' k = Some n \<or> r = -1)"
proof -
  have "cache_inv (pl_cache st')" using cache_parameter_set_inv [OF assms(1), of W "Some n"] assms(2) by simp
  moreover have "pl_cache st' = pl_cache st \<or>
     (\<exists>k. h265_param_cache_for_type (h265_nalu_type n) = Some k \<and> pl_cache st' = (pl_cache st)(k := Some n))"
    using assms(2) by (auto simp: h265_cache_parameter_set_def Let_def split: option.splits if_splits)
  moreover have "(case h265_param_cache_for_type (h265_nalu_type n) of
       None \<Rightarrow> r = 0 \<and> st' = st
     | Some k \<Rightarrow> if length n < 2 then st' = st else r = 0 \<and> pl_cache st' k = Some n \<or> r = -1)"
    using assms(2) by (auto simp: h265_cache_parameter_set_def Let_def split: option.splits if_splits)
  ultimately show ?thesis by blast
qed

theorem h265_cache_parameter_set_correct_witness:
  "\<exists>r st'. h265_cache_parameter_set demo_world (Some [0x42, 1, 3]) (demo_player True) = (r, st') \<and>
     cache_inv (pl_cache st') \<and> (r = 0 \<and> pl_cache st' SPS = Some [0x42, 1, 3] \<or> r = -1)"
proof -
  obtain r st' where X: "h265_cache_parameter_set demo_world (Some [0x42, 1, 3]) (demo_player True) = (r, st')"
    by fastforce
  have "cache_inv (pl_cache (demo_player True))" by code_simp
  moreover have "h265_param_cache_for_type (h265_nalu_type [0x42, 1, 3]) = Some SPS"
    by (simp add: h265_param_cache_for_type_def h265_nalu_type_def nal_consts)
  ultimately show ?thesis using h265_cache_parameter_set_correct [OF _ X] X by auto
qed

text \<open>A pack of the live path never leaves a mapping of physical memory behind, whether its
  NALUs are sent, dropped or fail to be sent, and whoever changes the session meanwhile.\<close>

theorem playback_pack_unmaps:
  assumes "page_size_ok (w_mmap W)" and "maps_fresh (w_mmap W) (pl_mem st)" and "munmap_accepts (w_mmap W)"
    and "datafifo_process_pack_for_playback W dest ts ssrc (Some p) m c st = (r, st')"
  shows "mm_maps (pl_mem st') = mm_maps (pl_mem st)"
  by (rule process_pack_maps [OF assms])

theorem playback_pack_unmaps_witness:
  "\<exists>r st'. datafifo_process_pack_for_playback demo_world null_addr 5 6
     (Some \<lparr>pk_phys_addr = 0x12ffaff3, pk_pts = 0, pk_len = 40, pk_type = 0\<rparr>) 1 True (demo_player True) = (r, st') \<and>
     mm_maps (pl_mem st') = []"
proof -
  obtain r st' where X: "datafifo_process_pack_for_playback demo_world null_addr 5 6
     (Some \<lparr>pk_phys_addr = 0x12ffaff3, pk_pts = 0, pk_len = 40, pk_type = 0\<rparr>) 1 True (demo_player True) = (r, st')"
    by fastforce
  have "page_size_ok (w_mmap demo_world)" "maps_fresh (w_mmap demo_world) (pl_mem (demo_player True))"
    using demo_mmap_env_ok by (simp_all add: demo_world_def demo_player_def)
  moreover have "munmap_accepts (w_mmap demo_world)"
    by (simp add: munmap_accepts_def demo_world_def demo_mmap_env_def)
  ultimately have "mm_maps (pl_mem st') = mm_maps (pl_mem (demo_player True))"
    using X by (rule playback_pack_unmaps)
  with X show ?thesis by (simp add: demo_player_def no_maps_def)
qed

text \<open>
  C37: The flag is not safe against a new session: when a second client sends SETUP and PLAY after
  the sender saw the flag of the first one and before it clears it, the sender clears the flag of
  the second client, although every datagram with parameter sets went to the first one.
\<close>

definition second_client :: sockaddr_in where
  "second_client = \<lparr>sin_family = 2, sin_port = 0, sin_addr = 77\<rparr>"

definition takeover_world :: world where
  "takeover_world = demo_world\<lparr>w_rtsp := (\<lambda>t g.
     if t = 1 then session_play (session_setup second_client 5000 g) else g)\<rparr>"

definition filled_player :: player where
  "filled_player = (demo_player True)\<lparr>pl_cache := (\<lambda>k. Some (case k of
     VPS \<Rightarrow> [0x40, 1] | SPS \<Rightarrow> [0x42, 1] | PPS \<Rightarrow> [0x44, 1]))\<rparr>"


end
