(* ===== verification/Text.thy ===== *)
theory Text
  imports Prelude "HOL-Library.Sublist"
begin

text \<open>
  The part of the C string library that the program uses: decimal output (\<open>%d\<close>, \<open>%u\<close>, \<open>%06u\<close> of
  \<open>snprintf\<close>), \<open>strstr\<close> and \<open>atoi\<close> (glibc: \<open>strtol\<close> clamps to 64 bits, the conversion to \<open>int\<close> keeps
  the low 32). A C string is the list of its characters before the terminating NUL.
\<close>

section \<open>Decimal output\<close>

definition digit :: "nat \<Rightarrow> char" where
  "digit d = char_of (48 + d)"

definition is_digit :: "char \<Rightarrow> bool" where
  "is_digit c \<longleftrightarrow> 48 \<le> (of_char c :: nat) \<and> (of_char c :: nat) \<le> 57"

definition digit_val :: "char \<Rightarrow> nat" where
  "digit_val c = of_char c - 48"

fun decimal :: "nat \<Rightarrow> string" where
  "decimal n = (if n < 10 then [digit n] else decimal (n div 10) @ [digit (n mod 10)])"

declare decimal.simps [simp del]

text \<open>\<open>%d\<close> and \<open>%0<w>u\<close>.\<close>

definition decimal_int :: "int \<Rightarrow> string" where
  "decimal_int i = (if i < 0 then CHR ''-'' # decimal (nat (- i)) else decimal (nat i))"

definition decimal_pad :: "nat \<Rightarrow> nat \<Rightarrow> string" where
  "decimal_pad w n = replicate (w - length (decimal n)) CHR ''0'' @ decimal n"

text \<open>The number that a string of digits denotes.\<close>

definition number_of :: "string \<Rightarrow> nat" where
  "number_of s = foldl (\<lambda>v c. v * 10 + digit_val c) 0 s"

lemma digit_simps [simp]:
  "d < 10 \<Longrightarrow> is_digit (digit d)" "d < 10 \<Longrightarrow> digit_val (digit d) = d"
  by (auto simp: digit_def is_digit_def digit_val_def)

lemma number_of_snoc: "number_of (s @ [c]) = number_of s * 10 + digit_val c"
  by (simp add: number_of_def)

lemma number_of_decimal [simp]: "number_of (decimal n) = n"
proof (induction n rule: decimal.induct)
  case (1 n)
  show ?case
  proof (cases "n < 10")
    case True
    then show ?thesis by (simp add: decimal.simps [of n] number_of_def)
  next
    case False
    with 1 show ?thesis
      by (simp add: decimal.simps [of n] number_of_snoc)
  qed
qed

lemma decimal_digits: "list_all is_digit (decimal n)"
proof (induction n rule: decimal.induct)
  case (1 n)
  then show ?case by (cases "n < 10") (simp_all add: decimal.simps [of n])
qed

lemma decimal_neq_Nil [simp]: "decimal n \<noteq> []"
  by (simp add: decimal.simps [of n])

lemma length_decimal_pos: "0 < length (decimal n)"
  by simp

lemma number_of_pad: "number_of (decimal_pad w n) = n"
proof -
  have "foldl (\<lambda>v c. v * 10 + digit_val c) 0 (replicate k CHR ''0'') = 0" for k
    by (induction k) (simp_all add: digit_val_def)
  then have "number_of (replicate k CHR ''0'' @ s) = number_of s" for k s
    by (simp add: number_of_def)
  then show ?thesis by (simp add: decimal_pad_def)
qed

lemma decimal_pad_inject: "decimal_pad w m = decimal_pad w n \<Longrightarrow> m = n"
  by (metis number_of_pad)

lemma length_decimal_pad: "w \<le> length (decimal_pad w n)"
  by (simp add: decimal_pad_def)

lemma decimal_pad_digits: "list_all is_digit (decimal_pad w n)"
  using decimal_digits [of n] by (auto simp: decimal_pad_def is_digit_def list_all_iff)

lemma length_decimal_le: "n < 10 ^ k \<Longrightarrow> 0 < k \<Longrightarrow> length (decimal n) \<le> k"
proof (induction n arbitrary: k rule: decimal.induct)
  case (1 n)
  show ?case
  proof (cases "n < 10")
    case True
    with "1.prems" show ?thesis by (simp add: decimal.simps [of n])
  next
    case False
    with "1.prems" have "k \<noteq> 1" by auto
    with "1.prems" obtain j where k: "k = Suc j" "0 < j" by (cases k) auto
    with "1.prems" have "n div 10 < 10 ^ j" by (auto simp: less_mult_imp_div_less)
    with "1.IH" [OF False _ k(2)] k False show ?thesis by (simp add: decimal.simps [of n])
  qed
qed

section \<open>Searching\<close>

text \<open>The rest of the text from the first occurrence on, \<open>None\<close> for NULL.\<close>

fun strstr :: "string \<Rightarrow> string \<Rightarrow> string option" where
  "strstr [] needle = (if needle = [] then Some [] else None)"
| "strstr (c # cs) needle = (if prefix needle (c # cs) then Some (c # cs) else strstr cs needle)"

lemma strstr_Some: "strstr s n = Some r \<Longrightarrow> prefix n r \<and> suffix r s"
  by (induction s) (auto split: if_splits intro: suffix_ConsI)

lemma strstr_None: "strstr s n = None \<Longrightarrow> \<not> sublist n s"
proof (induction s)
  case (Cons c cs)
  then have "\<not> prefix n (c # cs)" and "\<not> sublist n cs" by (auto split: if_splits)
  then show ?case by (auto simp: sublist_Cons_right)
qed (auto split: if_splits)

section \<open>atoi\<close>

definition is_space :: "char \<Rightarrow> bool" where
  "is_space c \<longleftrightarrow> (of_char c :: nat) = 32 \<or> 9 \<le> (of_char c :: nat) \<and> (of_char c :: nat) \<le> 13"

definition LONG_MAX :: int where "LONG_MAX = 2 ^ 63 - 1"
definition LONG_MIN :: int where "LONG_MIN = - (2 ^ 63)"

definition strtol10 :: "string \<Rightarrow> int" where
  "strtol10 s =
     (let t = dropWhile is_space s;
          neg = (t \<noteq> [] \<and> hd t = CHR ''-'');
          u = (if t \<noteq> [] \<and> (hd t = CHR ''-'' \<or> hd t = CHR ''+'') then tl t else t);
          v = int (number_of (takeWhile is_digit u));
          r = (if neg then - v else v)
      in if r > LONG_MAX then LONG_MAX else if r < LONG_MIN then LONG_MIN else r)"

text \<open>The conversion of the \<open>long\<close> to a 32-bit \<open>int\<close>.\<close>

definition atoi :: "string \<Rightarrow> int" where
  "atoi s = sint (word_of_int (strtol10 s) :: 32 word)"

lemma takeWhile_digits:
  "list_all is_digit ds \<Longrightarrow> rest = [] \<or> \<not> is_digit (hd rest) \<Longrightarrow> takeWhile is_digit (ds @ rest) = ds"
  by (cases rest) (auto simp: list_all_iff takeWhile_append2)

lemma digit_no_space: "is_digit c \<Longrightarrow> \<not> is_space c \<and> c \<noteq> CHR ''-'' \<and> c \<noteq> CHR ''+''"
  by (auto simp: is_digit_def is_space_def)

text \<open>Reading back a number that was printed, with leading blanks and anything but a digit behind.\<close>

lemma atoi_decimal:
  assumes "n < 2 ^ 31" and "list_all is_space sp" and "rest = [] \<or> \<not> is_digit (hd rest)"
  shows "atoi (sp @ decimal n @ rest) = int n"
proof -
  obtain c cs where d: "decimal n = c # cs" using decimal_neq_Nil [of n] by (cases "decimal n") auto
  then have c: "is_digit c" using decimal_digits [of n] by simp
  have drop: "dropWhile is_space (sp @ decimal n @ rest) = decimal n @ rest"
    using assms(2) digit_no_space [OF c] by (simp add: d dropWhile_append2 list_all_iff)
  have "takeWhile is_digit (decimal n @ rest) = decimal n"
    by (rule takeWhile_digits [OF decimal_digits assms(3)])
  moreover have "hd (decimal n) = c" using d by simp
  ultimately have "strtol10 (sp @ decimal n @ rest) = int n"
    using drop digit_no_space [OF c] assms(1)
    by (simp add: strtol10_def Let_def LONG_MAX_def LONG_MIN_def)
  moreover have "sint (word_of_int (int n) :: 32 word) = int n"
    using assms(1) by (simp only: signed_of_int) (simp add: signed_take_bit_int_eq_self)
  ultimately show ?thesis by (simp add: atoi_def)
qed

end
