(* ===== verification/Writer_Files.thy ===== *)
theory Writer_Files
  imports Text
begin

text \<open>
  The file side of \<open>src/snapshot_writer.c\<close>: creating the directory, choosing a file name that is not
  in use, writing the stream, and calling \<open>ffmpeg\<close> through the shell. The file system is a map from
  paths to contents; what the operating system answers is the record \<open>os_env\<close> of functions of the
  number of the call. An open file descriptor is the path of its file.
\<close>

section \<open>Files and the operating system\<close>

datatype mkdir_answer = Mkdir_OK | Mkdir_EEXIST | Mkdir_Error
datatype write_answer = Wrote nat | Write_EINTR | Write_Error

type_synonym files = "string \<Rightarrow> bytes option"

record fs =
  fs_files :: files
  fs_dirs :: "string list"
  fs_calls :: nat

text \<open>
  \<open>os_open_error t p\<close>: the \<open>open\<close> fails with an error other than \<open>EEXIST\<close>. \<open>os_system t cmd files\<close>:
  the exit status of the command and the files it leaves.
\<close>

record os_env =
  os_mkdir :: "nat \<Rightarrow> string \<Rightarrow> mkdir_answer"
  os_open_error :: "nat \<Rightarrow> string \<Rightarrow> bool"
  os_write :: "nat \<Rightarrow> nat \<Rightarrow> write_answer"
  os_close :: "nat \<Rightarrow> int"
  os_system :: "nat \<Rightarrow> string \<Rightarrow> files \<Rightarrow> int \<times> files"
  os_unlink :: "nat \<Rightarrow> string \<Rightarrow> bool"

definition SNAPSHOT_PATH_MAX :: nat where "SNAPSHOT_PATH_MAX = 256"
definition SNAPSHOT_CMD_MAX :: nat where "SNAPSHOT_CMD_MAX = 1024"

section \<open>Directories\<close>

text \<open>One call of \<open>mkdir\<close>; the directories that exist afterwards are noted in \<open>fs_dirs\<close>.\<close>

definition snapshot_mkdir_one :: "os_env \<Rightarrow> string \<Rightarrow> fs \<Rightarrow> mkdir_answer \<times> fs" where
  "snapshot_mkdir_one S path f =
     (let r = os_mkdir S (fs_calls f) path
      in (r, f\<lparr>fs_calls := fs_calls f + 1,
              fs_dirs := (if r = Mkdir_Error then fs_dirs f else fs_dirs f @ [path])\<rparr>))"

text \<open>The loop over \<open>i = 1 .. len - 1\<close>; the prefix before a slash is \<open>take i dir\<close>.\<close>

fun mkdir_prefixes :: "os_env \<Rightarrow> string \<Rightarrow> nat list \<Rightarrow> fs \<Rightarrow> int \<times> fs" where
  "mkdir_prefixes S dir [] f = (0, f)"
| "mkdir_prefixes S dir (i # is) f =
     (if dir ! i = CHR ''/'' \<and> take i dir \<noteq> [] then
        (case snapshot_mkdir_one S (take i dir) f of
           (r, f1) \<Rightarrow> if r = Mkdir_Error then (-1, f1) else mkdir_prefixes S dir is f1)
      else mkdir_prefixes S dir is f)"

definition snapshot_mkdir_p :: "os_env \<Rightarrow> string option \<Rightarrow> fs \<Rightarrow> int \<times> fs" where
  "snapshot_mkdir_p S dirp f =
     (case dirp of
        None \<Rightarrow> (-1, f)
      | Some dir \<Rightarrow>
          if dir = [] then (-1, f)
          else if length dir \<ge> SNAPSHOT_PATH_MAX then (-1, f)
          else case mkdir_prefixes S dir [1..<length dir] f of
            (r, f1) \<Rightarrow>
              if r \<noteq> 0 then (-1, f1)
              else (case snapshot_mkdir_one S dir f1 of
                      (r', f2) \<Rightarrow> if r' = Mkdir_Error then (-1, f2) else (0, f2)))"

section \<open>Choosing a file name\<close>

text \<open>\<open>"%s/snapshot_%06u.<ext>"\<close>.\<close>

definition snapshot_path :: "string \<Rightarrow> u32 \<Rightarrow> string \<Rightarrow> string" where
  "snapshot_path dir seq ext = dir @ ''/snapshot_'' @ decimal_pad 6 (unat seq) @ ''.'' @ ext"

text \<open>
  The loop with \<open>n\<close> attempts left: the result is \<open>(h265_path, image_path)\<close>, \<open>None\<close> for \<open>-1\<close>; then
  \<open>g_snapshot_seq\<close> and the files. With \<open>O_CREAT | O_EXCL\<close> an existing file is never opened.
\<close>

fun open_unique_loop ::
    "os_env \<Rightarrow> string \<Rightarrow> nat \<Rightarrow> nat \<Rightarrow> nat \<Rightarrow> u32 \<Rightarrow> fs \<Rightarrow> (string \<times> string) option \<times> u32 \<times> fs" where
  "open_unique_loop S dir h265_path_size image_path_size 0 seq f = (None, seq, f)"
| "open_unique_loop S dir h265_path_size image_path_size (Suc n) seq0 f =
     (let seq = seq0 + 1;
          h265_path = snapshot_path dir seq ''h265'';
          image_path = snapshot_path dir seq ''jpg''
      in if length h265_path \<ge> h265_path_size \<or> length image_path \<ge> image_path_size then (None, seq, f)
         else if fs_files f image_path \<noteq> None
         then open_unique_loop S dir h265_path_size image_path_size n seq f
         else
           let f1 = f\<lparr>fs_calls := fs_calls f + 1\<rparr> in
           if os_open_error S (fs_calls f) h265_path then (None, seq, f1)
           else if fs_files f h265_path \<noteq> None
           then open_unique_loop S dir h265_path_size image_path_size n seq f1
           else (Some (h265_path, image_path), seq,
                 f1\<lparr>fs_files := (fs_files f1)(h265_path := Some [])\<rparr>))"

definition snapshot_open_unique_h265 ::
    "os_env \<Rightarrow> string \<Rightarrow> nat \<Rightarrow> nat \<Rightarrow> u32 \<Rightarrow> fs \<Rightarrow> (string \<times> string) option \<times> u32 \<times> fs" where
  "snapshot_open_unique_h265 S dir h265_path_size image_path_size seq f =
     open_unique_loop S dir h265_path_size image_path_size 1000000 seq f"

section \<open>Writing\<close>

text \<open>
  The \<open>while (offset < len)\<close> loop; \<open>EINTR\<close> repeats the call, so that the loop may not end, which is
  the value \<open>None\<close>.
\<close>

definition append_file :: "string \<Rightarrow> bytes \<Rightarrow> fs \<Rightarrow> fs" where
  "append_file path bs f =
     f\<lparr>fs_files := (fs_files f)(path := Some (case fs_files f path of None \<Rightarrow> bs | Some old \<Rightarrow> old @ bs))\<rparr>"

partial_function (option) write_all_loop :: "os_env \<Rightarrow> string \<Rightarrow> bytes \<Rightarrow> nat \<Rightarrow> fs \<Rightarrow> (int \<times> fs) option" where
  "write_all_loop S fd data offset f =
     (if offset < length data then
        let f1 = f\<lparr>fs_calls := fs_calls f + 1\<rparr> in
        (case os_write S (fs_calls f) (length data - offset) of
           Write_EINTR \<Rightarrow> write_all_loop S fd data offset f1
         | Write_Error \<Rightarrow> Some (-1, f1)
         | Wrote n \<Rightarrow>
             if n = 0 then Some (-1, f1)
             else write_all_loop S fd data (offset + n) (append_file fd (take n (drop offset data)) f1))
      else Some (0, f))"

definition snapshot_write_all :: "os_env \<Rightarrow> string \<Rightarrow> bytes \<Rightarrow> fs \<Rightarrow> (int \<times> fs) option" where
  "snapshot_write_all S fd data f = write_all_loop S fd data 0 f"

section \<open>The command line\<close>

text \<open>
  A destination buffer of \<open>dst_size\<close> bytes holds the string written so far, \<open>*offset\<close> is its
  length; \<open>None\<close> is the return with \<open>-1\<close>.
\<close>

definition snapshot_append_text :: "nat \<Rightarrow> string \<Rightarrow> string \<Rightarrow> string option" where
  "snapshot_append_text dst_size dst src =
     (if length dst + length src \<ge> dst_size then None else Some (dst @ src))"

fun quote_loop :: "nat \<Rightarrow> string \<Rightarrow> string \<Rightarrow> string option" where
  "quote_loop dst_size dst [] = Some dst"
| "quote_loop dst_size dst (c # cs) =
     (if c = CHR 0x27 then
        (case snapshot_append_text dst_size dst [CHR 0x27, CHR 0x5C, CHR 0x27, CHR 0x27] of
           None \<Rightarrow> None
         | Some dst' \<Rightarrow> quote_loop dst_size dst' cs)
      else if length dst + 1 \<ge> dst_size then None
      else quote_loop dst_size (dst @ [c]) cs)"

definition snapshot_shell_quote :: "nat \<Rightarrow> string \<Rightarrow> string option" where
  "snapshot_shell_quote dst_size src =
     (case snapshot_append_text dst_size [] [CHR 0x27] of
        None \<Rightarrow> None
      | Some d \<Rightarrow>
          (case quote_loop dst_size d src of
             None \<Rightarrow> None
           | Some d' \<Rightarrow> snapshot_append_text dst_size d' [CHR 0x27]))"

definition ffmpeg_command :: "string \<Rightarrow> string \<Rightarrow> string" where
  "ffmpeg_command quoted_h265 quoted_image =
     ''ffmpeg -hide_banner -loglevel error -y -f hevc -i '' @ quoted_h265 @ '' -frames:v 1 '' @ quoted_image"

definition snapshot_convert_h265_to_image :: "os_env \<Rightarrow> string \<Rightarrow> string \<Rightarrow> fs \<Rightarrow> int \<times> fs" where
  "snapshot_convert_h265_to_image S h265_path image_path f =
     (case (snapshot_shell_quote SNAPSHOT_CMD_MAX h265_path, snapshot_shell_quote SNAPSHOT_CMD_MAX image_path) of
        (Some quoted_h265, Some quoted_image) \<Rightarrow>
          let cmd = ffmpeg_command quoted_h265 quoted_image in
          if length cmd \<ge> SNAPSHOT_CMD_MAX then (-1, f)
          else (case os_system S (fs_calls f) cmd (fs_files f) of
                  (ret, files') \<Rightarrow>
                    (if ret \<noteq> 0 then -1 else 0, f\<lparr>fs_calls := fs_calls f + 1, fs_files := files'\<rparr>))
      | _ \<Rightarrow> (-1, f))"

section \<open>One snapshot\<close>

definition unlink_file :: "os_env \<Rightarrow> string \<Rightarrow> fs \<Rightarrow> fs" where
  "unlink_file S path f =
     f\<lparr>fs_calls := fs_calls f + 1,
       fs_files := (if os_unlink S (fs_calls f) path then (fs_files f)(path := None) else fs_files f)\<rparr>"

text \<open>The return code, \<open>g_snapshot_seq\<close> and the files; \<open>None\<close> when the writing never ends.\<close>

definition snapshot_write_file ::
    "os_env \<Rightarrow> string \<Rightarrow> bytes \<Rightarrow> u32 \<Rightarrow> fs \<Rightarrow> (int \<times> u32 \<times> fs) option" where
  "snapshot_write_file S dir data seq f =
     (case snapshot_open_unique_h265 S dir SNAPSHOT_PATH_MAX SNAPSHOT_PATH_MAX seq f of
        (None, seq', f1) \<Rightarrow> Some (-1, seq', f1)
      | (Some (h265_path, image_path), seq', f1) \<Rightarrow>
          (case snapshot_write_all S h265_path data f1 of
             None \<Rightarrow> None
           | Some (r, f2) \<Rightarrow>
               let f3 = f2\<lparr>fs_calls := fs_calls f2 + 1\<rparr> in
               if r \<noteq> 0 then Some (-1, seq', f3)
               else if os_close S (fs_calls f2) \<noteq> 0 then Some (-1, seq', f3)
               else (case snapshot_convert_h265_to_image S h265_path image_path f3 of
                       (c, f4) \<Rightarrow>
                         if c = 0 then Some (0, seq', unlink_file S h265_path f4)
                         else Some (-1, seq', f4))))"

section \<open>Fresh names\<close>

lemma open_unique_loop_Some:
  "open_unique_loop S dir hs ims n seq f = (Some (h, i), seq', f') \<Longrightarrow>
     h = snapshot_path dir seq' ''h265'' \<and> i = snapshot_path dir seq' ''jpg'' \<and>
     length h < hs \<and> length i < ims \<and>
     fs_files f h = None \<and> fs_files f i = None \<and> fs_files f' = (fs_files f)(h := Some [])"
proof (induction S dir hs ims n seq f rule: open_unique_loop.induct)
  case (2 S dir hs ims n seq0 f)
  let ?h = "snapshot_path dir (seq0 + 1) ''h265''" and ?i = "snapshot_path dir (seq0 + 1) ''jpg''"
  consider "fs_files f ?i \<noteq> None" | "fs_files f ?i = None" "fs_files f ?h \<noteq> None"
    | "fs_files f ?i = None" "fs_files f ?h = None" by blast
  then show ?case
  proof cases
    case 1
    with "2.prems" "2.IH"(1) [OF refl refl refl] show ?thesis
      by (auto simp: Let_def not_le split: if_splits)
  next
    case 2
    with "2.prems" "2.IH"(2) [OF refl refl refl] show ?thesis
      by (auto simp: Let_def not_le split: if_splits)
  next
    case 3
    with "2.prems" show ?thesis by (auto simp: Let_def split: if_splits)
  qed
qed simp

lemma open_unique_loop_None:
  "open_unique_loop S dir hs ims n seq f = (None, seq', f') \<Longrightarrow> fs_files f' = fs_files f"
proof (induction S dir hs ims n seq f rule: open_unique_loop.induct)
  case (2 S dir hs ims n seq0 f)
  show ?case
  proof (cases "fs_files f (snapshot_path dir (seq0 + 1) ''jpg'') = None")
    case True
    with "2.prems" "2.IH"(2) [OF refl refl refl] show ?thesis
      by (auto simp: Let_def not_le split: if_splits)
  next
    case False
    with "2.prems" "2.IH"(1) [OF refl refl refl] show ?thesis
      by (auto simp: Let_def not_le split: if_splits)
  qed
qed simp

lemma snapshot_path_inject: "snapshot_path dir a ext = snapshot_path dir b ext \<Longrightarrow> a = b"
  by (auto simp: snapshot_path_def word_unat_eq_iff dest: decimal_pad_inject)

section \<open>Writing everything\<close>

lemma append_file_append: "append_file p ys (append_file p xs f) = append_file p (xs @ ys) f"
  by (auto simp: append_file_def split: option.splits)

lemma append_file_calls [simp]:
  "append_file p xs (f\<lparr>fs_calls := n\<rparr>) = (append_file p xs f)\<lparr>fs_calls := n\<rparr>"
  by (simp add: append_file_def)

text \<open>The file \<open>fd\<close> got \<open>bs\<close> more, and nothing else changed.\<close>

definition appended :: "string \<Rightarrow> bytes \<Rightarrow> fs \<Rightarrow> fs \<Rightarrow> bool" where
  "appended fd bs f f' \<longleftrightarrow> fs_files f' = fs_files (append_file fd bs f) \<or> bs = [] \<and> fs_files f' = fs_files f"

lemma appended_nothing: "fs_files f' = fs_files f \<Longrightarrow> appended fd [] f f'"
  by (simp add: appended_def)

lemma appended_more:
  "appended fd ys (append_file fd xs (f\<lparr>fs_calls := t\<rparr>)) f' \<Longrightarrow> appended fd (xs @ ys) f f'"
  by (cases "fs_files f fd") (auto simp: appended_def append_file_def)

lemma write_all_loop_Some:
  "write_all_loop S fd data off f = Some r \<Longrightarrow>
     \<exists>k. appended fd (take k (drop off data)) f (snd r) \<and>
       (fst r = 0 \<longrightarrow> length data \<le> off + k) \<and> (fst r = 0 \<or> fst r = -1)"
proof (induction rule: write_all_loop.raw_induct [rotated, consumes 1, case_names step])
  case (step w S fd data off f r)
  let ?f1 = "f\<lparr>fs_calls := fs_calls f + 1\<rparr>"
  show ?case
  proof (cases "r = (-1, ?f1) \<or> length data \<le> off")
    case True
    with step(2) have "fs_files (snd r) = fs_files f \<and> (fst r = 0 \<longrightarrow> length data \<le> off) \<and> (fst r = 0 \<or> fst r = -1)" by auto
    then show ?thesis by (intro exI [of _ 0]) (simp add: appended_nothing)
  next
    case False
    with step(2) consider (wrote) n where "w S fd data (off + n) (append_file fd (take n (drop off data)) ?f1) = Some r"
      | (again) "w S fd data off ?f1 = Some r"
      by (auto simp: Let_def split: write_answer.splits if_splits)
    then show ?thesis
    proof cases
      case (wrote n)
      from step(1) [OF this] obtain k where k: "fst r = 0 \<longrightarrow> length data \<le> off + (n + k)" "fst r = 0 \<or> fst r = -1"
        and "appended fd (take k (drop (off + n) data)) (append_file fd (take n (drop off data)) ?f1) (snd r)"
        by (auto simp: add.assoc)
      from appended_more [OF this(3)] have "appended fd (take (n + k) (drop off data)) f (snd r)"
        by (simp only: take_add drop_drop add.commute [of off n])
      with k show ?thesis by blast
    next
      case again
      from step(1) [OF this] show ?thesis by (simp add: appended_def append_file_def)
    qed
  qed
qed

lemma write_all_result:
  assumes "snapshot_write_all S fd data f = Some (r, f')" and "fs_files f fd = Some old"
  shows "(\<exists>k. fs_files f' = (fs_files f)(fd := Some (old @ take k data))) \<and>
    (r = 0 \<longrightarrow> fs_files f' = (fs_files f)(fd := Some (old @ data))) \<and> (r = 0 \<or> r = -1)"
proof -
  obtain k where k: "appended fd (take k data) f f'" "r = 0 \<longrightarrow> length data \<le> k" "r = 0 \<or> r = -1"
    using write_all_loop_Some [OF assms(1) [unfolded snapshot_write_all_def]] by auto
  then have "fs_files f' = (fs_files f)(fd := Some (old @ take k data))"
    using assms(2) by (auto simp: appended_def append_file_def)
  with k(2,3) show ?thesis by auto
qed

text \<open>The loop ends when the system does not interrupt the writes for ever.\<close>

lemma write_all_loop_live:
  assumes "\<forall>t n. \<exists>t' \<ge> t. os_write S t' n \<noteq> Write_EINTR"
  shows "\<exists>r. write_all_loop S fd data off f = Some r"
proof (induction "length data - off" arbitrary: off f rule: less_induct)
  case less
  show ?case
  proof (cases "off < length data")
    case False
    then show ?thesis by (subst write_all_loop.simps) simp
  next
    case True
    let ?n = "length data - off"
    obtain t' where t': "t' \<ge> fs_calls f" "os_write S t' ?n \<noteq> Write_EINTR" using assms by blast
    show ?thesis
      using t'(1)
    proof (induction "t' - fs_calls f" arbitrary: f rule: less_induct)
      case inner: less
      have eq: "write_all_loop S fd data off f =
        (case os_write S (fs_calls f) ?n of
           Write_EINTR \<Rightarrow> write_all_loop S fd data off (f\<lparr>fs_calls := fs_calls f + 1\<rparr>)
         | Write_Error \<Rightarrow> Some (-1, f\<lparr>fs_calls := fs_calls f + 1\<rparr>)
         | Wrote n \<Rightarrow>
             if n = 0 then Some (-1, f\<lparr>fs_calls := fs_calls f + 1\<rparr>)
             else write_all_loop S fd data (off + n)
               (append_file fd (take n (drop off data)) (f\<lparr>fs_calls := fs_calls f + 1\<rparr>)))"
        using True by (subst write_all_loop.simps) (simp add: Let_def split: write_answer.split)
      show ?case
      proof (cases "os_write S (fs_calls f) ?n")
        case (Wrote n)
        have "\<exists>r. write_all_loop S fd data (off + n) g = Some r" if "n \<noteq> 0" for g
          using that True by (intro less.hyps) simp
        with eq Wrote show ?thesis by (cases "n = 0") auto
      next
        case Write_EINTR
        with t'(2) have "t' \<noteq> fs_calls f" by auto
        with inner.prems have "fs_calls f < t'" by simp
        then have "\<exists>r. write_all_loop S fd data off (f\<lparr>fs_calls := fs_calls f + 1\<rparr>) = Some r"
          by (intro inner.hyps) simp_all
        with eq Write_EINTR show ?thesis by simp
      next
        case Write_Error
        with eq show ?thesis by simp
      qed
    qed
  qed
qed

section \<open>The shell\<close>

text \<open>
  How a POSIX shell splits a simple command into words: blanks separate, single quotes take
  everything literally, a backslash outside quotes takes the next character literally, letters,
  digits and a few more characters stand for themselves; on any other character (an operator,
  a variable, a glob) the result is \<open>None\<close>.
\<close>

definition plain_char :: "char \<Rightarrow> bool" where
  "plain_char c \<longleftrightarrow> is_digit c \<or> 65 \<le> (of_char c :: nat) \<and> (of_char c :: nat) \<le> 90 \<or>
     97 \<le> (of_char c :: nat) \<and> (of_char c :: nat) \<le> 122 \<or> c \<in> set ''-_./:''"

fun sh_plain :: "string \<Rightarrow> string option \<Rightarrow> string list option" and
    sh_quoted :: "string \<Rightarrow> string \<Rightarrow> string list option" where
  "sh_plain [] w = Some (case w of None \<Rightarrow> [] | Some x \<Rightarrow> [x])"
| "sh_plain (c # cs) w =
     (if c = CHR 0x20 then
        (case w of None \<Rightarrow> sh_plain cs None | Some x \<Rightarrow> map_option (Cons x) (sh_plain cs None))
      else if c = CHR 0x27 then sh_quoted cs (case w of None \<Rightarrow> [] | Some x \<Rightarrow> x)
      else if c = CHR 0x5C then
        (case cs of [] \<Rightarrow> None | d # ds \<Rightarrow> sh_plain ds (Some ((case w of None \<Rightarrow> [] | Some x \<Rightarrow> x) @ [d])))
      else if plain_char c then sh_plain cs (Some ((case w of None \<Rightarrow> [] | Some x \<Rightarrow> x) @ [c]))
      else None)"
| "sh_quoted [] w = None"
| "sh_quoted (c # cs) w = (if c = CHR 0x27 then sh_plain cs (Some w) else sh_quoted cs (w @ [c]))"

definition sh_words :: "string \<Rightarrow> string list option" where
  "sh_words cmd = sh_plain cmd None"

fun quote_chars :: "string \<Rightarrow> string" where
  "quote_chars [] = []"
| "quote_chars (c # cs) =
     (if c = CHR 0x27 then [CHR 0x27, CHR 0x5C, CHR 0x27, CHR 0x27] else [c]) @ quote_chars cs"

lemma quote_loop_Some: "quote_loop sz dst s = Some d \<Longrightarrow> d = dst @ quote_chars s"
  by (induction sz dst s rule: quote_loop.induct)
    (auto simp: snapshot_append_text_def split: if_splits option.splits)

lemma shell_quote_Some:
  "snapshot_shell_quote sz s = Some d \<Longrightarrow>
     d = [CHR 0x27] @ quote_chars s @ [CHR 0x27] \<and> length d < sz"
  by (auto simp: snapshot_shell_quote_def snapshot_append_text_def dest!: quote_loop_Some
      split: option.splits if_splits)

lemma sh_quoted_chars:
  "sh_quoted (quote_chars s @ [CHR 0x27] @ rest) w = sh_plain rest (Some (w @ s))"
  by (induction s arbitrary: w) auto

lemma sh_plain_quoted:
  assumes "snapshot_shell_quote sz s = Some d"
  shows "sh_plain (d @ rest) None = sh_plain rest (Some s)"
  using shell_quote_Some [OF assms] sh_quoted_chars [of s rest "[]"] by simp

text \<open>The words of the command are the fixed arguments and the two paths, whatever these contain.\<close>

lemma ffmpeg_words:
  assumes "snapshot_shell_quote k h = Some qh" and "snapshot_shell_quote l i = Some qi"
  shows "sh_words (ffmpeg_command qh qi) =
    Some [''ffmpeg'', ''-hide_banner'', ''-loglevel'', ''error'', ''-y'', ''-f'', ''hevc'', ''-i'', h,
          ''-frames:v'', ''1'', i]"
proof -
  have front: "sh_plain (''ffmpeg -hide_banner -loglevel error -y -f hevc -i '' @ x) None =
      map_option (append [''ffmpeg'', ''-hide_banner'', ''-loglevel'', ''error'', ''-y'', ''-f'', ''hevc'', ''-i''])
        (sh_plain x None)" for x
    by (cases "sh_plain x None") (simp_all add: plain_char_def is_digit_def)
  have mid: "sh_plain ('' -frames:v 1 '' @ x) (Some w) =
      map_option (append [w, ''-frames:v'', ''1'']) (sh_plain x None)" for x w
    by (cases "sh_plain x None") (simp_all add: plain_char_def is_digit_def)
  have "sh_plain qi None = Some [i]" using sh_plain_quoted [OF assms(2), of "[]"] by simp
  then show ?thesis
    by (simp only: sh_words_def ffmpeg_command_def front sh_plain_quoted [OF assms(1)] mid) simp
qed

section \<open>Saving a file\<close>

lemma convert_words:
  "case snapshot_convert_h265_to_image S h265_path image_path f of
     (r, f') \<Rightarrow>
       (r, f') = (-1, f) \<or>
       (\<exists>cmd ret. sh_words cmd = Some [''ffmpeg'', ''-hide_banner'', ''-loglevel'', ''error'', ''-y'', ''-f'',
           ''hevc'', ''-i'', h265_path, ''-frames:v'', ''1'', image_path] \<and> length cmd < 1024 \<and>
         os_system S (fs_calls f) cmd (fs_files f) = (ret, fs_files f') \<and> r = (if ret \<noteq> 0 then -1 else 0))"
proof (cases "snapshot_shell_quote SNAPSHOT_CMD_MAX h265_path")
  case (Some qh)
  show ?thesis
  proof (cases "snapshot_shell_quote SNAPSHOT_CMD_MAX image_path")
    case qi: (Some qi)
    obtain ret files' where sys: "os_system S (fs_calls f) (ffmpeg_command qh qi) (fs_files f) = (ret, files')"
      by fastforce
    show ?thesis
    proof (cases "length (ffmpeg_command qh qi) \<ge> SNAPSHOT_CMD_MAX")
      case False
      then have "snapshot_convert_h265_to_image S h265_path image_path f =
          (if ret \<noteq> 0 then -1 else 0, f\<lparr>fs_calls := fs_calls f + 1, fs_files := files'\<rparr>)"
        using Some qi sys by (simp add: snapshot_convert_h265_to_image_def Let_def)
      moreover have "length (ffmpeg_command qh qi) < 1024" using False by (simp add: SNAPSHOT_CMD_MAX_def)
      ultimately show ?thesis
        using ffmpeg_words [OF Some qi] sys by auto
    qed (simp add: snapshot_convert_h265_to_image_def Some qi Let_def)
  qed (simp add: snapshot_convert_h265_to_image_def Some)
qed (simp add: snapshot_convert_h265_to_image_def)



text \<open>Documented behaviour of \<open>ffmpeg -y ... out\<close>: it changes no file but its output.\<close>

definition ffmpeg_writes_output_only :: "os_env \<Rightarrow> bool" where
  "ffmpeg_writes_output_only S \<longleftrightarrow>
     (\<forall>t cmd ws files p. sh_words cmd = Some ws \<longrightarrow> ws \<noteq> [] \<longrightarrow> p \<noteq> last ws \<longrightarrow>
        snd (os_system S t cmd files) p = files p)"

lemma convert_preserves:
  assumes "ffmpeg_writes_output_only S" and "snapshot_convert_h265_to_image S h i f = (r, f')" and "p \<noteq> i"
  shows "fs_files f' p = fs_files f p"
proof -
  from convert_words [where S = S and h265_path = h and image_path = i and f = f] assms(2) consider "f' = f"
    | cmd ret where "sh_words cmd = Some [''ffmpeg'', ''-hide_banner'', ''-loglevel'', ''error'', ''-y'', ''-f'',
           ''hevc'', ''-i'', h, ''-frames:v'', ''1'', i]"
        "os_system S (fs_calls f) cmd (fs_files f) = (ret, fs_files f')" by auto
  then show ?thesis
  proof cases
    case 2
    have "snd (os_system S (fs_calls f) cmd (fs_files f)) p = fs_files f p"
      using assms(1,3) 2(1) unfolding ffmpeg_writes_output_only_def by fastforce
    with 2(2) show ?thesis by simp
  qed simp
qed

lemma write_file_cases:
  assumes "snapshot_write_file S dir data seq f = Some (r, seq', f')"
  obtains "fs_files f' = fs_files f" "r = -1"
  | h i k where "fs_files f h = None" "fs_files f i = None" "fs_files f' = (fs_files f)(h := Some (take k data))" "r = -1"
  | h i f3 c f4 where "fs_files f h = None" "fs_files f i = None" "h \<noteq> i"
      "fs_files f3 = (fs_files f)(h := Some data)" "snapshot_convert_h265_to_image S h i f3 = (c, f4)"
      "if c = 0 then r = 0 \<and> f' = unlink_file S h f4 else r = -1 \<and> f' = f4"
proof (cases "snapshot_open_unique_h265 S dir SNAPSHOT_PATH_MAX SNAPSHOT_PATH_MAX seq f")
  case (fields hi s1 f1)
  show ?thesis
  proof (cases hi)
    case None
    with assms fields show ?thesis
      using that(1) open_unique_loop_None [of S dir SNAPSHOT_PATH_MAX SNAPSHOT_PATH_MAX 1000000 seq f s1 f1]
      by (auto simp: snapshot_write_file_def snapshot_open_unique_h265_def)
  next
    case (Some p)
    obtain h i where hi: "hi = Some (h, i)" using Some by (cases p) auto
    from open_unique_loop_Some [OF fields [unfolded hi snapshot_open_unique_h265_def]]
    have fresh: "fs_files f h = None" "fs_files f i = None" "fs_files f1 = (fs_files f)(h := Some [])"
      and names: "h = snapshot_path dir s1 ''h265''" "i = snapshot_path dir s1 ''jpg''" by auto
    have ne: "h \<noteq> i" by (simp add: names snapshot_path_def)
    obtain r2 f2 where w: "snapshot_write_all S h data f1 = Some (r2, f2)"
      using assms fields hi by (auto simp: snapshot_write_file_def split: option.splits)
    from write_all_result [OF w, of "[]"] fresh obtain k where
      k: "fs_files f2 = (fs_files f)(h := Some (take k data))"
      and all: "r2 = 0 \<longrightarrow> fs_files f2 = (fs_files f)(h := Some data)" by auto
    let ?f3 = "f2\<lparr>fs_calls := fs_calls f2 + 1\<rparr>"
    obtain c f4 where conv: "snapshot_convert_h265_to_image S h i ?f3 = (c, f4)" by fastforce
    show ?thesis
    proof (cases "r2 = 0 \<and> os_close S (fs_calls f2) = 0")
      case True
      with assms fields hi w conv have "if c = 0 then r = 0 \<and> f' = unlink_file S h f4 else r = -1 \<and> f' = f4"
        by (auto simp: snapshot_write_file_def Let_def split: if_splits)
      then show ?thesis
        using that(3) [OF fresh(1,2) ne _ conv] all True by simp
    next
      case False
      with assms fields hi w have "r = -1" "f' = ?f3"
        by (auto simp: snapshot_write_file_def Let_def split: if_splits)
      then show ?thesis using that(2) [OF fresh(1,2)] k by simp
    qed
  qed
qed

lemma write_file_live:
  assumes "\<forall>t n. \<exists>t' \<ge> t. os_write S t' n \<noteq> Write_EINTR"
  shows "\<exists>r. snapshot_write_file S dir data seq f = Some r"
proof (cases "snapshot_open_unique_h265 S dir SNAPSHOT_PATH_MAX SNAPSHOT_PATH_MAX seq f")
  case (fields hi s1 f1)
  show ?thesis
  proof (cases hi)
    case None
    with fields show ?thesis by (simp add: snapshot_write_file_def)
  next
    case (Some p)
    obtain h i where hi: "hi = Some (h, i)" using Some by (cases p) auto
    obtain r2 f2 where "snapshot_write_all S h data f1 = Some (r2, f2)"
      using write_all_loop_live [OF assms, of h data 0 f1] by (auto simp: snapshot_write_all_def)
    with fields hi show ?thesis
      by (auto simp: snapshot_write_file_def Let_def split: prod.splits)
  qed
qed

section \<open>Properties\<close>

text \<open>
  C23: No shell injection: whatever characters the two paths contain, the conversion either runs no
  command and fails, or runs one command that the shell splits into \<open>ffmpeg\<close>, its fixed arguments and
  the two paths, each exactly one word.
\<close>

theorem snapshot_convert_no_injection:
  "case snapshot_convert_h265_to_image S h265_path image_path f of
     (r, f') \<Rightarrow>
       (r, f') = (-1, f) \<or>
       (\<exists>cmd ret. sh_words cmd = Some [''ffmpeg'', ''-hide_banner'', ''-loglevel'', ''error'', ''-y'', ''-f'',
           ''hevc'', ''-i'', h265_path, ''-frames:v'', ''1'', image_path] \<and> length cmd < 1024 \<and>
         os_system S (fs_calls f) cmd (fs_files f) = (ret, fs_files f') \<and> r = (if ret \<noteq> 0 then -1 else 0))"
  by (rule convert_words)


text \<open>A system on which everything works, for the witnesses; \<open>ffmpeg\<close> leaves the files alone and fails.\<close>

definition demo_os :: os_env where
  "demo_os = \<lparr>os_mkdir = (\<lambda>_ _. Mkdir_OK), os_open_error = (\<lambda>_ _. False), os_write = (\<lambda>_ n. Wrote n),
     os_close = (\<lambda>_. 0), os_system = (\<lambda>_ _ files. (1, files)), os_unlink = (\<lambda>_ _. True)\<rparr>"

definition demo_fs :: fs where
  "demo_fs = \<lparr>fs_files = (\<lambda>p. if p = ''/s/snapshot_000001.jpg'' then Some [9] else None), fs_dirs = [], fs_calls = 0\<rparr>"

lemma demo_os_ffmpeg: "ffmpeg_writes_output_only demo_os"
  by (simp add: ffmpeg_writes_output_only_def demo_os_def)


text \<open>C25: Saving a snapshot ends unless the system interrupts its writes for ever: up to a million
  names are tried, partial writes are continued, interrupted ones repeated.\<close>

theorem snapshot_write_file_returns:
  assumes "\<forall>t n. \<exists>t' \<ge> t. os_write S t' n \<noteq> Write_EINTR"
  shows "\<exists>r seq' f'. snapshot_write_file S dir data seq f = Some (r, seq', f')"
  using write_file_live [OF assms, of dir data seq f] by (metis prod_cases3)

theorem snapshot_write_file_returns_witness:
  "\<exists>r seq' f'. snapshot_write_file (demo_os\<lparr>os_write := (\<lambda>t n. if even t then Write_EINTR else Wrote 1)\<rparr>)
     ''/s'' [1, 2, 3] 0 demo_fs = Some (r, seq', f')"
proof (rule snapshot_write_file_returns, intro allI)
  fix t n :: nat
  have "2 * t + 1 \<ge> t \<and> os_write (demo_os\<lparr>os_write := (\<lambda>t n. if even t then Write_EINTR else Wrote 1)\<rparr>)
      (2 * t + 1) n \<noteq> Write_EINTR" by simp
  then show "\<exists>t' \<ge> t. os_write (demo_os\<lparr>os_write := (\<lambda>t n. if even t then Write_EINTR else Wrote 1)\<rparr>) t' n
      \<noteq> Write_EINTR" by blast
qed

end
