(* ===== verification/Writer_Queue.thy ===== *)
theory Writer_Queue
  imports Writer_Files "HOL-Library.Multiset"
begin

text \<open>
  The queue of snapshots and the thread that saves them (\<open>src/snapshot_writer.c\<close>): a ring of four
  slots under a mutex, one producer, one consumer thread, and the shutdown. A heap block is the
  pair of its address and its bytes; \<open>wr_freed\<close> is the list of the addresses passed to
  \<open>free\<close>. The two threads are interleaved at their critical sections by the relation
  \<open>writer_step\<close>.
\<close>

section \<open>State\<close>

type_synonym block = "nat \<times> bytes"

text \<open>A job; \<open>len\<close> is the length of the block, a zeroed slot is \<open>zero_job\<close>.\<close>

record snapshot_job =
  jb_data :: "block option"
  jb_pts :: u64
  jb_reason :: string

definition zero_job :: snapshot_job where
  "zero_job = \<lparr>jb_data = None, jb_pts = 0, jb_reason = []\<rparr>"

definition job_len :: "snapshot_job \<Rightarrow> nat" where
  "job_len j = (case jb_data j of None \<Rightarrow> 0 | Some (_, bs) \<Rightarrow> length bs)"

text \<open>Where the writer thread is: it does not exist, it is before its critical section, it works on
  a job outside the mutex, or it has left its loop.\<close>

datatype writer_thread = No_Thread | Waiting | Working snapshot_job | Exited

text \<open>The static variables, the thread, the files, and the trace of \<open>free\<close> and of finished jobs.\<close>

record writer =
  wr_started :: bool
  wr_stop :: bool
  wr_queue :: "snapshot_job list"
  wr_head :: nat
  wr_tail :: nat
  wr_count :: nat
  wr_seq :: u32
  wr_dir :: string
  wr_thread :: writer_thread
  wr_fs :: fs
  wr_freed :: "nat list"
  wr_done :: "snapshot_job list"

definition SNAPSHOT_QUEUE_DEPTH :: nat where "SNAPSHOT_QUEUE_DEPTH = 4"
definition SNAPSHOT_DEFAULT_DIR :: string where "SNAPSHOT_DEFAULT_DIR = ''/sdcard/snapshots''"

definition writer_zero :: "fs \<Rightarrow> writer" where
  "writer_zero f = \<lparr>wr_started = False, wr_stop = False, wr_queue = replicate 4 zero_job, wr_head = 0, wr_tail = 0,
     wr_count = 0, wr_seq = 0, wr_dir = SNAPSHOT_DEFAULT_DIR, wr_thread = No_Thread, wr_fs = f,
     wr_freed = [], wr_done = []\<rparr>"

section \<open>Operations\<close>

definition free_block :: "block option \<Rightarrow> writer \<Rightarrow> writer" where
  "free_block b w = (case b of None \<Rightarrow> w | Some (a, _) \<Rightarrow> w\<lparr>wr_freed := wr_freed w @ [a]\<rparr>)"

text \<open>\<open>free(job->data)\<close>; the caller's job is zeroed afterwards.\<close>

definition snapshot_free_job :: "snapshot_job \<Rightarrow> writer \<Rightarrow> snapshot_job \<times> writer" where
  "snapshot_free_job job w = (zero_job, free_block (jb_data job) w)"

definition snapshot_pop_job :: "writer \<Rightarrow> (snapshot_job \<times> writer) option" where
  "snapshot_pop_job w =
     (if wr_count w = 0 then None
      else Some (wr_queue w ! wr_head w,
        w\<lparr>wr_queue := (wr_queue w)[wr_head w := zero_job],
          wr_head := (wr_head w + 1) mod SNAPSHOT_QUEUE_DEPTH,
          wr_count := wr_count w - 1\<rparr>))"

text \<open>The part of the enqueueing that changes the ring, after the test for a full queue.\<close>

definition queue_push :: "snapshot_job \<Rightarrow> writer \<Rightarrow> writer option" where
  "queue_push job w =
     (if wr_count w \<ge> SNAPSHOT_QUEUE_DEPTH then None
      else Some (w\<lparr>wr_queue := (wr_queue w)[wr_tail w := job],
                   wr_tail := (wr_tail w + 1) mod SNAPSHOT_QUEUE_DEPTH,
                   wr_count := wr_count w + 1\<rparr>))"

definition make_job :: "block \<Rightarrow> u64 \<Rightarrow> string option \<Rightarrow> snapshot_job" where
  "make_job b pts reason =
     \<lparr>jb_data = Some b, jb_pts = pts,
      jb_reason = take 31 (case reason of None \<Rightarrow> ''manual'' | Some r \<Rightarrow> r)\<rparr>"

definition snapshot_writer_enqueue_h265_take ::
    "block option \<Rightarrow> u64 \<Rightarrow> string option \<Rightarrow> writer \<Rightarrow> int \<times> writer" where
  "snapshot_writer_enqueue_h265_take datap pts reason w =
     (case datap of
        None \<Rightarrow> (-1, w)
      | Some b \<Rightarrow>
          if length (snd b) = 0 then (-1, free_block (Some b) w)
          else
            let job = make_job b pts reason in
            if \<not> wr_started w \<or> wr_stop w then (-1, snd (snapshot_free_job job w))
            else (case queue_push job w of
                    None \<Rightarrow> (-1, snd (snapshot_free_job job w))
                  | Some w' \<Rightarrow> (0, w')))"

text \<open>\<open>addrp\<close> is what \<open>malloc\<close> returns.\<close>

definition snapshot_writer_enqueue_h265 ::
    "nat option \<Rightarrow> bytes option \<Rightarrow> u64 \<Rightarrow> string option \<Rightarrow> writer \<Rightarrow> int \<times> writer" where
  "snapshot_writer_enqueue_h265 addrp datap pts reason w =
     (case datap of
        None \<Rightarrow> (-1, w)
      | Some data \<Rightarrow>
          if length data = 0 then (-1, w)
          else (case addrp of
                  None \<Rightarrow> (-1, w)
                | Some a \<Rightarrow> snapshot_writer_enqueue_h265_take (Some (a, data)) pts reason w))"

text \<open>
  The writer thread: its critical section, which is not left (\<open>None\<close>) while there is nothing to
  do, and the work on a job (\<open>None\<close> when the writing never ends).
\<close>

definition snapshot_writer_take :: "writer \<Rightarrow> writer option" where
  "snapshot_writer_take w =
     (if \<not> wr_stop w \<and> wr_count w = 0 then None
      else if wr_stop w \<and> wr_count w = 0 then Some (w\<lparr>wr_thread := Exited\<rparr>)
      else (case snapshot_pop_job w of
              None \<Rightarrow> Some (w\<lparr>wr_thread := Working zero_job\<rparr>)
            | Some (job, w') \<Rightarrow> Some (w'\<lparr>wr_thread := Working job\<rparr>)))"

definition snapshot_writer_work :: "os_env \<Rightarrow> snapshot_job \<Rightarrow> writer \<Rightarrow> writer option" where
  "snapshot_writer_work S job w =
     map_option (\<lambda>w'. (snd (snapshot_free_job job w'))\<lparr>wr_thread := Waiting, wr_done := wr_done w' @ [job]\<rparr>)
       (case jb_data job of
          None \<Rightarrow> Some w
        | Some (_, data) \<Rightarrow>
            if length data > 0 then
              map_option (\<lambda>(r, seq', f'). w\<lparr>wr_seq := seq', wr_fs := f'\<rparr>)
                (snapshot_write_file S (wr_dir w) data (wr_seq w) (wr_fs w))
            else Some w)"

text \<open>\<open>created\<close> says whether \<open>pthread_create\<close> succeeds.\<close>

definition snapshot_writer_init :: "os_env \<Rightarrow> bool \<Rightarrow> string option \<Rightarrow> writer \<Rightarrow> int \<times> writer" where
  "snapshot_writer_init S created dirp w =
     (let target_dir = (case dirp of None \<Rightarrow> SNAPSHOT_DEFAULT_DIR
                        | Some d \<Rightarrow> if d = [] then SNAPSHOT_DEFAULT_DIR else d)
      in if length target_dir \<ge> SNAPSHOT_PATH_MAX then (-1, w)
         else case snapshot_mkdir_p S (Some target_dir) (wr_fs w) of
           (r, f1) \<Rightarrow>
             let w1 = w\<lparr>wr_fs := f1\<rparr> in
             if r \<noteq> 0 then (-1, w1)
             else if wr_started w1 then (0, w1)
             else
               let w2 = w1\<lparr>wr_dir := take (SNAPSHOT_PATH_MAX - 1) target_dir, wr_stop := False, wr_head := 0,
                           wr_tail := 0, wr_count := 0, wr_seq := 0\<rparr>
               in if \<not> created then (-1, w2)
                  else (0, w2\<lparr>wr_thread := Waiting, wr_started := True\<rparr>))"

text \<open>The shutdown up to \<open>pthread_join\<close> (\<open>None\<close> when there is nothing to stop) and after it.\<close>

definition snapshot_writer_deinit_begin :: "writer \<Rightarrow> writer option" where
  "snapshot_writer_deinit_begin w = (if \<not> wr_started w then None else Some (w\<lparr>wr_stop := True\<rparr>))"

fun free_slots :: "nat list \<Rightarrow> writer \<Rightarrow> writer" where
  "free_slots [] w = w"
| "free_slots (i # is) w =
     (case snapshot_free_job (wr_queue w ! i) w of
        (z, w1) \<Rightarrow> free_slots is (w1\<lparr>wr_queue := (wr_queue w1)[i := z]\<rparr>))"

definition snapshot_writer_deinit_end :: "writer \<Rightarrow> writer" where
  "snapshot_writer_deinit_end w =
     (free_slots [0..<SNAPSHOT_QUEUE_DEPTH] w)\<lparr>wr_started := False, wr_stop := False, wr_head := 0,
        wr_tail := 0, wr_count := 0, wr_thread := No_Thread\<rparr>"

section \<open>A bounded first-in first-out queue\<close>

datatype 'j queue_op = Enq 'j | Deq

text \<open>A run of operations: the jobs accepted, the jobs delivered and the queue afterwards.\<close>

fun fifo_run ::
    "('j \<Rightarrow> 'q \<Rightarrow> 'q option) \<Rightarrow> ('q \<Rightarrow> ('j \<times> 'q) option) \<Rightarrow> 'j queue_op list \<Rightarrow> 'q \<Rightarrow> 'j list \<times> 'j list \<times> 'q" where
  "fifo_run enq deq [] q = ([], [], q)"
| "fifo_run enq deq (Enq j # os) q =
     (case enq j q of None \<Rightarrow> fifo_run enq deq os q
      | Some q' \<Rightarrow> (case fifo_run enq deq os q' of (ins, outs, r) \<Rightarrow> (j # ins, outs, r)))"
| "fifo_run enq deq (Deq # os) q =
     (case deq q of None \<Rightarrow> fifo_run enq deq os q
      | Some (j, q') \<Rightarrow> (case fifo_run enq deq os q' of (ins, outs, r) \<Rightarrow> (ins, j # outs, r)))"

locale bounded_fifo =
  fixes enq :: "'j \<Rightarrow> 'q \<Rightarrow> 'q option"
    and deq :: "'q \<Rightarrow> ('j \<times> 'q) option"
    and items :: "'q \<Rightarrow> 'j list"
    and ok :: "'q \<Rightarrow> bool"
    and cap :: nat
  assumes items_cap: "ok q \<Longrightarrow> length (items q) \<le> cap"
    and enq_Some: "ok q \<Longrightarrow> enq j q = Some q' \<Longrightarrow> ok q' \<and> items q' = items q @ [j]"
    and enq_None: "ok q \<Longrightarrow> enq j q = None \<longleftrightarrow> length (items q) = cap"
    and deq_Some: "ok q \<Longrightarrow> deq q = Some (j, q') \<Longrightarrow> ok q' \<and> items q = j # items q'"
    and deq_None: "ok q \<Longrightarrow> deq q = None \<longleftrightarrow> items q = []"
begin

lemma run_fifo:
  "ok q \<Longrightarrow> fifo_run enq deq os q = (ins, outs, r) \<Longrightarrow> ok r \<and> items q @ ins = outs @ items r"
proof (induction os arbitrary: q ins outs)
  case (Cons oper os)
  show ?case
  proof (cases oper)
    case (Enq j)
    show ?thesis
    proof (cases "enq j q")
      case None
      with Cons Enq show ?thesis by auto
    next
      case (Some q')
      with Cons.prems Enq obtain ins' where "fifo_run enq deq os q' = (ins', outs, r)" "ins = j # ins'"
        by (auto split: prod.splits)
      with Cons.IH [of q'] enq_Some [OF Cons.prems(1) Some] show ?thesis by auto
    qed
  next
    case Deq
    show ?thesis
    proof (cases "deq q")
      case None
      with Cons Deq show ?thesis by auto
    next
      case (Some p)
      then obtain j q' where p: "deq q = Some (j, q')" by (cases p) auto
      with Cons.prems Deq obtain outs' where "fifo_run enq deq os q' = (ins, outs', r)" "outs = j # outs'"
        by (auto split: prod.splits)
      with Cons.IH [of q'] deq_Some [OF Cons.prems(1) p] show ?thesis by auto
    qed
  qed
qed simp

lemma run_bounded:
  assumes "ok q" and "fifo_run enq deq os q = (ins, outs, r)"
  shows "length ins \<le> cap + length outs"
proof -
  from run_fifo [OF assms] have "ok r" and "items q @ ins = outs @ items r" by auto
  then have "length (items q) + length ins = length outs + length (items r)" by (metis length_append)
  with items_cap [OF \<open>ok r\<close>] show ?thesis by simp
qed

end

section \<open>The ring is such a queue\<close>

definition ring_items :: "writer \<Rightarrow> snapshot_job list" where
  "ring_items w = map (\<lambda>k. wr_queue w ! ((wr_head w + k) mod 4)) [0..<wr_count w]"

text \<open>The slots in use are the \<open>count\<close> ones from \<open>head\<close> on, \<open>tail\<close> is the next one, the others are
  zeroed.\<close>

definition ring_ok :: "writer \<Rightarrow> bool" where
  "ring_ok w \<longleftrightarrow> length (wr_queue w) = 4 \<and> wr_head w < 4 \<and> wr_count w \<le> 4 \<and>
     wr_tail w = (wr_head w + wr_count w) mod 4 \<and>
     (\<forall>i < 4. (\<forall>k < wr_count w. (wr_head w + k) mod 4 \<noteq> i) \<longrightarrow> wr_queue w ! i = zero_job)"

lemma ring_index_inj:
  assumes "k < c" and "c < 4"
  shows "(h + k) mod 4 \<noteq> (h + c) mod (4 :: nat)"
proof
  assume "(h + k) mod 4 = (h + c) mod (4 :: nat)"
  then have "(h + c) mod 4 = (h + k) mod (4 :: nat)" by simp
  then have "4 dvd (h + c) - (h + k)" using assms(1) by (simp only: mod_eq_dvd_iff_nat add_le_cancel_left less_imp_le)
  then have "4 \<le> c - k" using assms(1) by (auto dest: dvd_imp_le)
  with assms(2) show False by simp
qed

lemma queue_push_Some:
  assumes "ring_ok w" and "queue_push j w = Some w'"
  shows "ring_ok w' \<and> ring_items w' = ring_items w @ [j]"
proof -
  let ?h = "wr_head w" and ?c = "wr_count w"
  have c: "?c < 4" and t: "wr_tail w = (?h + ?c) mod 4" and len: "length (wr_queue w) = 4"
    and w': "w' = w\<lparr>wr_queue := (wr_queue w)[wr_tail w := j], wr_tail := (wr_tail w + 1) mod 4, wr_count := ?c + 1\<rparr>"
    using assms by (auto simp: ring_ok_def queue_push_def SNAPSHOT_QUEUE_DEPTH_def split: if_splits)
  have "map (\<lambda>k. (wr_queue w)[(?h + ?c) mod 4 := j] ! ((?h + k) mod 4)) [0..<?c] = ring_items w"
    unfolding ring_items_def
  proof (rule map_cong)
    fix k
    assume "k \<in> set [0..<?c]"
    then have "(?h + ?c) mod 4 \<noteq> (?h + k) mod 4" using ring_index_inj [OF _ c, of k ?h] by simp
    then show "(wr_queue w)[(?h + ?c) mod 4 := j] ! ((?h + k) mod 4) = wr_queue w ! ((?h + k) mod 4)" by simp
  qed simp
  then have items: "ring_items w' = ring_items w @ [j]"
    using len by (simp add: ring_items_def w' t)
  have "wr_queue w' ! i = zero_job" if "i < 4" and free: "\<forall>k < ?c + 1. (?h + k) mod 4 \<noteq> i" for i
  proof -
    have "i \<noteq> wr_tail w" using free t by auto
    moreover have "\<forall>k < ?c. (?h + k) mod 4 \<noteq> i" using free by auto
    ultimately show ?thesis using assms(1) that(1) by (auto simp: ring_ok_def w')
  qed
  moreover have "((?h + ?c) mod 4 + 1) mod 4 = (?h + (?c + 1)) mod 4" by (simp add: mod_simps)
  ultimately show ?thesis using items assms(1) c t by (auto simp: ring_ok_def w')
qed

lemma pop_job_Some:
  assumes "ring_ok w" and "snapshot_pop_job w = Some (j, w')"
  shows "ring_ok w' \<and> ring_items w = j # ring_items w'"
proof -
  let ?h = "wr_head w" and ?c = "wr_count w"
  have c: "0 < ?c" "?c \<le> 4" and h: "?h < 4" and len: "length (wr_queue w) = 4" and j: "j = wr_queue w ! ?h"
    and w': "w' = w\<lparr>wr_queue := (wr_queue w)[?h := zero_job], wr_head := (?h + 1) mod 4, wr_count := ?c - 1\<rparr>"
    using assms by (auto simp: ring_ok_def snapshot_pop_job_def SNAPSHOT_QUEUE_DEPTH_def split: if_splits)
  have shift: "((?h + 1) mod 4 + k) mod 4 = (?h + Suc k) mod 4" for k by (simp add: mod_simps)
  have other: "?h \<noteq> (?h + Suc k) mod 4" if "k < ?c - 1" for k
    using that c h ring_index_inj [of 0 "Suc k" ?h] by simp
  have "ring_items w = wr_queue w ! ?h # map (\<lambda>k. wr_queue w ! ((?h + Suc k) mod 4)) [0..<?c - 1]"
    using c h by (cases ?c) (simp_all add: ring_items_def map_upt_Suc del: upt_Suc)
  moreover have "map (\<lambda>k. wr_queue w ! ((?h + Suc k) mod 4)) [0..<?c - 1] = ring_items w'"
    unfolding ring_items_def w' using other shift by (auto intro!: map_cong)
  ultimately have items: "ring_items w = j # ring_items w'" using j by simp
  have "wr_queue w' ! i = zero_job" if "i < 4" and free: "\<forall>k < ?c - 1. ((?h + 1) mod 4 + k) mod 4 \<noteq> i" for i
  proof (cases "i = ?h")
    case True
    then show ?thesis using len h by (simp add: w')
  next
    case False
    have "(?h + k) mod 4 \<noteq> i" if "k < ?c" for k
      using that free False h shift [of "k - 1"] by (cases k) auto
    then show ?thesis using assms(1) \<open>i < 4\<close> False by (auto simp: ring_ok_def w')
  qed
  moreover have "(?h + ?c) mod 4 = ((?h + 1) mod 4 + (?c - 1)) mod 4" using c shift [of "?c - 1"] by simp
  ultimately show ?thesis using items assms(1) c by (auto simp: ring_ok_def w')
qed

interpretation ring: bounded_fifo queue_push snapshot_pop_job ring_items ring_ok 4
proof unfold_locales
  fix w j w'
  show "ring_ok w \<Longrightarrow> length (ring_items w) \<le> 4" by (simp add: ring_ok_def ring_items_def)
  show "ring_ok w \<Longrightarrow> queue_push j w = None \<longleftrightarrow> length (ring_items w) = 4"
    by (auto simp: queue_push_def ring_ok_def ring_items_def SNAPSHOT_QUEUE_DEPTH_def)
  show "ring_ok w \<Longrightarrow> snapshot_pop_job w = None \<longleftrightarrow> ring_items w = []"
    by (auto simp: snapshot_pop_job_def ring_items_def)
qed (use queue_push_Some pop_job_Some in blast)+

section \<open>Two threads\<close>

text \<open>
  A configuration: the addresses of the blocks handed over so far, the jobs accepted so far (for
  which the enqueueing returned 0), and the state. \<open>malloc\<close> never returns an address that is
  in use; here no address is used twice. The producer, the shutdown and the writer thread
  take turns at their critical sections.
\<close>

type_synonym writer_config = "nat list \<times> snapshot_job list \<times> writer"

inductive writer_step :: "os_env \<Rightarrow> writer_config \<Rightarrow> writer_config \<Rightarrow> bool" for S :: os_env where
  ws_init: "snapshot_writer_init S created dirp w = (r, w') \<Longrightarrow> writer_step S (gs, acc, w) (gs, acc, w')"
| ws_enqueue: "a \<notin> set gs \<Longrightarrow> snapshot_writer_enqueue_h265_take (Some (a, bs)) pts reason w = (r, w') \<Longrightarrow>
    writer_step S (gs, acc, w)
      (gs @ [a], if r = 0 then acc @ [make_job (a, bs) pts reason] else acc, w')"
| ws_take: "wr_thread w = Waiting \<Longrightarrow> snapshot_writer_take w = Some w' \<Longrightarrow>
    writer_step S (gs, acc, w) (gs, acc, w')"
| ws_work: "wr_thread w = Working j \<Longrightarrow> snapshot_writer_work S j w = Some w' \<Longrightarrow>
    writer_step S (gs, acc, w) (gs, acc, w')"
| ws_stop: "snapshot_writer_deinit_begin w = Some w' \<Longrightarrow> writer_step S (gs, acc, w) (gs, acc, w')"
| ws_join: "wr_stop w \<Longrightarrow> wr_thread w = Exited \<Longrightarrow>
    writer_step S (gs, acc, w) (gs, acc, snapshot_writer_deinit_end w)"

inductive_cases writer_step_elim: "writer_step S (gs, acc, w) c'"

definition working_jobs :: "writer \<Rightarrow> snapshot_job list" where
  "working_jobs w = (case wr_thread w of Working j \<Rightarrow> [j] | _ \<Rightarrow> [])"

definition addrs :: "snapshot_job list \<Rightarrow> nat list" where
  "addrs js = concat (map (\<lambda>j. case jb_data j of None \<Rightarrow> [] | Some (a, _) \<Rightarrow> [a]) js)"

lemma addrs_simps [simp]:
  "addrs [] = []" "addrs (xs @ ys) = addrs xs @ addrs ys"
  "addrs (j # js) = (case jb_data j of None \<Rightarrow> [] | Some (a, _) \<Rightarrow> [a]) @ addrs js"
  by (simp_all add: addrs_def)

text \<open>
  The invariant: each block is in exactly one place (freed, in the ring, in the hands of the
  thread), the accepted jobs are finished in the order in which they were accepted, and the
  thread leaves only when the ring is empty and stays so.
\<close>

definition writer_inv :: "writer_config \<Rightarrow> bool" where
  "writer_inv c \<longleftrightarrow> (case c of (gs, acc, w) \<Rightarrow>
     ring_ok w \<and> distinct gs \<and>
     mset gs = mset (wr_freed w) + mset (addrs (working_jobs w @ ring_items w)) \<and>
     acc = wr_done w @ working_jobs w @ ring_items w \<and>
     (wr_thread w = Exited \<longrightarrow> wr_stop w \<and> ring_items w = []) \<and>
     (wr_started w \<longleftrightarrow> wr_thread w \<noteq> No_Thread) \<and>
     (\<not> wr_started w \<longrightarrow> ring_items w = []))"

lemma free_block_frame [simp]:
  "wr_started (free_block b w) = wr_started w" "wr_stop (free_block b w) = wr_stop w"
  "wr_queue (free_block b w) = wr_queue w" "wr_head (free_block b w) = wr_head w"
  "wr_tail (free_block b w) = wr_tail w" "wr_count (free_block b w) = wr_count w"
  "wr_thread (free_block b w) = wr_thread w" "wr_done (free_block b w) = wr_done w"
  "wr_freed (free_block (Some (a, bs)) w) = wr_freed w @ [a]" "free_block None w = w"
  by (auto simp: free_block_def split: option.splits)

lemma ring_frame:
  "wr_queue w' = wr_queue w \<Longrightarrow> wr_head w' = wr_head w \<Longrightarrow> wr_tail w' = wr_tail w \<Longrightarrow> wr_count w' = wr_count w \<Longrightarrow>
     ring_items w' = ring_items w \<and> ring_ok w' = ring_ok w"
  by (simp add: ring_items_def ring_ok_def)

lemma enqueue_inv:
  assumes inv: "writer_inv (gs, acc, w)" and "a \<notin> set gs"
    and e: "snapshot_writer_enqueue_h265_take (Some (a, bs)) pts reason w = (r, w')"
  shows "writer_inv (gs @ [a], if r = 0 then acc @ [make_job (a, bs) pts reason] else acc, w')"
proof -
  let ?j = "make_job (a, bs) pts reason"
  have freed: "writer_inv (gs @ [a], acc, free_block (Some (a, bs)) w)"
    using inv assms(2) ring_frame [of "free_block (Some (a, bs)) w" w]
    by (simp add: writer_inv_def working_jobs_def)
  consider "r = -1" "w' = free_block (Some (a, bs)) w"
    | "r = 0" "queue_push ?j w = Some w'" "wr_started w" "\<not> wr_stop w"
    using e by (auto simp: snapshot_writer_enqueue_h265_take_def Let_def snapshot_free_job_def make_job_def
        split: if_splits option.splits)
  then show ?thesis
  proof cases
    case 1
    with freed show ?thesis by simp
  next
    case 2
    have ok: "ring_ok w" using inv by (simp add: writer_inv_def)
    from ring.enq_Some [OF ok 2(2)] have ring: "ring_ok w'" "ring_items w' = ring_items w @ [?j]" by auto
    have same: "wr_thread w' = wr_thread w" "wr_freed w' = wr_freed w" "wr_done w' = wr_done w"
        "wr_started w' = wr_started w" "wr_stop w' = wr_stop w"
      using 2(2) by (auto simp: queue_push_def split: if_splits)
    have "addrs [?j] = [a]" by (simp add: make_job_def)
    then show ?thesis
      using inv assms(2) ring same 2 by (auto simp: writer_inv_def working_jobs_def)
  qed
qed

lemma take_inv:
  assumes inv: "writer_inv (gs, acc, w)" and "wr_thread w = Waiting" and t: "snapshot_writer_take w = Some w'"
  shows "writer_inv (gs, acc, w')"
proof (cases "wr_count w = 0")
  case True
  then have "w' = w\<lparr>wr_thread := Exited\<rparr>" "wr_stop w" "ring_items w = []"
    using t by (auto simp: snapshot_writer_take_def ring_items_def split: if_splits)
  with inv assms(2) ring_frame [of w' w] show ?thesis by (simp add: writer_inv_def working_jobs_def)
next
  case False
  then obtain j w1 where p: "snapshot_pop_job w = Some (j, w1)" and w': "w' = w1\<lparr>wr_thread := Working j\<rparr>"
    using t by (auto simp: snapshot_writer_take_def snapshot_pop_job_def split: if_splits)
  have "ring_ok w" using inv by (simp add: writer_inv_def)
  from ring.deq_Some [OF this p] ring_frame [of w' w1] w'
  have "ring_ok w'" "ring_items w = j # ring_items w'" by auto
  moreover have "wr_freed w' = wr_freed w" "wr_done w' = wr_done w" "wr_started w' = wr_started w"
    using p w' by (auto simp: snapshot_pop_job_def split: if_splits)
  ultimately show ?thesis
    using inv assms(2) w' by (auto simp: writer_inv_def working_jobs_def)
qed

lemma work_inv:
  assumes inv: "writer_inv (gs, acc, w)" and th: "wr_thread w = Working j" and t: "snapshot_writer_work S j w = Some w'"
  shows "writer_inv (gs, acc, w')"
proof -
  let ?X = "case jb_data j of
        None \<Rightarrow> Some w
      | Some (_, data) \<Rightarrow>
          if length data > 0 then
            map_option (\<lambda>(r, seq', f'). w\<lparr>wr_seq := seq', wr_fs := f'\<rparr>)
              (snapshot_write_file S (wr_dir w) data (wr_seq w) (wr_fs w))
          else Some w"
  obtain w1 where X: "?X = Some w1"
    and w': "w' = (snd (snapshot_free_job j w1))\<lparr>wr_thread := Waiting, wr_done := wr_done w1 @ [j]\<rparr>"
    using t unfolding snapshot_writer_work_def by blast
  from X have "wr_queue w1 = wr_queue w" "wr_head w1 = wr_head w" "wr_tail w1 = wr_tail w"
    "wr_count w1 = wr_count w" "wr_done w1 = wr_done w" "wr_started w1 = wr_started w" "wr_freed w1 = wr_freed w"
    by (auto split: option.splits if_splits)
  then have frame: "ring_items w' = ring_items w" "ring_ok w' = ring_ok w" "wr_done w' = wr_done w @ [j]"
    "wr_thread w' = Waiting" "wr_started w' = wr_started w"
    "wr_freed w' = wr_freed w @ (case jb_data j of None \<Rightarrow> [] | Some (a, _) \<Rightarrow> [a])"
    using ring_frame [of w' w] by (auto simp: w' snapshot_free_job_def split: option.splits)
  from inv th frame show ?thesis
    by (cases "jb_data j") (auto simp: writer_inv_def working_jobs_def)
qed

lemma free_slots_zero:
  "(\<forall>i \<in> set is. wr_queue w ! i = zero_job) \<Longrightarrow> free_slots is w = w"
proof (induction "is" arbitrary: w)
  case (Cons i js)
  then have "(wr_queue w)[i := zero_job] = wr_queue w" by (metis list.set_intros(1) list_update_id)
  with Cons show ?case by (simp add: snapshot_free_job_def zero_job_def)
qed simp

lemma ring_empty:
  assumes "ring_ok w" and "ring_items w = []"
  shows "wr_count w = 0" and "\<forall>i < 4. wr_queue w ! i = zero_job" and "length (wr_queue w) = 4"
proof -
  show c: "wr_count w = 0" using assms(2) by (simp add: ring_items_def)
  show "\<forall>i < 4. wr_queue w ! i = zero_job" "length (wr_queue w) = 4" using assms(1) c by (auto simp: ring_ok_def)
qed

lemma join_inv:
  assumes inv: "writer_inv (gs, acc, w)" and "wr_thread w = Exited"
  shows "writer_inv (gs, acc, snapshot_writer_deinit_end w)"
proof -
  have e: "ring_ok w" "ring_items w = []" using inv assms(2) by (simp_all add: writer_inv_def)
  note z = ring_empty [OF e]
  have "free_slots [0..<SNAPSHOT_QUEUE_DEPTH] w = w"
    using z(2) by (intro free_slots_zero) (simp add: SNAPSHOT_QUEUE_DEPTH_def)
  with inv assms(2) e z show ?thesis
    by (simp add: writer_inv_def working_jobs_def snapshot_writer_deinit_end_def ring_ok_def ring_items_def)
qed

lemma init_inv:
  assumes inv: "writer_inv (gs, acc, w)" and i: "snapshot_writer_init S created dirp w = (r, w')"
  shows "writer_inv (gs, acc, w')"
proof -
  have fs: "writer_inv (gs, acc, w\<lparr>wr_fs := f\<rparr>)" for f
    using inv ring_frame [of "w\<lparr>wr_fs := f\<rparr>" w] by (simp add: writer_inv_def working_jobs_def)
  have reset: "writer_inv (gs, acc, w\<lparr>wr_fs := f, wr_dir := d, wr_stop := False, wr_head := 0, wr_tail := 0,
      wr_count := 0, wr_seq := 0\<rparr>)"
    "writer_inv (gs, acc, w\<lparr>wr_fs := f, wr_dir := d, wr_stop := False, wr_head := 0, wr_tail := 0,
      wr_count := 0, wr_seq := 0, wr_thread := Waiting, wr_started := True\<rparr>)"
    if "\<not> wr_started w" for f d
  proof -
    have e: "ring_ok w" "ring_items w = []" "wr_thread w = No_Thread"
      using inv that by (simp_all add: writer_inv_def)
    note z = ring_empty [OF e(1,2)]
    show "writer_inv (gs, acc, w\<lparr>wr_fs := f, wr_dir := d, wr_stop := False, wr_head := 0, wr_tail := 0,
        wr_count := 0, wr_seq := 0\<rparr>)"
      "writer_inv (gs, acc, w\<lparr>wr_fs := f, wr_dir := d, wr_stop := False, wr_head := 0, wr_tail := 0,
        wr_count := 0, wr_seq := 0, wr_thread := Waiting, wr_started := True\<rparr>)"
      using inv e z that by (simp_all add: writer_inv_def working_jobs_def ring_ok_def ring_items_def)
  qed
  define d where "d = (case dirp of None \<Rightarrow> SNAPSHOT_DEFAULT_DIR
      | Some d \<Rightarrow> if d = [] then SNAPSHOT_DEFAULT_DIR else d)"
  obtain rm f1 where m: "snapshot_mkdir_p S (Some d) (wr_fs w) = (rm, f1)" by fastforce
  let ?w2 = "w\<lparr>wr_fs := f1, wr_dir := take (SNAPSHOT_PATH_MAX - 1) d, wr_stop := False, wr_head := 0,
      wr_tail := 0, wr_count := 0, wr_seq := 0\<rparr>"
  have "(r, w') = (if length d \<ge> SNAPSHOT_PATH_MAX then (-1, w)
      else if rm \<noteq> 0 then (-1, w\<lparr>wr_fs := f1\<rparr>)
      else if wr_started w then (0, w\<lparr>wr_fs := f1\<rparr>)
      else if \<not> created then (-1, ?w2)
      else (0, ?w2\<lparr>wr_thread := Waiting, wr_started := True\<rparr>))"
    unfolding i [symmetric] by (simp add: snapshot_writer_init_def d_def [symmetric] m)
  then have "w' = w \<or> w' = w\<lparr>wr_fs := f1\<rparr> \<or> \<not> wr_started w \<and> w' = ?w2 \<or>
      \<not> wr_started w \<and> w' = ?w2\<lparr>wr_thread := Waiting, wr_started := True\<rparr>"
    by (metis Pair_inject)
  then show ?thesis using inv fs [of f1] reset by blast
qed

lemma writer_step_inv: "writer_step S c c' \<Longrightarrow> writer_inv c \<Longrightarrow> writer_inv c'"
proof (induction rule: writer_step.induct)
  case (ws_stop w w' gs acc)
  then show ?case
    using ring_frame [of w' w] by (auto simp: snapshot_writer_deinit_begin_def writer_inv_def working_jobs_def split: if_splits)
next
  case (ws_enqueue a gs bs pts reason w r w' acc)
  then show ?case using enqueue_inv by blast
qed (auto intro: init_inv take_inv work_inv join_inv)

lemma writer_zero_inv: "writer_inv ([], [], writer_zero f)"
  by (auto simp: writer_inv_def writer_zero_def working_jobs_def ring_ok_def ring_items_def)

lemma writer_reachable_inv:
  "(writer_step S)\<^sup>*\<^sup>* ([], [], writer_zero f) c \<Longrightarrow> writer_inv c"
  by (induction rule: rtranclp_induct) (auto intro: writer_zero_inv writer_step_inv)

section \<open>The loop of the writer thread\<close>

text \<open>
  \<open>snapshot_writer_loop\<close> when no other thread acts in between: \<open>n\<close> bounds the iterations, \<open>None\<close> is
  waiting for ever, a write that never ends, or running out of \<open>n\<close>.
\<close>

fun snapshot_writer_loop :: "os_env \<Rightarrow> nat \<Rightarrow> writer \<Rightarrow> writer option" where
  "snapshot_writer_loop S 0 w = None"
| "snapshot_writer_loop S (Suc n) w =
     (case snapshot_writer_take w of
        None \<Rightarrow> None
      | Some w1 \<Rightarrow>
          (case wr_thread w1 of
             Exited \<Rightarrow> Some w1
           | Working j \<Rightarrow>
               (case snapshot_writer_work S j w1 of
                  None \<Rightarrow> None
                | Some w2 \<Rightarrow> snapshot_writer_loop S n w2)
           | _ \<Rightarrow> None))"

lemma work_live:
  assumes "\<forall>t n. \<exists>t' \<ge> t. os_write S t' n \<noteq> Write_EINTR"
  obtains w' where "snapshot_writer_work S j w = Some w'" and "wr_stop w' = wr_stop w"
    and "wr_done w' = wr_done w @ [j]" and "wr_queue w' = wr_queue w" and "wr_head w' = wr_head w"
    and "wr_tail w' = wr_tail w" and "wr_count w' = wr_count w"
proof (cases "jb_data j")
  case None
  with that show ?thesis by (simp add: snapshot_writer_work_def snapshot_free_job_def)
next
  case (Some b)
  obtain a data where b: "b = (a, data)" by (cases b)
  show ?thesis
  proof (cases "data = []")
    case True
    with that Some b show ?thesis by (simp add: snapshot_writer_work_def snapshot_free_job_def)
  next
    case False
    obtain r sq f where "snapshot_write_file S (wr_dir w) data (wr_seq w) (wr_fs w) = Some (r, sq, f)"
      using write_file_live [OF assms, of "wr_dir w" data "wr_seq w" "wr_fs w"] by (metis prod_cases3)
    with that Some b False show ?thesis by (simp add: snapshot_writer_work_def snapshot_free_job_def)
  qed
qed

lemma writer_loop_drains:
  assumes "\<forall>t n. \<exists>t' \<ge> t. os_write S t' n \<noteq> Write_EINTR" and "ring_ok w" and "wr_stop w"
  shows "\<exists>w'. snapshot_writer_loop S (wr_count w + 1) w = Some w' \<and> wr_thread w' = Exited \<and>
    wr_done w' = wr_done w @ ring_items w \<and> wr_count w' = 0"
  using assms(2,3)
proof (induction "wr_count w" arbitrary: w)
  case 0
  then show ?case by (simp add: snapshot_writer_take_def ring_items_def)
next
  case (Suc n)
  obtain j w1 where p: "snapshot_pop_job w = Some (j, w1)"
    using Suc.hyps(2) by (fastforce simp: snapshot_pop_job_def)
  from pop_job_Some [OF Suc.prems(1) p] have ok1: "ring_ok w1" and items: "ring_items w = j # ring_items w1" by auto
  have w1: "wr_count w1 = n" "wr_stop w1" "wr_done w1 = wr_done w"
    using p Suc.hyps(2) Suc.prems(2) by (auto simp: snapshot_pop_job_def split: if_splits)
  have take: "snapshot_writer_take w = Some (w1\<lparr>wr_thread := Working j\<rparr>)"
    using p Suc.hyps(2) by (simp add: snapshot_writer_take_def)
  obtain w2 where w2: "snapshot_writer_work S j (w1\<lparr>wr_thread := Working j\<rparr>) = Some w2" "wr_stop w2 = wr_stop w1"
    "wr_done w2 = wr_done w1 @ [j]" and fr: "wr_queue w2 = wr_queue w1" "wr_head w2 = wr_head w1"
    "wr_tail w2 = wr_tail w1" "wr_count w2 = wr_count w1"
    by (rule work_live [OF assms(1), of j "w1\<lparr>wr_thread := Working j\<rparr>"]) simp
  from ring_frame [OF fr] have ring2: "ring_items w2 = ring_items w1" "ring_ok w2" using ok1 by auto
  have "n = wr_count w2" and "wr_stop w2" using fr w1 w2 by simp_all
  from Suc.hyps(1) [OF this(1) ring2(2) this(2)] obtain w' where
    "snapshot_writer_loop S (n + 1) w2 = Some w'" "wr_thread w' = Exited"
    "wr_done w' = wr_done w2 @ ring_items w2" "wr_count w' = 0"
    using \<open>n = wr_count w2\<close> by auto
  with take w2 w1 items ring2 Suc.hyps(2) show ?case by (simp flip: Suc.hyps(2))
qed

section \<open>Properties\<close>

text \<open>
  The ring of four slots is a bounded first-in first-out queue: over any sequence of enqueueings
  and dequeueings, what was in the ring and what was accepted is what was delivered followed by
  what is left, in this order; never are more than four jobs outstanding.
\<close>

theorem snapshot_queue_fifo:
  assumes "ring_ok w" and "fifo_run queue_push snapshot_pop_job os w = (ins, outs, w')"
  shows "ring_ok w' \<and> ring_items w @ ins = outs @ ring_items w' \<and> length ins \<le> 4 + length outs"
  using ring.run_fifo [OF assms] ring.run_bounded [OF assms] by simp

theorem snapshot_queue_fifo_witness:
  "\<exists>ins outs w'. fifo_run queue_push snapshot_pop_job
     [Deq, Enq zero_job, Enq (make_job (1, [2]) 3 None), Deq, Enq zero_job, Enq zero_job, Enq zero_job, Enq zero_job]
     (writer_zero demo_fs) = (ins, outs, w') \<and> ring_items (writer_zero demo_fs) @ ins = outs @ ring_items w'"
proof -
  obtain ins outs w' where X: "fifo_run queue_push snapshot_pop_job
     [Deq, Enq zero_job, Enq (make_job (1, [2]) 3 None), Deq, Enq zero_job, Enq zero_job, Enq zero_job, Enq zero_job]
     (writer_zero demo_fs) = (ins, outs, w')" by (metis prod_cases3)
  have "ring_ok (writer_zero demo_fs)" using writer_zero_inv by (simp add: writer_inv_def)
  from snapshot_queue_fifo [OF this X] X show ?thesis by blast
qed

text \<open>
  C21: Ownership and order, for every interleaving of the producer, the writer thread, the start and
  the shutdown: each block handed over is in exactly one place (freed, in the ring, with the
  thread), none is freed twice, and the accepted snapshots are saved in the order in which they
  were accepted. When the thread has left its loop, every accepted snapshot has been saved and
  every block freed exactly once.
\<close>

theorem writer_conservation:
  assumes "(writer_step S)\<^sup>*\<^sup>* ([], [], writer_zero f) (gs, acc, w)"
  shows "mset gs = mset (wr_freed w) + mset (addrs (working_jobs w @ ring_items w)) \<and>
    distinct (wr_freed w) \<and> acc = wr_done w @ working_jobs w @ ring_items w \<and>
    (wr_thread w = Exited \<longrightarrow> acc = wr_done w \<and> mset gs = mset (wr_freed w))"
proof -
  have inv: "writer_inv (gs, acc, w)" by (rule writer_reachable_inv [OF assms])
  then have "mset (wr_freed w) \<subseteq># mset gs" and "distinct gs" by (auto simp: writer_inv_def)
  then have "distinct (wr_freed w)"
    by (metis distinct_append mset_append mset_eq_imp_distinct_iff mset_subset_eq_exists_conv ex_mset)
  with inv show ?thesis by (auto simp: writer_inv_def working_jobs_def)
qed

theorem writer_conservation_witness:
  "\<exists>w. (writer_step demo_os)\<^sup>*\<^sup>* ([], [], writer_zero demo_fs) ([7], [], w) \<and> mset (wr_freed w) = {#7#}"
proof -
  let ?w = "free_block (Some (7, [1])) (writer_zero demo_fs)"
  have "snapshot_writer_enqueue_h265_take (Some (7, [1])) 0 None (writer_zero demo_fs) = (-1, ?w)"
    by (simp add: snapshot_writer_enqueue_h265_take_def writer_zero_def snapshot_free_job_def make_job_def)
  from ws_enqueue [OF _ this, of "[]" demo_os "[]"]
  have R: "(writer_step demo_os)\<^sup>*\<^sup>* ([], [], writer_zero demo_fs) ([7], [], ?w)" by (simp add: r_into_rtranclp)
  from writer_conservation [OF R] have "mset [7] = mset (wr_freed ?w) + mset (addrs (working_jobs ?w @ ring_items ?w))"
    by simp
  moreover have "working_jobs ?w @ ring_items ?w = []"
    by (simp add: working_jobs_def ring_items_def writer_zero_def)
  ultimately show ?thesis using R by auto
qed

text \<open>
  C22: Shutdown: once the stop flag is set, the loop of the writer thread saves every snapshot that is
  still queued and then leaves, after as many iterations as there are snapshots, unless the system
  interrupts its writes for ever.
\<close>

theorem snapshot_writer_loop_drains:
  assumes "\<forall>t n. \<exists>t' \<ge> t. os_write S t' n \<noteq> Write_EINTR" and "ring_ok w" and "wr_stop w"
  shows "\<exists>w'. snapshot_writer_loop S (wr_count w + 1) w = Some w' \<and> wr_thread w' = Exited \<and>
    wr_done w' = wr_done w @ ring_items w \<and> wr_count w' = 0"
  by (rule writer_loop_drains [OF assms])

theorem snapshot_writer_loop_drains_witness:
  "\<exists>w'. snapshot_writer_loop demo_os 2
     ((writer_zero demo_fs)\<lparr>wr_stop := True, wr_tail := 1, wr_count := 1,
        wr_queue := [make_job (7, [1]) 0 None, zero_job, zero_job, zero_job]\<rparr>) = Some w' \<and>
     wr_done w' = [make_job (7, [1]) 0 None]"
proof -
  let ?w = "(writer_zero demo_fs)\<lparr>wr_stop := True, wr_tail := 1, wr_count := 1,
        wr_queue := [make_job (7, [1]) 0 None, zero_job, zero_job, zero_job]\<rparr>"
  have "\<forall>t n. \<exists>t' \<ge> t. os_write demo_os t' n \<noteq> Write_EINTR" by (auto simp: demo_os_def)
  moreover have "ring_ok ?w" by (auto simp: ring_ok_def writer_zero_def nth_Cons')
  ultimately have "\<exists>w'. snapshot_writer_loop demo_os (wr_count ?w + 1) ?w = Some w' \<and> wr_thread w' = Exited \<and>
      wr_done w' = wr_done ?w @ ring_items ?w \<and> wr_count w' = 0"
    by (rule snapshot_writer_loop_drains) simp
  then show ?thesis by (simp add: writer_zero_def ring_items_def numeral_2_eq_2) blast
qed

end
