(* ===== verification/Byte_Buffer.thy ===== *)
theory Byte_Buffer
  imports Prelude
begin

text \<open>
  The growing byte buffer \<open>h265_byte_buffer_t\<close> of \<open>src/datafifo_snapshot.c\<close>. A buffer is the
  contents up to \<open>len\<close>, the capacity and whether \<open>data\<close> is not NULL. Sums and products of
  \<open>size_t\<close> are taken modulo \<open>2 ^ 64\<close>. The buffers are static or on the stack, never NULL. The
  locale \<open>append_buffer\<close> is what the snapshot code relies on.
\<close>

section \<open>State\<close>

record byte_buffer =
  bb_alloc :: bool
  bb_bytes :: bytes
  bb_cap :: nat

definition bb_zero :: byte_buffer where
  "bb_zero = \<lparr>bb_alloc = False, bb_bytes = [], bb_cap = 0\<rparr>"

abbreviation bb_len :: "byte_buffer \<Rightarrow> nat" where
  "bb_len b \<equiv> length (bb_bytes b)"

section \<open>Operations\<close>

definition h265_buffer_reset :: "byte_buffer \<Rightarrow> byte_buffer" where
  "h265_buffer_reset b = b\<lparr>bb_bytes := []\<rparr>"

text \<open>
  The doubling loop. \<open>n\<close> bounds the iterations: a non-zero capacity reaches any \<open>size_t\<close> in 64
  doublings (\<open>grow_cap_reaches\<close>).
\<close>

fun grow_cap :: "nat \<Rightarrow> nat \<Rightarrow> nat \<Rightarrow> nat" where
  "grow_cap 0 new_cap needed = new_cap"
| "grow_cap (Suc n) new_cap needed =
     (if new_cap < needed then
        if new_cap > SIZE_MAX div 2 then needed
        else grow_cap n (new_cap * 2) needed
      else new_cap)"

text \<open>\<open>t\<close> counts the allocation requests.\<close>

definition h265_buffer_reserve :: "alloc_env \<Rightarrow> nat \<Rightarrow> byte_buffer \<Rightarrow> nat \<Rightarrow> int \<times> byte_buffer \<times> nat" where
  "h265_buffer_reserve A t b extra_len =
     (if extra_len > SIZE_MAX - bb_len b then (-1, b, t)
      else
        let needed = (bb_len b + extra_len) mod 2 ^ 64 in
        if needed \<le> bb_cap b then (0, b, t)
        else
          let new_cap = grow_cap 65 (if bb_cap b \<noteq> 0 then bb_cap b else 4096) needed in
          if \<not> A t new_cap then (-1, b, t + 1)
          else (0, b\<lparr>bb_alloc := True, bb_cap := new_cap\<rparr>, t + 1))"

definition h265_buffer_append :: "alloc_env \<Rightarrow> nat \<Rightarrow> byte_buffer \<Rightarrow> bytes \<Rightarrow> int \<times> byte_buffer \<times> nat" where
  "h265_buffer_append A t b data =
     (if length data = 0 then (0, b, t)
      else case h265_buffer_reserve A t b (length data) of
        (r, b1, t1) \<Rightarrow>
          if r \<noteq> 0 then (-1, b1, t1)
          else (0, b1\<lparr>bb_bytes := bb_bytes b1 @ data\<rparr>, t1))"

definition h265_buffer_replace :: "alloc_env \<Rightarrow> nat \<Rightarrow> byte_buffer \<Rightarrow> bytes \<Rightarrow> int \<times> byte_buffer \<times> nat" where
  "h265_buffer_replace A t b data = h265_buffer_append A t (h265_buffer_reset b) data"

definition h265_buffer_append_start_code :: "alloc_env \<Rightarrow> nat \<Rightarrow> byte_buffer \<Rightarrow> int \<times> byte_buffer \<times> nat" where
  "h265_buffer_append_start_code A t b = h265_buffer_append A t b [0, 0, 0, 1]"

section \<open>Growth\<close>

lemma grow_cap_reaches:
  "0 < c \<Longrightarrow> needed \<le> SIZE_MAX \<Longrightarrow> SIZE_MAX < c * 2 ^ n \<Longrightarrow>
     needed \<le> grow_cap n c needed"
proof (induction n arbitrary: c)
  case (Suc n)
  then show ?case by (auto simp: mult.assoc)
qed simp

lemma grow_cap_bound:
  "c \<le> SIZE_MAX \<Longrightarrow> needed \<le> SIZE_MAX \<Longrightarrow> grow_cap n c needed \<le> SIZE_MAX \<and> c \<le> grow_cap n c needed"
proof (induction n arbitrary: c)
  case (Suc n)
  show ?case
  proof (cases "c < needed \<and> \<not> c > SIZE_MAX div 2")
    case True
    then have "c * 2 \<le> SIZE_MAX" by (simp add: SIZE_MAX_def)
    from Suc.IH [OF this Suc.prems(2)] True show ?thesis by simp
  qed (use Suc.prems in auto)
qed simp

text \<open>The invariant: the contents fit the capacity, and there is a block when there is capacity.\<close>

definition bb_ok :: "byte_buffer \<Rightarrow> bool" where
  "bb_ok b \<longleftrightarrow> bb_len b \<le> bb_cap b \<and> bb_cap b \<le> SIZE_MAX \<and> (bb_alloc b \<longleftrightarrow> bb_cap b \<noteq> 0)"

lemma reserve_cases:
  assumes "bb_ok b" and "h265_buffer_reserve A t b extra = (r, b', t')"
  shows "bb_ok b' \<and> bb_bytes b' = bb_bytes b \<and> bb_cap b \<le> bb_cap b' \<and> (r = 0 \<or> r = -1) \<and>
    (r = 0 \<longrightarrow> bb_len b + extra \<le> bb_cap b') \<and>
    (r = -1 \<longrightarrow> bb_len b + extra > SIZE_MAX \<or> (\<exists>t n. \<not> A t n))"
proof (cases "extra > SIZE_MAX - bb_len b")
  case True
  with assms show ?thesis by (auto simp: h265_buffer_reserve_def)
next
  case False
  have len: "bb_len b \<le> SIZE_MAX" using assms(1) by (auto simp: bb_ok_def)
  with False have n: "(bb_len b + extra) mod 2 ^ 64 = bb_len b + extra" and le: "bb_len b + extra \<le> SIZE_MAX"
    by (simp_all add: SIZE_MAX_def)
  let ?c = "if bb_cap b \<noteq> 0 then bb_cap b else 4096"
  let ?new = "grow_cap 65 ?c (bb_len b + extra)"
  have c: "0 < ?c" "?c \<le> SIZE_MAX" using assms(1) by (auto simp: bb_ok_def SIZE_MAX_def)
  then have "SIZE_MAX < ?c * 2 ^ 65" by (simp add: SIZE_MAX_def)
  from grow_cap_reaches [OF c(1) le this] grow_cap_bound [OF c(2) le, of 65]
  have new: "bb_len b + extra \<le> ?new" "?new \<le> SIZE_MAX" "?c \<le> ?new" by auto
  have grown: "bb_ok (b\<lparr>bb_alloc := True, bb_cap := ?new\<rparr>)" "bb_cap b \<le> ?new"
    using new assms(1) c by (auto simp: bb_ok_def split: if_splits)
  have "(r, b', t') = (if bb_len b + extra \<le> bb_cap b then (0, b, t)
      else if \<not> A t ?new then (-1, b, t + 1) else (0, b\<lparr>bb_alloc := True, bb_cap := ?new\<rparr>, t + 1))"
    using False unfolding assms(2) [symmetric] h265_buffer_reserve_def Let_def n by (simp only: if_False)
  then show ?thesis
    using assms(1) grown new(1) by (auto split: if_splits)
qed

lemma append_cases:
  assumes "bb_ok b" and "h265_buffer_append A t b data = (r, b', t')"
  shows "bb_ok b' \<and> (r = 0 \<or> r = -1) \<and>
    bb_bytes b' = (if r = 0 then bb_bytes b @ data else bb_bytes b) \<and>
    (r = -1 \<longrightarrow> bb_len b + length data > SIZE_MAX \<or> (\<exists>t n. \<not> A t n))"
proof (cases "data = []")
  case False
  obtain r1 b1 t1 where s: "h265_buffer_reserve A t b (length data) = (r1, b1, t1)" by (metis prod_cases3)
  from reserve_cases [OF assms(1) s] assms(2) False s show ?thesis
    by (auto simp: h265_buffer_append_def bb_ok_def split: if_splits)
qed (use assms in \<open>simp add: h265_buffer_append_def\<close>)

section \<open>The contract\<close>

text \<open>
  \<open>view b\<close> is what a user of the buffer sees. Appending either adds the data or, when it fails,
  leaves the view alone; it fails only without memory or beyond the address space.
\<close>

locale append_buffer =
  fixes append :: "alloc_env \<Rightarrow> nat \<Rightarrow> 'b \<Rightarrow> bytes \<Rightarrow> int \<times> 'b \<times> nat"
    and reset :: "'b \<Rightarrow> 'b"
    and view :: "'b \<Rightarrow> bytes"
    and ok :: "'b \<Rightarrow> bool"
    and limit :: nat
  assumes append_view: "ok b \<Longrightarrow> append A t b data = (r, b', t') \<Longrightarrow>
      ok b' \<and> (r = 0 \<or> r = -1) \<and> view b' = (if r = 0 then view b @ data else view b)"
    and append_live: "ok b \<Longrightarrow> append A t b data = (-1, b', t') \<Longrightarrow>
      (\<forall>t n. A t n) \<Longrightarrow> limit < length (view b) + length data"
    and reset_view: "ok b \<Longrightarrow> ok (reset b) \<and> view (reset b) = []"
begin

text \<open>Appending several pieces, stopping at the first failure.\<close>

fun append_all :: "alloc_env \<Rightarrow> nat \<Rightarrow> 'b \<Rightarrow> bytes list \<Rightarrow> int \<times> 'b \<times> nat" where
  "append_all A t b [] = (0, b, t)"
| "append_all A t b (d # ds) =
     (case append A t b d of (r, b1, t1) \<Rightarrow> if r \<noteq> 0 then (-1, b1, t1) else append_all A t1 b1 ds)"

lemma append_all_view:
  "ok b \<Longrightarrow> append_all A t b ds = (r, b', t') \<Longrightarrow>
     ok b' \<and> (r = 0 \<or> r = -1) \<and> (r = 0 \<longrightarrow> view b' = view b @ concat ds)"
proof (induction ds arbitrary: b t)
  case (Cons d ds)
  obtain r1 b1 t1 where s: "append A t b d = (r1, b1, t1)" by (metis prod_cases3)
  from append_view [OF Cons.prems(1) s] Cons s show ?case by (cases "r1 = 0") auto
qed auto

lemma append_succeeds:
  assumes "ok b" and "\<forall>t n. A t n" and "length (view b) + length data \<le> limit"
  obtains b' t' where "append A t b data = (0, b', t')" and "ok b'" and "view b' = view b @ data"
proof -
  obtain r b' t' where s: "append A t b data = (r, b', t')" by (metis prod_cases3)
  with append_view [OF assms(1) s] append_live [OF assms(1), of A t data b' t'] assms(2,3) that show ?thesis
    by fastforce
qed

end

interpretation bb: append_buffer h265_buffer_append h265_buffer_reset bb_bytes bb_ok SIZE_MAX
proof unfold_locales
  show "bb_ok b \<Longrightarrow> h265_buffer_append A t b data = (r, b', t') \<Longrightarrow>
      bb_ok b' \<and> (r = 0 \<or> r = -1) \<and> bb_bytes b' = (if r = 0 then bb_bytes b @ data else bb_bytes b)"
    for b A t data r b' t'
    using append_cases by blast
  show "bb_ok b \<Longrightarrow> h265_buffer_append A t b data = (-1, b', t') \<Longrightarrow> \<forall>t n. A t n \<Longrightarrow>
      SIZE_MAX < length (bb_bytes b) + length data"
    for b A t data b' t'
    using append_cases by blast
  show "bb_ok b \<Longrightarrow> bb_ok (h265_buffer_reset b) \<and> bb_bytes (h265_buffer_reset b) = []" for b
    by (simp add: bb_ok_def h265_buffer_reset_def)
qed

lemma bb_zero_ok [simp]: "bb_ok bb_zero" "bb_bytes bb_zero = []"
  by (simp_all add: bb_ok_def bb_zero_def)

section \<open>Properties\<close>

text \<open>
  The buffer never overflows: whatever the allocator answers, after an append the contents lie
  within the capacity; on success they are the old contents and the data, on failure nothing
  changed, and failure means that an allocation failed or the sum exceeds \<open>SIZE_MAX\<close> (the
  unsigned sum never wraps).
\<close>

theorem h265_buffer_append_correct:
  assumes "bb_ok b" and "h265_buffer_append A t b data = (r, b', t')"
  shows "bb_ok b' \<and> (r = 0 \<or> r = -1) \<and>
    bb_bytes b' = (if r = 0 then bb_bytes b @ data else bb_bytes b) \<and>
    (r = -1 \<longrightarrow> bb_len b + length data > SIZE_MAX \<or> (\<exists>t n. \<not> A t n))"
  by (rule append_cases [OF assms])

theorem h265_buffer_append_correct_witness:
  "\<exists>r b' t'. h265_buffer_append (\<lambda>_ n. n < 10000) 0 \<lparr>bb_alloc = True, bb_bytes = [1, 2], bb_cap = 4096\<rparr>
     (replicate 5000 7) = (r, b', t') \<and> bb_ok b' \<and> (r = 0 \<or> r = -1)"
proof -
  let ?b = "\<lparr>bb_alloc = True, bb_bytes = [1, 2], bb_cap = 4096\<rparr>"
  obtain r b' t' where X: "h265_buffer_append (\<lambda>_ n. n < 10000) 0 ?b (replicate 5000 7) = (r, b', t')"
    by (metis prod_cases3)
  have "bb_ok ?b" by (simp add: bb_ok_def SIZE_MAX_def)
  from h265_buffer_append_correct [OF this X] X show ?thesis by blast
qed

end
