(* ===== verification/Snapshot.thy ===== *)
theory Snapshot
  imports Rtp_Buffer Byte_Buffer Writer_Queue
begin

unbundle bit_operations_syntax

text \<open>
  Snapshots (\<open>src/datafifo_snapshot.c\<close>): from the frames that the big core flags, the module keeps the
  parameter sets, the last random access picture and the group of pictures since then, and
  hands a stream that starts with parameter sets to the writer. The state is the static cache,
  the number of allocation requests, the memory mappings and the writer.
\<close>

section \<open>Constants and state\<close>

definition H265_NAL_BLA_W_LP :: int where "H265_NAL_BLA_W_LP = 16"
definition H265_NAL_CRA_NUT :: int where "H265_NAL_CRA_NUT = 21"
definition H265_SNAPSHOT_MAX_GOP_BYTES :: nat where "H265_SNAPSHOT_MAX_GOP_BYTES = 8 * 1024 * 1024"

record h265_snapshot_frame =
  fr_au :: byte_buffer
  fr_copy_au :: bool
  fr_has_vps :: bool
  fr_has_sps :: bool
  fr_has_pps :: bool
  fr_has_irap :: bool

record h265_snapshot_cache =
  sc_vps :: byte_buffer
  sc_sps :: byte_buffer
  sc_pps :: byte_buffer
  sc_last_irap :: byte_buffer
  sc_current_gop :: byte_buffer
  sc_last_irap_pts :: u64
  sc_last_irap_seq :: u64
  sc_current_gop_pts :: u64
  sc_current_gop_start_seq :: u64
  sc_current_gop_last_seq :: u64
  sc_last_irap_has_vps :: bool
  sc_last_irap_has_sps :: bool
  sc_last_irap_has_pps :: bool
  sc_current_gop_has_irap :: bool

definition cache_zero :: h265_snapshot_cache where
  "cache_zero = \<lparr>sc_vps = bb_zero, sc_sps = bb_zero, sc_pps = bb_zero, sc_last_irap = bb_zero,
     sc_current_gop = bb_zero, sc_last_irap_pts = 0, sc_last_irap_seq = 0, sc_current_gop_pts = 0,
     sc_current_gop_start_seq = 0, sc_current_gop_last_seq = 0, sc_last_irap_has_vps = False,
     sc_last_irap_has_sps = False, sc_last_irap_has_pps = False, sc_current_gop_has_irap = False\<rparr>"

definition frame_zero :: h265_snapshot_frame where
  "frame_zero = \<lparr>fr_au = bb_zero, fr_copy_au = False, fr_has_vps = False, fr_has_sps = False,
     fr_has_pps = False, fr_has_irap = False\<rparr>"

text \<open>What feeding a NALU works on: the frame, the static cache and the allocation requests so far.\<close>

record snap =
  sn_frame :: h265_snapshot_frame
  sn_cache :: h265_snapshot_cache
  sn_t :: nat

section \<open>The scanner with an int result\<close>

text \<open>
  This copy returns \<open>(int)i\<close>. The length of a buffer comes from a 32-bit field, so \<open>i\<close> is below
  \<open>2 ^ 32\<close>; from \<open>2 ^ 31\<close> on the cast gives a negative number, which the callers take for
  \<open>not found\<close>.
\<close>

definition int_result :: "nat \<Rightarrow> nat \<Rightarrow> (nat \<times> nat) option" where
  "int_result i sc_len = (if i < 2 ^ 31 then Some (i, sc_len) else None)"

function h265_find_start_code_loop :: "bytes \<Rightarrow> nat \<Rightarrow> (nat \<times> nat) option" where
  "h265_find_start_code_loop buf i =
     (if i + 3 \<le> length buf then
        if buf ! i = 0 \<and> buf ! (i + 1) = 0 \<and> buf ! (i + 2) = 1 then int_result i 3
        else if i + 4 \<le> length buf \<and> buf ! i = 0 \<and> buf ! (i + 1) = 0 \<and>
                buf ! (i + 2) = 0 \<and> buf ! (i + 3) = 1 then int_result i 4
        else h265_find_start_code_loop buf (i + 1)
      else None)"
  by pat_completeness auto
termination
  by (relation "measure (\<lambda>(buf, i). length buf - i)") auto

declare h265_find_start_code_loop.simps [simp del]

definition h265_find_start_code :: "bytes \<Rightarrow> nat \<Rightarrow> (nat \<times> nat) option" where
  "h265_find_start_code buf offset =
     (if offset \<ge> length buf then None else h265_find_start_code_loop buf offset)"

definition h265_buffer_starts_with_start_code :: "bytes option \<Rightarrow> bool" where
  "h265_buffer_starts_with_start_code bufp =
     (case bufp of
        None \<Rightarrow> False
      | Some buf \<Rightarrow>
          if length buf < 3 then False
          else if buf ! 0 = 0 \<and> buf ! 1 = 0 \<and> buf ! 2 = 1 then True
          else length buf \<ge> 4 \<and> buf ! 0 = 0 \<and> buf ! 1 = 0 \<and> buf ! 2 = 0 \<and> buf ! 3 = 1)"

lemma find_loop_eq:
  "h265_find_start_code_loop buf i =
     (case find_start_code buf i of None \<Rightarrow> None | Some (j, l) \<Rightarrow> int_result j l)"
proof (induction buf i rule: h265_find_start_code_loop.induct)
  case (1 buf i)
  then show ?case
    by (simp add: h265_find_start_code_loop.simps [of buf i] find_start_code.simps [of buf i])
qed

text \<open>Below 2 GiB it is the scanner of \<open>rtp.c\<close>.\<close>

lemma h265_find_start_code_small:
  assumes "length buf \<le> 2 ^ 31"
  shows "h265_find_start_code buf off = find_start_code buf off"
proof (cases "find_start_code buf off")
  case None
  then show ?thesis by (simp add: h265_find_start_code_def find_loop_eq)
next
  case (Some p)
  then obtain i l where p: "find_start_code buf off = Some (i, l)" by (cases p) auto
  from rtp_scan.scan_bounds [OF TrueI p] assms have "i < 2 ^ 31" "off < length buf" by auto
  with p show ?thesis by (simp add: h265_find_start_code_def find_loop_eq int_result_def)
qed

interpretation snap_scan: start_code_scanner h265_find_start_code "\<lambda>buf. length buf \<le> 2 ^ 31"
proof unfold_locales
  fix buf :: bytes and off i l j
  assume small: "length buf \<le> 2 ^ 31"
  note eq = h265_find_start_code_small [OF small, of off]
  show "h265_find_start_code buf off = Some (i, l) \<Longrightarrow>
      off \<le> i \<and> sc_at buf i l \<and> (\<forall>j. off \<le> j \<and> j < i \<longrightarrow> \<not> is_sc buf j)"
    unfolding eq by (rule find_start_code_Some)
  show "h265_find_start_code buf off = None \<Longrightarrow> off \<le> j \<Longrightarrow> \<not> is_sc buf j"
    unfolding eq by (rule find_start_code_None)
qed

section \<open>Feeding NALUs\<close>

definition h265_nalu_is_irap :: "int \<Rightarrow> bool" where
  "h265_nalu_is_irap nal_type \<longleftrightarrow> nal_type \<ge> H265_NAL_BLA_W_LP \<and> nal_type \<le> H265_NAL_CRA_NUT"

definition h265_append_annexb_nalu :: "alloc_env \<Rightarrow> nat \<Rightarrow> byte_buffer \<Rightarrow> bytes \<Rightarrow> int \<times> byte_buffer \<times> nat" where
  "h265_append_annexb_nalu A t dst nalu =
     (let nalu_len = trim_end nalu 0 (length nalu) in
      if nalu_len < 2 then (0, dst, t)
      else case h265_buffer_append_start_code A t dst of
        (r, dst1, t1) \<Rightarrow>
          if r \<noteq> 0 then (-1, dst1, t1)
          else (case h265_buffer_append A t1 dst1 (take nalu_len nalu) of
                  (r', dst2, t2) \<Rightarrow> (if r' \<noteq> 0 then -1 else 0, dst2, t2)))"

text \<open>NAL types 32, 33, 34 are the parameter sets VPS, SPS, PPS.\<close>

definition h265_snapshot_update_param_set :: "alloc_env \<Rightarrow> int \<Rightarrow> bytes \<Rightarrow> snap \<Rightarrow> snap" where
  "h265_snapshot_update_param_set A nal_type annexb_nalu s =
     (let fr = sn_frame s; c = sn_cache s in
      if nal_type = 32 then
        (case h265_buffer_replace A (sn_t s) (sc_vps c) annexb_nalu of
           (_, b, t) \<Rightarrow> \<lparr>sn_frame = fr\<lparr>fr_has_vps := True\<rparr>, sn_cache = c\<lparr>sc_vps := b\<rparr>, sn_t = t\<rparr>)
      else if nal_type = 33 then
        (case h265_buffer_replace A (sn_t s) (sc_sps c) annexb_nalu of
           (_, b, t) \<Rightarrow> \<lparr>sn_frame = fr\<lparr>fr_has_sps := True\<rparr>, sn_cache = c\<lparr>sc_sps := b\<rparr>, sn_t = t\<rparr>)
      else if nal_type = 34 then
        (case h265_buffer_replace A (sn_t s) (sc_pps c) annexb_nalu of
           (_, b, t) \<Rightarrow> \<lparr>sn_frame = fr\<lparr>fr_has_pps := True\<rparr>, sn_cache = c\<lparr>sc_pps := b\<rparr>, sn_t = t\<rparr>)
      else s)"

definition h265_snapshot_feed_nalu :: "alloc_env \<Rightarrow> bytes option \<Rightarrow> snap \<Rightarrow> int \<times> snap" where
  "h265_snapshot_feed_nalu A nalup s =
     (case nalup of
        None \<Rightarrow> (-1, s)
      | Some nalu \<Rightarrow>
          if length nalu < 2 then (-1, s)
          else
            let nal_type = h265_nalu_type nalu;
                is_param_set = (nal_type = 32 \<or> nal_type = 33 \<or> nal_type = 34);
                s1 = (if h265_nalu_is_irap nal_type
                      then s\<lparr>sn_frame := (sn_frame s)\<lparr>fr_has_irap := True\<rparr>\<rparr> else s)
            in if \<not> fr_copy_au (sn_frame s1) \<and> \<not> fr_has_irap (sn_frame s1) \<and> \<not> is_param_set \<and>
                  \<not> sc_current_gop_has_irap (sn_cache s1)
               then (0, s1)
               else
                 let nalu_offset = bb_len (fr_au (sn_frame s1)) in
                 case h265_append_annexb_nalu A (sn_t s1) (fr_au (sn_frame s1)) nalu of
                   (r, au, t) \<Rightarrow>
                     let s2 = s1\<lparr>sn_frame := (sn_frame s1)\<lparr>fr_au := au\<rparr>, sn_t := t\<rparr> in
                     if r \<noteq> 0 then (-1, s2)
                     else
                       let s3 = h265_snapshot_update_param_set A nal_type (drop nalu_offset (bb_bytes au)) s2
                       in (0, if fr_has_irap (sn_frame s3) \<or>
                                 \<not> is_param_set \<and> sc_current_gop_has_irap (sn_cache s3)
                              then s3\<lparr>sn_frame := (sn_frame s3)\<lparr>fr_copy_au := True\<rparr>\<rparr> else s3))"

lemma snap_next_progress:
  "next_nalu h265_find_start_code buf off = Some (st, e, Some q) \<Longrightarrow> length buf - q < length buf - off"
proof -
  assume n: "next_nalu h265_find_start_code buf off = Some (st, e, Some q)"
  have fs: "off \<le> i \<and> i + 3 \<le> length buf \<and> 3 \<le> l" if "h265_find_start_code buf off = Some (i, l)" for off i l
  proof -
    from that have "find_start_code buf off = Some (i, l)"
      by (auto simp: h265_find_start_code_def find_loop_eq int_result_def split: if_splits option.splits)
    from rtp_scan.scan_bounds [OF TrueI this] show ?thesis by auto
  qed
  from n obtain p l where "h265_find_start_code buf off = Some (p, l)" and st: "st = p + l"
    and "map_option fst (h265_find_start_code buf st) = Some q"
    by (auto simp: next_nalu_def Let_def split: option.splits)
  moreover then obtain l' where "h265_find_start_code buf st = Some (q, l')" by auto
  ultimately show ?thesis using fs [of off p l] fs [of st q l'] by auto
qed

function feed_buffer_loop :: "alloc_env \<Rightarrow> bytes \<Rightarrow> nat \<Rightarrow> nat \<Rightarrow> snap \<Rightarrow> int \<times> snap" where
  "feed_buffer_loop A buf search_offset nalu_count s =
     (case next_nalu h265_find_start_code buf search_offset of
        None \<Rightarrow> (if nalu_count > 0 then 0 else -1, s)
      | Some (nalu_start, nalu_end, next_sc_pos) \<Rightarrow>
          if nalu_end > nalu_start then
            case h265_snapshot_feed_nalu A (Some (bslice buf nalu_start nalu_end)) s of
              (r, s1) \<Rightarrow>
                if r \<noteq> 0 then (-1, s1)
                else (case next_sc_pos of
                        None \<Rightarrow> (if nalu_count + 1 > 0 then 0 else -1, s1)
                      | Some q \<Rightarrow> feed_buffer_loop A buf q (nalu_count + 1) s1)
          else (case next_sc_pos of
                  None \<Rightarrow> (if nalu_count > 0 then 0 else -1, s)
                | Some q \<Rightarrow> feed_buffer_loop A buf q nalu_count s))"
  by pat_completeness auto
termination
  by (relation "measure (\<lambda>(A, buf, off, _). length buf - off)") (auto dest: snap_next_progress)

declare feed_buffer_loop.simps [simp del]

definition h265_snapshot_feed_buffer :: "alloc_env \<Rightarrow> bytes option \<Rightarrow> snap \<Rightarrow> int \<times> snap" where
  "h265_snapshot_feed_buffer A bufp s =
     (case bufp of
        None \<Rightarrow> (-1, s)
      | Some buf \<Rightarrow>
          if length buf < 2 then (-1, s)
          else if \<not> h265_buffer_starts_with_start_code (Some buf) then h265_snapshot_feed_nalu A (Some buf) s
          else feed_buffer_loop A buf 0 0 s)"

section \<open>The cache of the group of pictures\<close>

definition h265_snapshot_append_cached_params ::
    "alloc_env \<Rightarrow> nat \<Rightarrow> byte_buffer \<Rightarrow> byte_buffer \<Rightarrow> int \<times> byte_buffer \<times> nat" where
  "h265_snapshot_append_cached_params A t out source =
     (if bb_alloc source \<and> bb_len source > 0 then h265_buffer_append A t out (bb_bytes source) else (0, out, t))"

definition h265_snapshot_append_params ::
    "alloc_env \<Rightarrow> nat \<Rightarrow> h265_snapshot_cache \<Rightarrow> byte_buffer \<Rightarrow> int \<times> byte_buffer \<times> nat" where
  "h265_snapshot_append_params A t c out =
     (case h265_snapshot_append_cached_params A t out (sc_vps c) of
        (r1, o1, t1) \<Rightarrow>
          if r1 \<noteq> 0 then (-1, o1, t1)
          else case h265_snapshot_append_cached_params A t1 o1 (sc_sps c) of
            (r2, o2, t2) \<Rightarrow>
              if r2 \<noteq> 0 then (-1, o2, t2)
              else case h265_snapshot_append_cached_params A t2 o2 (sc_pps c) of
                (r3, o3, t3) \<Rightarrow> if r3 \<noteq> 0 then (-1, o3, t3) else (0, o3, t3))"

definition drop_gop :: "h265_snapshot_cache \<Rightarrow> h265_snapshot_cache" where
  "drop_gop c = c\<lparr>sc_current_gop := h265_buffer_reset (sc_current_gop c), sc_current_gop_has_irap := False\<rparr>"

definition h265_snapshot_update_gop_cache ::
    "alloc_env \<Rightarrow> nat \<Rightarrow> h265_snapshot_frame \<Rightarrow> ipc_msg option \<Rightarrow> h265_snapshot_cache \<Rightarrow> h265_snapshot_cache \<times> nat" where
  "h265_snapshot_update_gop_cache A t frame msgp c =
     (case msgp of
        None \<Rightarrow> (c, t)
      | Some msg \<Rightarrow>
          if \<not> bb_alloc (fr_au frame) \<or> bb_len (fr_au frame) = 0 then (c, t)
          else if \<not> fr_has_irap frame \<and> \<not> sc_current_gop_has_irap c then (c, t)
          else
            let c1 = (if fr_has_irap frame
                  then c\<lparr>sc_current_gop := h265_buffer_reset (sc_current_gop c), sc_current_gop_has_irap := True,
                        sc_current_gop_pts := msg_frame_pts msg, sc_current_gop_start_seq := msg_seq msg\<rparr>
                  else c)
            in if bb_len (fr_au frame) > H265_SNAPSHOT_MAX_GOP_BYTES \<or>
                  bb_len (sc_current_gop c1) > H265_SNAPSHOT_MAX_GOP_BYTES - bb_len (fr_au frame)
               then (drop_gop c1, t)
               else (case h265_buffer_append A t (sc_current_gop c1) (bb_bytes (fr_au frame)) of
                       (r, b, t') \<Rightarrow>
                         let c2 = c1\<lparr>sc_current_gop := b\<rparr> in
                         if r = 0 then (c2\<lparr>sc_current_gop_last_seq := msg_seq msg\<rparr>, t')
                         else (drop_gop c2, t')))"

text \<open>The return code, \<open>out\<close>, \<open>*used_cached_gop\<close> and the allocation requests.\<close>

definition h265_snapshot_build_output ::
    "alloc_env \<Rightarrow> nat \<Rightarrow> h265_snapshot_cache \<Rightarrow> byte_buffer \<Rightarrow> int \<times> byte_buffer \<times> bool \<times> nat" where
  "h265_snapshot_build_output A t c out =
     (let out0 = h265_buffer_reset out;
          have_params = (bb_len (sc_vps c) > 0 \<and> bb_len (sc_sps c) > 0 \<and> bb_len (sc_pps c) > 0);
          finish = (\<lambda>body used.
            case h265_snapshot_append_params A t c out0 of
              (r, o1, t1) \<Rightarrow>
                if r = 0 then (case h265_buffer_append A t1 o1 body of (r', o2, t2) \<Rightarrow> (r', o2, used, t2))
                else (-1, o1, used, t1))
      in if \<not> have_params then (-1, out0, False, t)
         else if sc_current_gop_has_irap c \<and> bb_alloc (sc_current_gop c) \<and> bb_len (sc_current_gop c) > 0
         then finish (bb_bytes (sc_current_gop c)) True
         else if bb_alloc (sc_last_irap c) \<and> bb_len (sc_last_irap c) > 0
         then finish (bb_bytes (sc_last_irap c)) False
         else (-1, out0, False, t))"

section \<open>Processing a flagged message\<close>

record snapshot_state =
  ss_cache :: h265_snapshot_cache
  ss_t :: nat
  ss_mem :: mmap_state
  ss_writer :: writer

text \<open>The loop over the packs: \<open>Inl\<close> is the return when a mapping fails.\<close>

fun snapshot_packs ::
    "alloc_env \<Rightarrow> mmap_env \<Rightarrow> ipc_pack list \<Rightarrow> snap \<Rightarrow> mmap_state \<Rightarrow> (snap \<times> mmap_state) + (snap \<times> mmap_state)" where
  "snapshot_packs A E [] s m = Inr (s, m)"
| "snapshot_packs A E (p # ps) s m =
     (case nalu_datafifo_mmap_pack E (Some p) m of
        (None, m1) \<Rightarrow> Inl (s, m1)
      | (Some virt_addr, m1) \<Rightarrow>
          (case h265_snapshot_feed_buffer A (vm_bytes E m1 virt_addr (unat (pk_len p))) s of
             (_, s1) \<Rightarrow>
               (case nalu_datafifo_munmap_pack E (Some p) virt_addr m1 of
                  (_, m2) \<Rightarrow> snapshot_packs A E ps s1 m2)))"

text \<open>\<open>addr\<close> is the address of the block \<open>out.data\<close> that is handed to the writer.\<close>

definition datafifo_snapshot_process ::
    "alloc_env \<Rightarrow> mmap_env \<Rightarrow> nat \<Rightarrow> ipc_msg option \<Rightarrow> bool \<Rightarrow> snapshot_state \<Rightarrow> int \<times> snapshot_state" where
  "datafifo_snapshot_process A E addr msgp writer_ready st =
     (case msgp of
        None \<Rightarrow> (-1, st)
      | Some msg \<Rightarrow>
          if msg_reserved msg AND MPP_NALU_IPC_FLAG_SNAPSHOT = 0 then (0, st)
          else case snapshot_packs A E (take (unat (msg_pack_cnt msg)) (msg_packs msg))
                 \<lparr>sn_frame = frame_zero\<lparr>fr_copy_au := True\<rparr>, sn_cache = ss_cache st, sn_t = ss_t st\<rparr> (ss_mem st) of
            Inl (s, m) \<Rightarrow> (-1, st\<lparr>ss_cache := sn_cache s, ss_t := sn_t s, ss_mem := m\<rparr>)
          | Inr (s, m) \<Rightarrow>
              let frame = sn_frame s in
              case h265_snapshot_update_gop_cache A (sn_t s) frame (Some msg) (sn_cache s) of
                (c1, t1) \<Rightarrow>
                  let (c2, t2) =
                    (if fr_has_irap frame \<and> bb_len (fr_au frame) > 0 then
                       (case h265_buffer_replace A t1 (sc_last_irap c1) (bb_bytes (fr_au frame)) of
                          (r, b, t') \<Rightarrow>
                            if r = 0
                            then (c1\<lparr>sc_last_irap := b, sc_last_irap_pts := msg_frame_pts msg,
                                    sc_last_irap_seq := msg_seq msg, sc_last_irap_has_vps := fr_has_vps frame,
                                    sc_last_irap_has_sps := fr_has_sps frame,
                                    sc_last_irap_has_pps := fr_has_pps frame\<rparr>, t')
                            else (c1\<lparr>sc_last_irap := b\<rparr>, t'))
                     else (c1, t1))
                  in if \<not> writer_ready then (-1, st\<lparr>ss_cache := c2, ss_t := t2, ss_mem := m\<rparr>)
                     else case h265_snapshot_build_output A t2 c2 bb_zero of
                       (r, out, used_cached_gop, t3) \<Rightarrow>
                         let st1 = st\<lparr>ss_cache := c2, ss_t := t3, ss_mem := m\<rparr> in
                         if r \<noteq> 0 \<or> bb_len out = 0 then (-1, st1)
                         else
                           (case snapshot_writer_enqueue_h265_take (Some (addr, bb_bytes out))
                                   (if used_cached_gop then sc_current_gop_pts c2 else msg_frame_pts msg)
                                   (Some (if used_cached_gop then ''datafifo-cached-gop'' else ''datafifo-irap''))
                                   (ss_writer st1) of
                              (ret, w) \<Rightarrow> (ret, st1\<lparr>ss_writer := w\<rparr>)))"

definition datafifo_snapshot_deinit :: "snapshot_state \<Rightarrow> snapshot_state" where
  "datafifo_snapshot_deinit st = st\<lparr>ss_cache := cache_zero\<rparr>"

section \<open>Bounds, whatever the allocator does\<close>

definition snapshot_cache_ok :: "h265_snapshot_cache \<Rightarrow> bool" where
  "snapshot_cache_ok c \<longleftrightarrow> bb_ok (sc_vps c) \<and> bb_ok (sc_sps c) \<and> bb_ok (sc_pps c) \<and> bb_ok (sc_last_irap c) \<and>
     bb_ok (sc_current_gop c) \<and> bb_len (sc_current_gop c) \<le> H265_SNAPSHOT_MAX_GOP_BYTES"

definition snap_ok :: "snap \<Rightarrow> bool" where
  "snap_ok s \<longleftrightarrow> bb_ok (fr_au (sn_frame s)) \<and> snapshot_cache_ok (sn_cache s)"

lemma replace_ok:
  assumes "bb_ok b" and "h265_buffer_replace A t b data = (r, b', t')"
  shows "bb_ok b' \<and> (r = 0 \<or> r = -1) \<and> bb_bytes b' = (if r = 0 then data else [])"
  using bb.append_view [of "h265_buffer_reset b" A t data r b' t'] bb.reset_view [OF assms(1)] assms(2)
  by (simp add: h265_buffer_replace_def)

lemma append_annexb_ok:
  assumes "bb_ok b" and "h265_append_annexb_nalu A t b n = (r, b', t')"
  shows "bb_ok b'"
proof (cases "trim_end n 0 (length n) < 2")
  case False
  obtain r1 b1 t1 where a: "h265_buffer_append_start_code A t b = (r1, b1, t1)" by (metis prod_cases3)
  obtain r2 b2 t2 where c: "h265_buffer_append A t1 b1 (take (trim_end n 0 (length n)) n) = (r2, b2, t2)"
    by (metis prod_cases3)
  have "bb_ok b1" using bb.append_view [OF assms(1) a [unfolded h265_buffer_append_start_code_def]] by simp
  with bb.append_view [OF _ c] have "bb_ok b1" "bb_ok b2" by auto
  with assms(2) a c False show ?thesis by (auto simp: h265_append_annexb_nalu_def Let_def split: if_splits)
qed (use assms in \<open>simp add: h265_append_annexb_nalu_def\<close>)

lemma update_param_set_ok:
  assumes "snap_ok s"
  shows "snap_ok (h265_snapshot_update_param_set A nt data s)"
  using assms replace_ok
  by (auto simp: h265_snapshot_update_param_set_def snap_ok_def snapshot_cache_ok_def Let_def split: prod.splits)

lemma feed_nalu_ok:
  assumes "snap_ok s" and "h265_snapshot_feed_nalu A nalup s = (r, s')"
  shows "snap_ok s'"
proof (cases nalup)
  case (Some n)
  define s1 where "s1 = (if h265_nalu_is_irap (h265_nalu_type n)
    then s\<lparr>sn_frame := (sn_frame s)\<lparr>fr_has_irap := True\<rparr>\<rparr> else s)"
  have s1: "snap_ok s1" using assms(1) by (simp add: s1_def snap_ok_def)
  obtain ra au t where a: "h265_append_annexb_nalu A (sn_t s1) (fr_au (sn_frame s1)) n = (ra, au, t)"
    by (metis prod_cases3)
  let ?s2 = "s1\<lparr>sn_frame := (sn_frame s1)\<lparr>fr_au := au\<rparr>, sn_t := t\<rparr>"
  have "bb_ok au" using append_annexb_ok [OF _ a] s1 by (simp add: snap_ok_def)
  then have s2: "snap_ok ?s2" using s1 by (simp add: snap_ok_def)
  define s3 where "s3 = h265_snapshot_update_param_set A (h265_nalu_type n)
    (drop (bb_len (fr_au (sn_frame s1))) (bb_bytes au)) ?s2"
  have s3: "snap_ok s3" unfolding s3_def by (rule update_param_set_ok [OF s2])
  then have s4: "snap_ok (s3\<lparr>sn_frame := (sn_frame s3)\<lparr>fr_copy_au := True\<rparr>\<rparr>)" by (simp add: snap_ok_def)
  have "s' \<in> {s, s1, ?s2, s3, s3\<lparr>sn_frame := (sn_frame s3)\<lparr>fr_copy_au := True\<rparr>\<rparr>}"
    using assms(2) unfolding Some h265_snapshot_feed_nalu_def Let_def option.case s1_def [symmetric] a prod.case
      s3_def [symmetric]
    by (auto split: if_splits)
  with assms(1) s1 s2 s3 s4 show ?thesis by auto
qed (use assms in \<open>simp add: h265_snapshot_feed_nalu_def\<close>)

text \<open>Feeding a buffer is feeding its NALUs one after the other.\<close>

fun feed_each :: "alloc_env \<Rightarrow> bytes list \<Rightarrow> snap \<Rightarrow> int \<times> snap" where
  "feed_each A [] s = (0, s)"
| "feed_each A (n # ns) s =
     (case h265_snapshot_feed_nalu A (Some n) s of (r, s1) \<Rightarrow> if r \<noteq> 0 then (-1, s1) else feed_each A ns s1)"

lemma feed_buffer_loop_eq:
  assumes small: "length buf \<le> 2 ^ 31"
  shows "feed_buffer_loop A buf off c s =
    (case feed_each A (map fst (annexb_units buf off)) s of
       (r, s') \<Rightarrow> (if r \<noteq> 0 \<or> c + length (annexb_units buf off) = 0 then -1 else 0, s'))"
  using small
proof (induction A buf off c s rule: feed_buffer_loop.induct)
  case (1 A buf off c s)
  have f: "h265_find_start_code buf = find_start_code buf"
    by (rule ext) (rule h265_find_start_code_small [OF "1.prems"])
  have n: "next_nalu h265_find_start_code buf off = next_nalu find_start_code buf off" for off
    unfolding next_nalu_def f ..
  note eq = feed_buffer_loop.simps [of A buf off c s, unfolded n] annexb_units.simps [of buf off]
  show ?case
  proof (cases "next_nalu find_start_code buf off")
    case None
    with eq show ?thesis by simp
  next
    case (Some x)
    then obtain st e nx where x: "next_nalu find_start_code buf off = Some (st, e, nx)" by (cases x) auto
    obtain r1 s1 where f: "h265_snapshot_feed_nalu A (Some (bslice buf st e)) s = (r1, s1)" by fastforce
    show ?thesis
    proof (cases nx)
      case None
      with eq x f show ?thesis by (auto split: if_splits)
    next
      case (Some q)
      note IH = "1.IH" [unfolded n, OF x refl refl]
      show ?thesis
      proof (cases "st < e")
        case True
        with IH(1) [OF True f [symmetric] _ Some "1.prems"] eq x f Some show ?thesis
          by (auto split: prod.splits if_splits)
      next
        case False
        with IH(2) [OF False Some "1.prems"] eq x Some show ?thesis by simp
      qed
    qed
  qed
qed

lemma feed_each_ok:
  "snap_ok s \<Longrightarrow> feed_each A ns s = (r, s') \<Longrightarrow> snap_ok s' \<and> (r = 0 \<or> r = -1)"
proof (induction ns arbitrary: s)
  case (Cons n ns)
  obtain r1 s1 where f: "h265_snapshot_feed_nalu A (Some n) s = (r1, s1)" by fastforce
  from feed_nalu_ok [OF Cons.prems(1) f] Cons f show ?case by (cases "r1 = 0") auto
qed auto

lemma feed_buffer_loop_ok:
  "snap_ok s \<Longrightarrow> feed_buffer_loop A buf off c s = (r, s') \<Longrightarrow> snap_ok s'"
proof (induction A buf off c s arbitrary: r s' rule: feed_buffer_loop.induct)
  case (1 A buf off c s)
  note eq = feed_buffer_loop.simps [of A buf off c s]
  show ?case
  proof (cases "next_nalu h265_find_start_code buf off")
    case None
    with "1.prems" eq show ?thesis by simp
  next
    case (Some x)
    then obtain st e nx where x: "next_nalu h265_find_start_code buf off = Some (st, e, nx)" by (cases x) auto
    note IH = "1.IH" [OF x refl refl]
    show ?thesis
    proof (cases "st < e")
      case True
      obtain r1 s1 where f: "h265_snapshot_feed_nalu A (Some (bslice buf st e)) s = (r1, s1)" by fastforce
      note s1 = feed_nalu_ok [OF "1.prems"(1) f]
      show ?thesis
      proof (cases "r1 \<noteq> 0 \<or> nx = None")
        case True
        with \<open>st < e\<close> s1 "1.prems"(2) eq x f show ?thesis by (auto split: if_splits)
      next
        case False
        then obtain q where q: "nx = Some q" and r1: "r1 = 0" by auto
        from \<open>st < e\<close> "1.prems"(2) eq x f q r1 have "feed_buffer_loop A buf q (c + 1) s1 = (r, s')" by simp
        from IH(1) [OF \<open>st < e\<close> f [symmetric] _ q s1 this] r1 show ?thesis by simp
      qed
    next
      case False
      show ?thesis
      proof (cases nx)
        case None
        with False "1.prems" eq x show ?thesis by simp
      next
        case (Some q)
        with False "1.prems"(2) eq x have "feed_buffer_loop A buf q c s = (r, s')" by simp
        from IH(2) [OF False Some "1.prems"(1) this] show ?thesis .
      qed
    qed
  qed
qed

lemma feed_buffer_ok:
  "snap_ok s \<Longrightarrow> h265_snapshot_feed_buffer A bufp s = (r, s') \<Longrightarrow> snap_ok s'"
  by (auto simp: h265_snapshot_feed_buffer_def split: option.splits if_splits
      dest: feed_nalu_ok feed_buffer_loop_ok)

lemma snapshot_packs_ok:
  "snap_ok s \<Longrightarrow> (case snapshot_packs A E ps s m of Inl (s', _) \<Rightarrow> snap_ok s' | Inr (s', _) \<Rightarrow> snap_ok s')"
proof (induction ps arbitrary: s m)
  case (Cons p ps)
  show ?case
  proof (cases "nalu_datafifo_mmap_pack E (Some p) m")
    case (Pair vo m1)
    show ?thesis
    proof (cases vo)
      case None
      with Pair Cons.prems show ?thesis by simp
    next
      case (Some v)
      obtain r1 s1 where f: "h265_snapshot_feed_buffer A (vm_bytes E m1 v (unat (pk_len p))) s = (r1, s1)"
        by fastforce
      obtain r2 m2 where "nalu_datafifo_munmap_pack E (Some p) v m1 = (r2, m2)" by fastforce
      with Pair Some f Cons.IH [OF feed_buffer_ok [OF Cons.prems f]] show ?thesis by simp
    qed
  qed
qed simp

lemma reset_ok: "bb_ok b \<Longrightarrow> bb_ok (h265_buffer_reset b)" "bb_bytes (h265_buffer_reset b) = []"
  using bb.reset_view by (auto simp: h265_buffer_reset_def)

lemma drop_gop_ok: "snapshot_cache_ok c \<Longrightarrow> snapshot_cache_ok (drop_gop c)"
  by (simp add: snapshot_cache_ok_def drop_gop_def reset_ok)

lemma update_gop_ok:
  assumes "snapshot_cache_ok c" and "h265_snapshot_update_gop_cache A t fr (Some msg) c = (c', t')"
  shows "snapshot_cache_ok c'"
proof (cases "\<not> bb_alloc (fr_au fr) \<or> bb_len (fr_au fr) = 0 \<or> \<not> fr_has_irap fr \<and> \<not> sc_current_gop_has_irap c")
  case True
  with assms show ?thesis by (auto simp: h265_snapshot_update_gop_cache_def split: if_splits)
next
  case False
  define c1 where "c1 = (if fr_has_irap fr
      then c\<lparr>sc_current_gop := h265_buffer_reset (sc_current_gop c), sc_current_gop_has_irap := True,
            sc_current_gop_pts := msg_frame_pts msg, sc_current_gop_start_seq := msg_seq msg\<rparr>
      else c)"
  have c1: "snapshot_cache_ok c1" using assms(1) by (simp add: c1_def snapshot_cache_ok_def reset_ok)
  obtain r b t1 where a: "h265_buffer_append A t (sc_current_gop c1) (bb_bytes (fr_au fr)) = (r, b, t1)"
    by (metis prod_cases3)
  let ?big = "bb_len (fr_au fr) > H265_SNAPSHOT_MAX_GOP_BYTES \<or>
      bb_len (sc_current_gop c1) > H265_SNAPSHOT_MAX_GOP_BYTES - bb_len (fr_au fr)"
  have c': "c' = (if ?big then drop_gop c1
      else if r = 0 then c1\<lparr>sc_current_gop := b, sc_current_gop_last_seq := msg_seq msg\<rparr>
      else drop_gop (c1\<lparr>sc_current_gop := b\<rparr>))"
    using assms(2) False
    unfolding h265_snapshot_update_gop_cache_def Let_def option.case c1_def [symmetric] a prod.case
    by (simp only: if_False split: if_splits) auto
  have "bb_ok (sc_current_gop c1)" using c1 by (simp add: snapshot_cache_ok_def)
  from bb.append_view [OF this a] have b: "bb_ok b" "r = 0 \<or> r = -1"
    "bb_bytes b = (if r = 0 then bb_bytes (sc_current_gop c1) @ bb_bytes (fr_au fr) else bb_bytes (sc_current_gop c1))"
    by auto
  consider ?big | "\<not> ?big" "r = 0" | "\<not> ?big" "r \<noteq> 0" by blast
  then show ?thesis
  proof cases
    case 1
    with c' c1 show ?thesis by (simp add: drop_gop_ok)
  next
    case 2
    then have "bb_len (sc_current_gop c1) + bb_len (fr_au fr) \<le> H265_SNAPSHOT_MAX_GOP_BYTES" by linarith
    with 2 b have "bb_len b \<le> H265_SNAPSHOT_MAX_GOP_BYTES" by simp
    with 2 c' c1 b show ?thesis by (simp add: snapshot_cache_ok_def)
  next
    case 3
    then have "bb_len b \<le> H265_SNAPSHOT_MAX_GOP_BYTES" using b c1 by (auto simp: snapshot_cache_ok_def)
    with 3 c' c1 b show ?thesis by (simp add: snapshot_cache_ok_def drop_gop_def reset_ok)
  qed
qed

end
