(* ===== verification/Snapshot_Stream.thy ===== *)
theory Snapshot_Stream
  imports Snapshot
begin

text \<open>
  What the snapshot module hands to the writer. Streams are judged by the NALUs that
  \<open>load_annexb_nalus\<close> would read from them (\<open>annexb_units\<close>).
\<close>

section \<open>Streams with gaps\<close>

text \<open>
  A failed append may leave a start code without a NALU behind it; the reader skips it. \<open>stream_wf\<close>
  is a sequence of start codes, each followed by a clean NALU or by nothing.
\<close>

definition stream_wf :: "bytes \<Rightarrow> bool" where
  "stream_wf bs \<longleftrightarrow> (\<exists>ns. bs = annexb_join ns \<and> (\<forall>n \<in> set ns. n = [] \<or> clean_nalu n))"

definition stream_nalus :: "bytes \<Rightarrow> bytes list" where
  "stream_nalus bs = map fst (annexb_units bs 0)"

lemma next_nalu_gap:
  "next_nalu find_start_code (pre @ annexb_join ([] # ns)) (length pre) =
    Some (length pre + 4, length pre + 4, if ns = [] then None else Some (length pre + 4))"
proof -
  let ?buf = "pre @ annexb_join ([] # ns)" and ?st = "length pre + 4"
  have "sc_at ?buf (length pre) 4" by (simp add: sc_at_def)
  then have s1: "find_start_code ?buf (length pre) = Some (length pre, 4)"
    by (simp add: rtp_scan.scan_at)
  have s2: "map_option fst (find_start_code ?buf ?st) = (if ns = [] then None else Some ?st)"
  proof (cases ns)
    case Nil
    have "\<not> is_sc ?buf j" if "?st \<le> j" for j
      using that is_sc_first_zero [of ?buf j] Nil by auto
    then have "find_start_code ?buf ?st = None"
      using find_start_code_Some [of ?buf ?st] sc_at_is_sc [of ?buf]
      by (metis not_None_eq surj_pair)
    then show ?thesis using Nil by simp
  next
    case (Cons m ms)
    have "sc_at ((pre @ [0, 0, 0, 1]) @ [0, 0, 0, 1] @ (m @ annexb_join ms)) (length (pre @ [0, 0, 0, 1])) 4"
      by (rule sc_at_here)
    then have "sc_at ?buf ?st 4" by (simp add: Cons add.assoc eval_nat_numeral)
    with Cons show ?thesis by (simp add: rtp_scan.scan_at)
  qed
  have ends: "(case (if ns = [] then None else Some ?st) of None \<Rightarrow> length ?buf | Some q \<Rightarrow> q) = ?st"
    by (cases ns) simp_all
  have e: "trim_end ?buf ?st ?st = ?st" by (simp add: trim_end.simps)
  show ?thesis
    by (simp only: next_nalu_def s1 s2 ends e option.case prod.case Let_def)
qed

lemma annexb_units_gaps:
  "\<forall>n \<in> set ns. n = [] \<or> clean_nalu n \<Longrightarrow>
     map fst (annexb_units (pre @ annexb_join ns) (length pre)) = filter (\<lambda>n. n \<noteq> []) ns"
proof (induction ns arbitrary: pre)
  case Nil
  have "\<not> is_sc pre j" if "length pre \<le> j" for j
    using that is_sc_first_zero [of pre j] by auto
  then have "next_nalu find_start_code pre (length pre) = None"
    by (simp add: rtp_scan.next_nalu_None)
  then show ?case by (simp add: annexb_units.simps [of pre])
next
  case (Cons n ns)
  let ?buf = "pre @ annexb_join (n # ns)" and ?e = "length pre + 4 + length n"
  have x: "next_nalu find_start_code ?buf (length pre) =
      Some (length pre + 4, ?e, if ns = [] then None else Some ?e)"
    using Cons.prems next_nalu_join [of n pre ns] next_nalu_gap [of pre ns] by (cases "n = []") auto
  have "bslice (pre @ annexb_join (n # ns)) (length pre + 4) (length pre + 4 + length n) = n"
    by (simp add: bslice_def)
  moreover have "map fst (annexb_units (pre @ annexb_join (n # ns)) (length pre + 4 + length n)) =
      filter (\<lambda>n. n \<noteq> []) ns"
  proof -
    have "length (pre @ [0, 0, 0, 1] @ n) = length pre + 4 + length n" by simp
    with Cons.IH [of "pre @ [0, 0, 0, 1] @ n"] Cons.prems show ?thesis
      by (metis annexb_join_simps(2) append.assoc list.set_intros(2))
  qed
  ultimately show ?case
    unfolding annexb_units.simps [of ?buf "length pre"] x by (cases ns) (auto simp del: annexb_join_simps)
qed

lemma stream_nalus_join:
  "\<forall>n \<in> set ns. n = [] \<or> clean_nalu n \<Longrightarrow> stream_nalus (annexb_join ns) = filter (\<lambda>n. n \<noteq> []) ns"
  using annexb_units_gaps [of ns "[]"] by (simp add: stream_nalus_def)

lemma stream_wf_append:
  assumes "stream_wf a" and "stream_wf b"
  shows "stream_wf (a @ b)" and "stream_nalus (a @ b) = stream_nalus a @ stream_nalus b"
proof -
  obtain ms where a: "a = annexb_join ms" and ms: "\<forall>n \<in> set ms. n = [] \<or> clean_nalu n"
    using assms(1) by (auto simp: stream_wf_def)
  obtain ns where b: "b = annexb_join ns" and ns: "\<forall>n \<in> set ns. n = [] \<or> clean_nalu n"
    using assms(2) by (auto simp: stream_wf_def)
  have ab: "a @ b = annexb_join (ms @ ns)" by (simp add: a b annexb_join_append)
  have w: "\<forall>n \<in> set (ms @ ns). n = [] \<or> clean_nalu n" using ms ns by auto
  show "stream_wf (a @ b)" using ab w unfolding stream_wf_def by blast
  show "stream_nalus (a @ b) = stream_nalus a @ stream_nalus b"
    using stream_nalus_join [OF w] stream_nalus_join [OF ms] stream_nalus_join [OF ns]
    by (simp add: a b annexb_join_append)
qed

lemma stream_wf_simps [simp]: "stream_wf []" "stream_nalus [] = []"
  "stream_wf [0, 0, 0, 1]" "stream_nalus [0, 0, 0, 1] = []"
proof -
  show "stream_wf []" "stream_nalus [] = []"
    using stream_nalus_join [of "[]"] by (auto simp: stream_wf_def intro!: exI [of _ "[]"])
  show "stream_wf [0, 0, 0, 1]" "stream_nalus [0, 0, 0, 1] = []"
    using stream_nalus_join [of "[[]]"] by (auto simp: stream_wf_def intro!: exI [of _ "[[]]"])
qed

lemma stream_wf_one:
  "clean_nalu n \<Longrightarrow> stream_wf ([0, 0, 0, 1] @ n) \<and> stream_nalus ([0, 0, 0, 1] @ n) = [n]"
  using stream_nalus_join [of "[n]"] by (auto simp: stream_wf_def clean_nalu_def intro!: exI [of _ "[n]"])

lemma stream_nalus_clean: "n \<in> set (stream_nalus bs) \<Longrightarrow> clean_nalu n"
  by (auto simp: stream_nalus_def intro: annexb_units_clean)

section \<open>The invariant of the cache\<close>

definition holds_irap :: "bytes \<Rightarrow> bool" where
  "holds_irap bs \<longleftrightarrow> list_ex (\<lambda>n. h265_nalu_is_irap (h265_nalu_type n)) (stream_nalus bs)"

definition param_wf :: "int \<Rightarrow> bytes \<Rightarrow> bool" where
  "param_wf k bs \<longleftrightarrow> bs = [] \<or> (\<exists>n. clean_nalu n \<and> h265_nalu_type n = k \<and> bs = [0, 0, 0, 1] @ n)"

text \<open>
  With \<open>full\<close>, which needs that no allocation fails, the streams that are said to start at a random
  access picture do hold one.
\<close>

definition cache_wf :: "bool \<Rightarrow> h265_snapshot_cache \<Rightarrow> bool" where
  "cache_wf full c \<longleftrightarrow> param_wf 32 (bb_bytes (sc_vps c)) \<and> param_wf 33 (bb_bytes (sc_sps c)) \<and>
     param_wf 34 (bb_bytes (sc_pps c)) \<and> stream_wf (bb_bytes (sc_current_gop c)) \<and>
     stream_wf (bb_bytes (sc_last_irap c)) \<and>
     (full \<and> sc_current_gop_has_irap c \<longrightarrow> holds_irap (bb_bytes (sc_current_gop c))) \<and>
     (full \<and> bb_bytes (sc_last_irap c) \<noteq> [] \<longrightarrow> holds_irap (bb_bytes (sc_last_irap c)))"

definition snap_wf :: "bool \<Rightarrow> snap \<Rightarrow> bool" where
  "snap_wf full s \<longleftrightarrow> snap_ok s \<and> cache_wf full (sn_cache s) \<and> stream_wf (bb_bytes (fr_au (sn_frame s))) \<and>
     (full \<and> fr_has_irap (sn_frame s) \<longrightarrow> holds_irap (bb_bytes (fr_au (sn_frame s))))"

definition memory_suffices :: "alloc_env \<Rightarrow> bool" where
  "memory_suffices A \<longleftrightarrow> (\<forall>t n. A t n)"

text \<open>
  What a NALU has to be: no start code inside, and at least two bytes before the trailing zeros
  (or so short that it is refused). The units of a stream are of that kind.
\<close>

definition fit_nalu :: "bytes \<Rightarrow> bool" where
  "fit_nalu n \<longleftrightarrow> (\<forall>j < length n. \<not> is_sc n j) \<and> (length n < 2 \<or> 2 \<le> trim_end n 0 (length n))"

lemma trim_clean:
  assumes "fit_nalu n" and "2 \<le> length n"
  shows "clean_nalu (take (trim_end n 0 (length n)) n)"
    and "h265_nalu_type (take (trim_end n 0 (length n)) n) = h265_nalu_type n"
proof -
  let ?e = "trim_end n 0 (length n)"
  have e: "2 \<le> ?e" "?e \<le> length n"
    using assms trim_end_bounds [of 0 "length n" n] by (auto simp: fit_nalu_def)
  have "take ?e n \<noteq> []" using e by auto
  then have "last (take ?e n) = n ! (?e - 1)" using e by (simp add: last_conv_nth min_absorb2)
  moreover have "n ! (?e - 1) \<noteq> 0" using trim_end_last [of 0 n "length n"] e by simp
  moreover have "\<not> is_sc (take ?e n) j" for j
  proof
    assume a: "is_sc (take ?e n) j"
    then have "is_sc (bslice n 0 ?e) j" by (simp add: bslice_def)
    from is_sc_bslice [OF e(2) this] e assms(1) show False by (auto simp: fit_nalu_def)
  qed
  moreover have "take ?e n \<noteq> []" using e by auto
  ultimately show "clean_nalu (take ?e n)" by (simp add: clean_nalu_def)
  show "h265_nalu_type (take ?e n) = h265_nalu_type n"
    using e by (cases n) (auto simp: h265_nalu_type_def)
qed

lemma append_annexb_wf:
  assumes "bb_ok b" and "fit_nalu n" and "2 \<le> length n"
    and a: "h265_append_annexb_nalu A t b n = (r, b', t')"
  obtains m where "clean_nalu m" and "h265_nalu_type m = h265_nalu_type n" and "length m \<le> length n"
    and "bb_ok b'"
    and "bb_bytes b' \<in> {bb_bytes b, bb_bytes b @ [0, 0, 0, 1], bb_bytes b @ [0, 0, 0, 1] @ m}"
    and "r = 0 \<Longrightarrow> bb_bytes b' = bb_bytes b @ [0, 0, 0, 1] @ m"
    and "memory_suffices A \<Longrightarrow> bb_len b + 4 + length n \<le> SIZE_MAX \<Longrightarrow> r = 0"
proof -
  let ?m = "take (trim_end n 0 (length n)) n"
  have big: "\<not> trim_end n 0 (length n) < 2" using assms(2,3) by (simp add: fit_nalu_def)
  obtain r1 b1 t1 where s: "h265_buffer_append A t b [0, 0, 0, 1] = (r1, b1, t1)" by (metis prod_cases3)
  obtain r2 b2 t2 where c: "h265_buffer_append A t1 b1 ?m = (r2, b2, t2)" by (metis prod_cases3)
  note v1 = bb.append_view [OF assms(1) s]
  then have ok1: "bb_ok b1" by simp
  note v2 = bb.append_view [OF ok1 c]
  have res: "(r, b', t') = (if r1 \<noteq> 0 then (-1, b1, t1) else (if r2 \<noteq> 0 then -1 else 0, b2, t2))"
    using big unfolding a [symmetric] h265_append_annexb_nalu_def h265_buffer_append_start_code_def Let_def s c prod.case
    by simp
  have live: "r = 0" if "memory_suffices A" "bb_len b + 4 + length n \<le> SIZE_MAX"
  proof -
    have A: "\<forall>t n. A t n" using that(1) by (simp add: memory_suffices_def)
    have "r1 \<noteq> -1" using bb.append_live [OF assms(1) _ A, of t "[0, 0, 0, 1]" b1 t1] s that(2) by auto
    then have r1: "r1 = 0" using v1 by simp
    have "length ?m \<le> length n" by simp
    with r1 v1 that(2) have "\<not> SIZE_MAX < length (bb_bytes b1) + length ?m" by auto
    then have "r2 \<noteq> -1" using bb.append_live [OF ok1 _ A, of t1 ?m b2 t2] c by auto
    with r1 v2 res show ?thesis by simp
  qed
  show thesis
  proof (rule that [of ?m])
    show "clean_nalu ?m" "h265_nalu_type ?m = h265_nalu_type n" using trim_clean [OF assms(2,3)] by auto
    show "length ?m \<le> length n" by simp
    show "bb_ok b'" using res v1 v2 by (auto split: if_splits)
    show "bb_bytes b' \<in> {bb_bytes b, bb_bytes b @ [0, 0, 0, 1], bb_bytes b @ [0, 0, 0, 1] @ ?m}"
      using res v1 v2 by (auto split: if_splits)
    show "r = 0 \<Longrightarrow> bb_bytes b' = bb_bytes b @ [0, 0, 0, 1] @ ?m"
      using res v1 v2 by (auto split: if_splits)
  qed (use live in auto)
qed

lemma holds_irap_append:
  "stream_wf a \<Longrightarrow> stream_wf b \<Longrightarrow> holds_irap (a @ b) \<longleftrightarrow> holds_irap a \<or> holds_irap b"
  by (simp add: holds_irap_def stream_wf_append)

lemma update_param_set_wf:
  assumes "cache_wf full (sn_cache s)" and "snap_ok s"
    and "clean_nalu m" and "h265_nalu_type m = k"
  shows "cache_wf full (sn_cache (h265_snapshot_update_param_set A k ([0, 0, 0, 1] @ m) s))"
proof -
  have p: "param_wf k (bb_bytes b')" if "bb_ok b" "h265_buffer_replace A t b ([0, 0, 0, 1] @ m) = (r, b', t')"
    for b t r b' t'
    using replace_ok [OF that] assms(3,4) by (auto simp: param_wf_def)
  have ok: "bb_ok (sc_vps (sn_cache s))" "bb_ok (sc_sps (sn_cache s))" "bb_ok (sc_pps (sn_cache s))"
    using assms(2) by (auto simp: snap_ok_def snapshot_cache_ok_def)
  show "cache_wf full (sn_cache (h265_snapshot_update_param_set A k ([0, 0, 0, 1] @ m) s))"
    using assms(1) p [OF ok(1)] p [OF ok(2)] p [OF ok(3)]
    by (auto simp: h265_snapshot_update_param_set_def Let_def cache_wf_def split: prod.splits)
qed

lemma update_param_set_frame [simp]:
  "fr_au (sn_frame (h265_snapshot_update_param_set A k d s)) = fr_au (sn_frame s)"
  "fr_has_irap (sn_frame (h265_snapshot_update_param_set A k d s)) = fr_has_irap (sn_frame s)"
  by (auto simp: h265_snapshot_update_param_set_def Let_def split: prod.splits)

text \<open>The three stages of a NALU: its flag, its copy in the access unit, its copy among the parameter sets.\<close>

definition irap_flag :: "bytes \<Rightarrow> snap \<Rightarrow> snap" where
  "irap_flag n s = (if h265_nalu_is_irap (h265_nalu_type n)
     then s\<lparr>sn_frame := (sn_frame s)\<lparr>fr_has_irap := True\<rparr>\<rparr> else s)"

lemma irap_flag_frame:
  assumes "snap_wf full s"
  shows "fr_au (sn_frame (irap_flag n s)) = fr_au (sn_frame s)" and "sn_cache (irap_flag n s) = sn_cache s"
    and "snap_ok (irap_flag n s)" and "sn_t (irap_flag n s) = sn_t s"
    and "\<not> fr_has_irap (sn_frame (irap_flag n s)) \<Longrightarrow> snap_wf full (irap_flag n s)"
  using assms by (auto simp: irap_flag_def snap_wf_def snap_ok_def)

lemma append_nalu_wf:
  assumes wf: "snap_wf full s" and n: "fit_nalu n" "2 \<le> length n"
    and full: "full \<longrightarrow> memory_suffices A \<and> bb_len (fr_au (sn_frame s)) + 4 + length n \<le> SIZE_MAX"
    and a: "h265_append_annexb_nalu A (sn_t s) (fr_au (sn_frame s)) n = (ra, au, t)"
  obtains m where "clean_nalu m" and "h265_nalu_type m = h265_nalu_type n"
    and "ra = 0 \<longrightarrow> bb_bytes au = bb_bytes (fr_au (sn_frame s)) @ [0, 0, 0, 1] @ m"
    and "snap_wf full ((irap_flag n s)\<lparr>sn_frame := (sn_frame (irap_flag n s))\<lparr>fr_au := au\<rparr>, sn_t := t\<rparr>)"
    and "bb_len au \<le> bb_len (fr_au (sn_frame s)) + 4 + length n"
proof -
  let ?au = "bb_bytes (fr_au (sn_frame s))" and ?s1 = "irap_flag n s"
  have "bb_ok (fr_au (sn_frame s))" using wf by (simp add: snap_wf_def snap_ok_def)
  then obtain m where m: "clean_nalu m" "h265_nalu_type m = h265_nalu_type n" "length m \<le> length n" "bb_ok au"
    and au: "bb_bytes au \<in> {?au, ?au @ [0, 0, 0, 1], ?au @ [0, 0, 0, 1] @ m}"
      "ra = 0 \<Longrightarrow> bb_bytes au = ?au @ [0, 0, 0, 1] @ m" "full \<Longrightarrow> ra = 0"
    using append_annexb_wf [OF _ n(1) _ a] n(2) full by metis
  have swf: "stream_wf ?au" using wf by (simp add: snap_wf_def)
  note one = stream_wf_one [OF m(1)]
  have au_wf: "stream_wf (bb_bytes au)" using au(1) swf one stream_wf_append(1) by fastforce
  have irap: "holds_irap (bb_bytes au)" if "full" "fr_has_irap (sn_frame ?s1)"
  proof -
    have b: "bb_bytes au = ?au @ [0, 0, 0, 1] @ m" using au(2,3) that(1) by simp
    have "holds_irap ?au \<or> h265_nalu_is_irap (h265_nalu_type n)"
      using that wf by (auto simp: irap_flag_def snap_wf_def split: if_splits)
    moreover have "holds_irap ([0, 0, 0, 1] @ m)" if "h265_nalu_is_irap (h265_nalu_type n)"
      using that one m(2) by (simp add: holds_irap_def)
    ultimately show ?thesis using holds_irap_append [OF swf, of "[0, 0, 0, 1] @ m"] one b by auto
  qed
  have "snap_wf full (?s1\<lparr>sn_frame := (sn_frame ?s1)\<lparr>fr_au := au\<rparr>, sn_t := t\<rparr>)"
    using wf irap_flag_frame [OF wf, of n] m(4) au_wf irap by (auto simp: snap_wf_def snap_ok_def)
  moreover have "bb_len au \<le> length ?au + 4 + length n" using au(1) m(3) by auto
  ultimately show thesis using that m(1,2) au(2) by blast
qed

lemma copy_params_wf:
  assumes s: "snap_wf full s" and m: "clean_nalu m" "h265_nalu_type m = k"
    and s': "s' = h265_snapshot_update_param_set A k ([0, 0, 0, 1] @ m) s"
  shows "snap_wf full s' \<and> fr_au (sn_frame s') = fr_au (sn_frame s) \<and>
    snap_wf full (s'\<lparr>sn_frame := (sn_frame s')\<lparr>fr_copy_au := True\<rparr>\<rparr>)"
proof -
  have ok: "snap_ok s" "cache_wf full (sn_cache s)" using s by (auto simp: snap_wf_def)
  have "snap_wf full s'"
    using update_param_set_wf [OF ok(2,1) m, of A] update_param_set_ok [OF ok(1)] s by (simp add: s' snap_wf_def)
  then show ?thesis by (simp add: s' snap_wf_def snap_ok_def)
qed

lemma feed_nalu_wf:
  assumes wf: "snap_wf full s" and n: "fit_nalu n"
    and full: "full \<longrightarrow> memory_suffices A \<and> bb_len (fr_au (sn_frame s)) + 4 + length n \<le> SIZE_MAX"
    and f: "h265_snapshot_feed_nalu A (Some n) s = (r, s')"
  shows "snap_wf full s' \<and> bb_len (fr_au (sn_frame s')) \<le> bb_len (fr_au (sn_frame s)) + 4 + length n"
proof (cases "length n < 2")
  case True
  with f wf show ?thesis by (simp add: h265_snapshot_feed_nalu_def)
next
  case False
  let ?k = "h265_nalu_type n" and ?s1 = "irap_flag n s"
  note s1 = irap_flag_frame [OF wf, of n]
  obtain ra au t where a: "h265_append_annexb_nalu A (sn_t s) (fr_au (sn_frame s)) n = (ra, au, t)"
    by (metis prod_cases3)
  let ?s2 = "?s1\<lparr>sn_frame := (sn_frame ?s1)\<lparr>fr_au := au\<rparr>, sn_t := t\<rparr>"
  let ?s3 = "h265_snapshot_update_param_set A ?k (drop (bb_len (fr_au (sn_frame s))) (bb_bytes au)) ?s2"
  have "2 \<le> length n" using False by simp
  then obtain m where m: "clean_nalu m" "h265_nalu_type m = ?k"
      "ra = 0 \<longrightarrow> bb_bytes au = bb_bytes (fr_au (sn_frame s)) @ [0, 0, 0, 1] @ m" "snap_wf full ?s2"
      "bb_len au \<le> bb_len (fr_au (sn_frame s)) + 4 + length n"
    by (rule append_nalu_wf [OF wf n _ full a])
  have s3: "snap_wf full ?s3 \<and> fr_au (sn_frame ?s3) = fr_au (sn_frame ?s2) \<and>
      snap_wf full (?s3\<lparr>sn_frame := (sn_frame ?s3)\<lparr>fr_copy_au := True\<rparr>\<rparr>)" if "ra = 0"
    using m(3) that by (intro copy_params_wf [OF m(4,1,2)]) simp
  consider "s' = ?s1" "\<not> fr_has_irap (sn_frame ?s1)" | "s' = ?s2"
    | "ra = 0" "s' \<in> {?s3, ?s3\<lparr>sn_frame := (sn_frame ?s3)\<lparr>fr_copy_au := True\<rparr>\<rparr>}"
    using f False a unfolding h265_snapshot_feed_nalu_def Let_def option.case irap_flag_def [symmetric] s1(1,4)
    by (auto simp: s1(1,4) split: if_splits)
  then show ?thesis
    by cases (use s1(1) s1(5) m(4,5) s3 in auto)
qed

section \<open>Buffers and packs\<close>

lemma clean_fit: "clean_nalu n \<Longrightarrow> fit_nalu n"
  using trim_end_id [of 0 "length n" n] by (auto simp: clean_nalu_def fit_nalu_def last_conv_nth)

lemma units_sum:
  "sum_list (map (\<lambda>n. 4 + length n) (map fst (annexb_units buf off))) \<le> 3 * (length buf - off)"
proof (induction buf off rule: annexb_units.induct)
  case (1 buf off)
  note eq = annexb_units.simps [of buf off]
  show ?case
  proof (cases "next_nalu find_start_code buf off")
    case (Some x)
    then obtain st e nx where x: "next_nalu find_start_code buf off = Some (st, e, nx)" by (cases x) auto
    note b = rtp_next_nalu_Some [OF x]
    from x obtain p l where "find_start_code buf off = Some (p, l)" "st = p + l"
      by (auto simp: next_nalu_def Let_def split: option.splits)
    with rtp_scan.scan_bounds [OF TrueI this(1)] have st: "off + 3 \<le> st" by auto
    show ?thesis
    proof (cases nx)
      case None
      with x eq b(3,4) st show ?thesis by auto
    next
      case (Some q)
      with "1.IH" [OF x refl refl Some] x eq b(3,4) b(5) [of q] st show ?thesis by auto
    qed
  qed (simp add: eq)
qed

text \<open>A pack is a stream or one raw NALU.\<close>

definition fit_buffer :: "bytes \<Rightarrow> bool" where
  "fit_buffer buf \<longleftrightarrow> sc_at buf 0 3 \<or> sc_at buf 0 4 \<or> fit_nalu buf"

lemma starts_iff: "h265_buffer_starts_with_start_code (Some buf) \<longleftrightarrow> sc_at buf 0 3 \<or> sc_at buf 0 4"
  by (auto simp: h265_buffer_starts_with_start_code_def sc_at_3 sc_at_4 not_less numeral_2_eq_2 split: if_splits)

lemma feed_each_wf:
  "snap_wf full s \<Longrightarrow> \<forall>n \<in> set ns. fit_nalu n \<Longrightarrow>
   full \<longrightarrow> memory_suffices A \<and>
     bb_len (fr_au (sn_frame s)) + sum_list (map (\<lambda>n. 4 + length n) ns) \<le> SIZE_MAX \<Longrightarrow>
   feed_each A ns s = (r, s') \<Longrightarrow>
   snap_wf full s' \<and>
   bb_len (fr_au (sn_frame s')) \<le> bb_len (fr_au (sn_frame s)) + sum_list (map (\<lambda>n. 4 + length n) ns)"
proof (induction ns arbitrary: s)
  case (Cons n ns)
  obtain r1 s1 where f: "h265_snapshot_feed_nalu A (Some n) s = (r1, s1)" by fastforce
  have one: "snap_wf full s1 \<and> bb_len (fr_au (sn_frame s1)) \<le> bb_len (fr_au (sn_frame s)) + 4 + length n"
    by (rule feed_nalu_wf [OF Cons.prems(1) _ _ f]) (use Cons.prems in auto)
  show ?case
  proof (cases "r1 = 0")
    case True
    have "snap_wf full s' \<and>
        bb_len (fr_au (sn_frame s')) \<le> bb_len (fr_au (sn_frame s1)) + sum_list (map (\<lambda>n. 4 + length n) ns)"
      by (rule Cons.IH) (use one Cons.prems f True in auto)
    with one show ?thesis by simp
  qed (use one Cons.prems(4) f in auto)
qed auto

lemma feed_buffer_wf:
  assumes wf: "snap_wf full s" and fit: "fit_buffer buf" and small: "length buf \<le> 2 ^ 31"
    and full: "full \<longrightarrow> memory_suffices A \<and> bb_len (fr_au (sn_frame s)) + 3 * length buf \<le> SIZE_MAX"
    and f: "h265_snapshot_feed_buffer A (Some buf) s = (r, s')"
  shows "snap_wf full s' \<and> bb_len (fr_au (sn_frame s')) \<le> bb_len (fr_au (sn_frame s)) + 3 * length buf"
proof -
  consider "length buf < 2" | "2 \<le> length buf" "\<not> h265_buffer_starts_with_start_code (Some buf)"
    | "2 \<le> length buf" "h265_buffer_starts_with_start_code (Some buf)" by linarith
  then show ?thesis
  proof cases
    case 1
    with wf f show ?thesis by (simp add: h265_snapshot_feed_buffer_def)
  next
    case 2
    then have "fit_nalu buf" using fit by (simp add: fit_buffer_def starts_iff)
    from feed_nalu_wf [OF wf this, of A r s'] full f 2 show ?thesis by (auto simp: h265_snapshot_feed_buffer_def)
  next
    case 3
    let ?ns = "map fst (annexb_units buf 0)"
    obtain r1 where e: "feed_each A ?ns s = (r1, s')"
      using f 3 feed_buffer_loop_eq [OF small, of A 0 0 s]
      by (cases "feed_each A ?ns s") (auto simp: h265_snapshot_feed_buffer_def split: if_splits)
    have "\<forall>n \<in> set ?ns. fit_nalu n" by (auto intro!: clean_fit dest: annexb_units_clean)
    from feed_each_wf [OF wf this _ e] full units_sum [of buf 0] show ?thesis by fastforce
  qed
qed

lemma snapshot_packs_wf:
  assumes "page_size_ok E"
  shows "snap_wf full s \<Longrightarrow> \<forall>p \<in> set ps. pack_ok p \<and> fit_buffer (phys_bytes E p) \<Longrightarrow>
   full \<longrightarrow> memory_suffices A \<and>
     bb_len (fr_au (sn_frame s)) + 3 * sum_list (map (unat \<circ> pk_len) ps) \<le> SIZE_MAX \<Longrightarrow>
   (case snapshot_packs A E ps s m of Inl (s', _) \<Rightarrow> snap_wf full s' | Inr (s', _) \<Rightarrow> snap_wf full s')"
proof (induction ps arbitrary: s m)
  case (Cons p ps)
  obtain vo m1 where map: "nalu_datafifo_mmap_pack E (Some p) m = (vo, m1)" by fastforce
  show ?case
  proof (cases vo)
    case None
    with map Cons.prems show ?thesis by simp
  next
    case (Some v)
    have bytes: "vm_bytes E m1 v (unat (pk_len p)) = Some (phys_bytes E p)"
      using devmem.mmap_reads [OF assms] map Some by simp
    have len: "length (phys_bytes E p) = unat (pk_len p)" by (simp add: phys_bytes_def)
    obtain r1 s1 where f: "h265_snapshot_feed_buffer A (Some (phys_bytes E p)) s = (r1, s1)" by fastforce
    have one: "snap_wf full s1 \<and>
        bb_len (fr_au (sn_frame s1)) \<le> bb_len (fr_au (sn_frame s)) + 3 * length (phys_bytes E p)"
      by (rule feed_buffer_wf [OF Cons.prems(1) _ _ _ f]) (use Cons.prems in \<open>auto simp: len pack_ok_def\<close>)
    obtain r2 m2 where u: "nalu_datafifo_munmap_pack E (Some p) v m1 = (r2, m2)" by fastforce
    have "case snapshot_packs A E ps s1 m2 of Inl (s', _) \<Rightarrow> snap_wf full s' | Inr (s', _) \<Rightarrow> snap_wf full s'"
      by (rule Cons.IH) (use one Cons.prems in \<open>auto simp: len\<close>)
    with map Some bytes f u show ?thesis by simp
  qed
qed simp

lemma snapshot_packs_maps:
  assumes "page_size_ok E" and "munmap_accepts E"
  shows "maps_fresh E m \<Longrightarrow>
    (case snapshot_packs A E ps s m of Inl (_, m') \<Rightarrow> mm_maps m' = mm_maps m | Inr (_, m') \<Rightarrow> mm_maps m' = mm_maps m)"
proof (induction ps arbitrary: s m)
  case (Cons p ps)
  obtain vo m1 where map: "nalu_datafifo_mmap_pack E (Some p) m = (vo, m1)" by fastforce
  show ?case
  proof (cases vo)
    case None
    with map devmem.mmap_fails [OF _ assms(1) Cons.prems] show ?thesis by auto
  next
    case (Some v)
    obtain r1 s1 where f: "h265_snapshot_feed_buffer A (vm_bytes E m1 v (unat (pk_len p))) s = (r1, s1)"
      by fastforce
    obtain r2 m2 where u: "nalu_datafifo_munmap_pack E (Some p) v m1 = (r2, m2)" by fastforce
    then have "r2 = 0" using munmap_of_mapped map Some assms(2) by blast
    with devmem.mmap_munmap [OF assms(1) Cons.prems] map Some u have same: "mm_maps m = mm_maps m2" by metis
    have "maps_fresh E m2" by (rule maps_fresh_cong [OF same [symmetric] Cons.prems])
    from Cons.IH [OF this, of s1] map Some f u show ?thesis unfolding same by simp
  qed
qed simp

section \<open>The cache\<close>

lemma update_gop_wf:
  assumes c: "cache_wf full c" "snapshot_cache_ok c" and fr: "stream_wf (bb_bytes (fr_au fr))"
    and irap: "full \<and> fr_has_irap fr \<longrightarrow> holds_irap (bb_bytes (fr_au fr))"
    and u: "h265_snapshot_update_gop_cache A t fr (Some msg) c = (c', t')"
  shows "cache_wf full c'"
proof (cases "\<not> bb_alloc (fr_au fr) \<or> bb_len (fr_au fr) = 0 \<or> \<not> fr_has_irap fr \<and> \<not> sc_current_gop_has_irap c")
  case True
  with c u show ?thesis by (auto simp: h265_snapshot_update_gop_cache_def split: if_splits)
next
  case False
  let ?au = "bb_bytes (fr_au fr)"
  define c1 where "c1 = (if fr_has_irap fr
      then c\<lparr>sc_current_gop := h265_buffer_reset (sc_current_gop c), sc_current_gop_has_irap := True,
            sc_current_gop_pts := msg_frame_pts msg, sc_current_gop_start_seq := msg_seq msg\<rparr>
      else c)"
  have ok: "bb_ok (sc_current_gop c1)" using c(2) by (simp add: c1_def snapshot_cache_ok_def reset_ok)
  have reset: "bb_bytes (h265_buffer_reset b) = []" for b by (simp add: h265_buffer_reset_def)
  have drop: "cache_wf full (drop_gop (c1\<lparr>sc_current_gop := b\<rparr>))" for b
    using c(1) by (auto simp: cache_wf_def drop_gop_def c1_def reset)
  obtain r b t1 where a: "h265_buffer_append A t (sc_current_gop c1) ?au = (r, b, t1)" by (metis prod_cases3)
  have "c' = drop_gop (c1\<lparr>sc_current_gop := sc_current_gop c1\<rparr>) \<or> c' = drop_gop (c1\<lparr>sc_current_gop := b\<rparr>) \<or>
      r = 0 \<and> c' = c1\<lparr>sc_current_gop := b, sc_current_gop_last_seq := msg_seq msg\<rparr>"
    using u False
    unfolding h265_snapshot_update_gop_cache_def Let_def option.case c1_def [symmetric] a prod.case
    by (simp only: if_False split: if_splits) auto
  moreover have "cache_wf full (c1\<lparr>sc_current_gop := b, sc_current_gop_last_seq := msg_seq msg\<rparr>)" if "r = 0"
  proof -
    have b: "bb_bytes b = bb_bytes (sc_current_gop c1) @ ?au" using bb.append_view [OF ok a] that by simp
    have g: "stream_wf (bb_bytes (sc_current_gop c1))" using c(1) by (simp add: c1_def cache_wf_def reset)
    have "full \<longrightarrow> holds_irap (bb_bytes (sc_current_gop c1) @ ?au)"
      using holds_irap_append [OF g fr] irap c(1) False by (cases "fr_has_irap fr") (auto simp: c1_def cache_wf_def reset)
    then show ?thesis
      using c(1) stream_wf_append(1) [OF g fr] b by (auto simp: cache_wf_def c1_def)
  qed
  ultimately show ?thesis using drop by blast
qed

lemma append_params_ok:
  assumes "bb_ok out" and "h265_snapshot_append_params A t c out = (r, o', t')"
  shows "bb_ok o' \<and> (r = 0 \<longrightarrow> bb_bytes o' =
    bb_bytes out @ concat (map (\<lambda>b. if bb_alloc b then bb_bytes b else []) [sc_vps c, sc_sps c, sc_pps c]))"
proof -
  have one: "bb_ok o' \<and> (r = 0 \<longrightarrow> bb_bytes o' = bb_bytes out @ (if bb_alloc b then bb_bytes b else []))"
    if "bb_ok out" "h265_snapshot_append_cached_params A t out b = (r, o', t')" for out t b r o' t'
    using that bb.append_view [OF that(1), of A t "bb_bytes b" r o' t']
    by (auto simp: h265_snapshot_append_cached_params_def split: if_splits)
  obtain r1 o1 t1 where a1: "h265_snapshot_append_cached_params A t out (sc_vps c) = (r1, o1, t1)" by (metis prod_cases3)
  obtain r2 o2 t2 where a2: "h265_snapshot_append_cached_params A t1 o1 (sc_sps c) = (r2, o2, t2)" by (metis prod_cases3)
  obtain r3 o3 t3 where a3: "h265_snapshot_append_cached_params A t2 o2 (sc_pps c) = (r3, o3, t3)" by (metis prod_cases3)
  note 1 = one [OF assms(1) a1]
  note 2 = one [OF conjunct1 [OF 1] a2]
  note 3 = one [OF conjunct1 [OF 2] a3]
  show ?thesis using assms(2) a1 a2 a3 1 2 3 by (auto simp: h265_snapshot_append_params_def split: if_splits)
qed

text \<open>What \<open>h265_snapshot_build_output\<close> puts together when it succeeds.\<close>

lemma build_output_wf:
  assumes c: "cache_wf full c" "snapshot_cache_ok c"
    and b: "h265_snapshot_build_output A t c bb_zero = (0, out, used, t')"
  obtains v s p g where "clean_nalu v" "clean_nalu s" "clean_nalu p"
    and "h265_nalu_type v = 32" "h265_nalu_type s = 33" "h265_nalu_type p = 34"
    and "bb_bytes out = annexb_join [v, s, p] @ g" and "stream_wf g" and "full \<Longrightarrow> holds_irap g"
    and "g = bb_bytes (if used then sc_current_gop c else sc_last_irap c)"
proof -
  have z: "bb_ok (h265_buffer_reset bb_zero)" "bb_bytes (h265_buffer_reset bb_zero) = []"
    by (simp_all add: h265_buffer_reset_def bb_ok_def bb_zero_def)
  have params: "bb_len (sc_vps c) > 0" "bb_len (sc_sps c) > 0" "bb_len (sc_pps c) > 0"
    using b by (auto simp: h265_snapshot_build_output_def Let_def split: if_splits)
  have al: "bb_alloc (sc_vps c)" "bb_alloc (sc_sps c)" "bb_alloc (sc_pps c)"
    using params c(2) by (auto simp: snapshot_cache_ok_def bb_ok_def)
  obtain v s p where v: "clean_nalu v" "h265_nalu_type v = 32" "bb_bytes (sc_vps c) = [0, 0, 0, 1] @ v"
    and s: "clean_nalu s" "h265_nalu_type s = 33" "bb_bytes (sc_sps c) = [0, 0, 0, 1] @ s"
    and p: "clean_nalu p" "h265_nalu_type p = 34" "bb_bytes (sc_pps c) = [0, 0, 0, 1] @ p"
    using c(1) params by (auto simp: cache_wf_def param_wf_def)
  obtain r1 o1 t1 where a: "h265_snapshot_append_params A t c (h265_buffer_reset bb_zero) = (r1, o1, t1)"
    by (metis prod_cases3)
  let ?g = "\<lambda>u. bb_bytes (if u then sc_current_gop c else sc_last_irap c)"
  have "r1 = 0 \<and> h265_buffer_append A t1 o1 (?g used) = (0, out, t') \<and> ?g used \<noteq> [] \<and>
      (used \<longrightarrow> sc_current_gop_has_irap c)"
    using b params unfolding h265_snapshot_build_output_def Let_def a prod.case
    by (cases "h265_buffer_append A t1 o1 (bb_bytes (sc_current_gop c))";
        cases "h265_buffer_append A t1 o1 (bb_bytes (sc_last_irap c))") (auto split: if_splits)
  then have r1: "r1 = 0" and app: "h265_buffer_append A t1 o1 (?g used) = (0, out, t')"
    and ne: "?g used \<noteq> []" and used: "used \<longrightarrow> sc_current_gop_has_irap c" by auto
  from append_params_ok [OF z(1) a] r1 al v(3) s(3) p(3) z(2)
  have o1: "bb_ok o1" "bb_bytes o1 = annexb_join [v, s, p]" by auto
  from bb.append_view [OF o1(1) app] o1(2) have out: "bb_bytes out = annexb_join [v, s, p] @ ?g used" by simp
  have g: "stream_wf (?g used)" "full \<longrightarrow> holds_irap (?g used)"
    using c(1) ne used by (auto simp: cache_wf_def split: if_splits)
  show thesis using that [OF v(1) s(1) p(1) v(2) s(2) p(2) out g(1)] g(2) by blast
qed

section \<open>A flagged message\<close>

text \<open>
  How the cached random access picture changes: not at all, or it is replaced by the access unit.
\<close>

definition irap_stored ::
    "alloc_env \<Rightarrow> nat \<Rightarrow> h265_snapshot_frame \<Rightarrow> h265_snapshot_cache \<Rightarrow> h265_snapshot_cache \<Rightarrow> bool" where
  "irap_stored A t fr c c' \<longleftrightarrow> c' = c \<or> fr_has_irap fr \<and>
     (\<exists>k b t'. h265_buffer_replace A t (sc_last_irap c) (bb_bytes (fr_au fr)) = (k, b, t') \<and> sc_last_irap c' = b) \<and>
     sc_vps c' = sc_vps c \<and> sc_sps c' = sc_sps c \<and> sc_pps c' = sc_pps c \<and>
     sc_current_gop c' = sc_current_gop c \<and> sc_current_gop_has_irap c' = sc_current_gop_has_irap c"

lemma irap_stored_ok: "irap_stored A t fr c c' \<Longrightarrow> snapshot_cache_ok c \<Longrightarrow> snapshot_cache_ok c'"
  using replace_ok [of "sc_last_irap c" A t "bb_bytes (fr_au fr)"] by (auto simp: irap_stored_def snapshot_cache_ok_def)

lemma irap_stored_wf:
  assumes "irap_stored A t fr c c'" and "snapshot_cache_ok c" and "cache_wf full c"
    and "stream_wf (bb_bytes (fr_au fr))" and "full \<and> fr_has_irap fr \<longrightarrow> holds_irap (bb_bytes (fr_au fr))"
  shows "cache_wf full c'"
proof (cases "c' = c")
  case False
  then obtain k b t' where r: "h265_buffer_replace A t (sc_last_irap c) (bb_bytes (fr_au fr)) = (k, b, t')"
    and b: "sc_last_irap c' = b" using assms(1) by (auto simp: irap_stored_def)
  have "bb_ok (sc_last_irap c)" using assms(2) by (simp add: snapshot_cache_ok_def)
  from replace_ok [OF this r] have "bb_bytes b = bb_bytes (fr_au fr) \<or> bb_bytes b = []" by auto
  then show ?thesis using False assms b by (auto simp: irap_stored_def cache_wf_def)
qed (use assms in simp)

text \<open>
  The possible outcomes of \<open>datafifo_snapshot_process\<close> for a flagged message: it stops when a pack
  cannot be mapped, or it updates the cache and then stops, or hands the block over.
\<close>

text \<open>The step of \<open>datafifo_snapshot_process\<close> that keeps a frame with a random access picture.\<close>

lemma store_irap:
  obtains c2 t2 where "(if fr_has_irap f \<and> bb_len (fr_au f) > 0 then
        (case h265_buffer_replace A t1 (sc_last_irap c1) (bb_bytes (fr_au f)) of
          (r, b, t') \<Rightarrow>
            if r = 0
            then (c1\<lparr>sc_last_irap := b, sc_last_irap_pts := pts,
                    sc_last_irap_seq := seq, sc_last_irap_has_vps := fr_has_vps f,
                    sc_last_irap_has_sps := fr_has_sps f, sc_last_irap_has_pps := fr_has_pps f\<rparr>, t')
            else (c1\<lparr>sc_last_irap := b\<rparr>, t'))
      else (c1, t1)) = (c2, t2)" and "irap_stored A t1 f c1 c2"
proof -
  obtain k b t' where rep: "h265_buffer_replace A t1 (sc_last_irap c1) (bb_bytes (fr_au f)) = (k, b, t')"
    by (metis prod_cases3)
  let ?c2 = "if fr_has_irap f \<and> bb_len (fr_au f) > 0 then
      (if k = 0 then c1\<lparr>sc_last_irap := b, sc_last_irap_pts := pts,
          sc_last_irap_seq := seq, sc_last_irap_has_vps := fr_has_vps f,
          sc_last_irap_has_sps := fr_has_sps f, sc_last_irap_has_pps := fr_has_pps f\<rparr>
       else c1\<lparr>sc_last_irap := b\<rparr>) else c1"
  have "irap_stored A t1 f c1 ?c2" using rep by (auto simp: irap_stored_def)
  then show thesis
    by (rule that [of _ "if fr_has_irap f \<and> bb_len (fr_au f) > 0 then t' else t1", rotated]) (simp add: rep)
qed

lemma process_cases:
  assumes flag: "msg_reserved msg AND MPP_NALU_IPC_FLAG_SNAPSHOT \<noteq> 0"
    and p: "datafifo_snapshot_process A E addr (Some msg) ready st = (r, st')"
    and s0: "s0 = \<lparr>sn_frame = frame_zero\<lparr>fr_copy_au := True\<rparr>, sn_cache = ss_cache st, sn_t = ss_t st\<rparr>"
  obtains (unmapped) s m where "snapshot_packs A E (live_packs msg) s0 (ss_mem st) = Inl (s, m)"
      and "r = -1" and "ss_cache st' = sn_cache s" and "ss_mem st' = m" and "ss_writer st' = ss_writer st"
  | (idle) s m c1 t1 where "snapshot_packs A E (live_packs msg) s0 (ss_mem st) = Inr (s, m)"
      and "h265_snapshot_update_gop_cache A (sn_t s) (sn_frame s) (Some msg) (sn_cache s) = (c1, t1)"
      and "r = -1" and "ss_mem st' = m" and "ss_writer st' = ss_writer st"
      and "irap_stored A t1 (sn_frame s) c1 (ss_cache st')"
  | (handed) s m c1 t1 t2 t3 out used where "snapshot_packs A E (live_packs msg) s0 (ss_mem st) = Inr (s, m)"
      and "h265_snapshot_update_gop_cache A (sn_t s) (sn_frame s) (Some msg) (sn_cache s) = (c1, t1)"
      and "ss_mem st' = m"
      and "irap_stored A t1 (sn_frame s) c1 (ss_cache st')"
      and "ready" and "h265_snapshot_build_output A t2 (ss_cache st') bb_zero = (0, out, used, t3)"
      and "snapshot_writer_enqueue_h265_take (Some (addr, bb_bytes out))
             (if used then sc_current_gop_pts (ss_cache st') else msg_frame_pts msg)
             (Some (if used then ''datafifo-cached-gop'' else ''datafifo-irap'')) (ss_writer st) = (r, ss_writer st')"
proof (cases "snapshot_packs A E (live_packs msg) s0 (ss_mem st)")
  case (Inl x)
  obtain s m where x: "x = (s, m)" by fastforce
  have "(r, st') = (-1, st\<lparr>ss_cache := sn_cache s, ss_t := sn_t s, ss_mem := m\<rparr>)"
    using flag Inl unfolding p [symmetric] datafifo_snapshot_process_def option.case s0 [symmetric]
      live_packs_def [symmetric] x by simp
  with Inl x unmapped show thesis by simp
next
  case (Inr x)
  obtain s m where x: "x = (s, m)" by fastforce
  obtain c1 t1 where u: "h265_snapshot_update_gop_cache A (sn_t s) (sn_frame s) (Some msg) (sn_cache s) = (c1, t1)"
    by fastforce
  obtain c2 t2 where c2: "(if fr_has_irap (sn_frame s) \<and> bb_len (fr_au (sn_frame s)) > 0 then
        (case h265_buffer_replace A t1 (sc_last_irap c1) (bb_bytes (fr_au (sn_frame s))) of
          (r, b, t') \<Rightarrow>
            if r = 0
            then (c1\<lparr>sc_last_irap := b, sc_last_irap_pts := msg_frame_pts msg,
                    sc_last_irap_seq := msg_seq msg, sc_last_irap_has_vps := fr_has_vps (sn_frame s),
                    sc_last_irap_has_sps := fr_has_sps (sn_frame s),
                    sc_last_irap_has_pps := fr_has_pps (sn_frame s)\<rparr>, t')
            else (c1\<lparr>sc_last_irap := b\<rparr>, t'))
      else (c1, t1)) = (c2, t2)"
    and c2': "irap_stored A t1 (sn_frame s) c1 c2" by (rule store_irap)
  obtain o_r out used t3 where o: "h265_snapshot_build_output A t2 c2 bb_zero = (o_r, out, used, t3)"
    by (metis prod_cases4)
  obtain ret w where e: "snapshot_writer_enqueue_h265_take (Some (addr, bb_bytes out))
       (if used then sc_current_gop_pts c2 else msg_frame_pts msg)
       (Some (if used then ''datafifo-cached-gop'' else ''datafifo-irap'')) (ss_writer st) = (ret, w)"
    by fastforce
  have res: "(r, st') = (if \<not> ready then (-1, st\<lparr>ss_cache := c2, ss_t := t2, ss_mem := m\<rparr>)
     else if o_r \<noteq> 0 \<or> bb_len out = 0 then (-1, st\<lparr>ss_cache := c2, ss_t := t3, ss_mem := m\<rparr>)
     else (ret, st\<lparr>ss_cache := c2, ss_t := t3, ss_mem := m, ss_writer := w\<rparr>))"
    using flag e unfolding p [symmetric] datafifo_snapshot_process_def option.case s0 [symmetric]
      live_packs_def [symmetric] x Inr sum.case prod.case Let_def u c2 o by (simp split: if_splits)
  show thesis
  proof (cases "\<not> ready \<or> o_r \<noteq> 0 \<or> bb_len out = 0")
    case True
    then have "r = -1" "ss_mem st' = m" "ss_writer st' = ss_writer st" "ss_cache st' = c2"
      using res by (auto split: if_splits)
    with idle [OF Inr [unfolded x] u] c2' show thesis by simp
  next
    case False
    then have r: "r = ret" "st' = st\<lparr>ss_cache := c2, ss_t := t3, ss_mem := m, ss_writer := w\<rparr>" using res by auto
    then have c: "ss_cache st' = c2" "ss_mem st' = m" "ss_writer st' = w" by simp_all
    from handed [OF Inr [unfolded x] u, unfolded c, OF refl c2'] False r(1) o e show thesis by simp
  qed
qed



definition cache_inv_snapshot :: "bool \<Rightarrow> h265_snapshot_cache \<Rightarrow> bool" where
  "cache_inv_snapshot full c \<longleftrightarrow> snapshot_cache_ok c \<and> cache_wf full c"

lemma start_frame_wf:
  "cache_inv_snapshot full c \<Longrightarrow>
     snap_wf full \<lparr>sn_frame = frame_zero\<lparr>fr_copy_au := True\<rparr>, sn_cache = c, sn_t = t\<rparr>"
  by (simp add: snap_wf_def snap_ok_def cache_inv_snapshot_def frame_zero_def)

lemma process_cache:
  assumes E: "page_size_ok E" and v: "nalu_datafifo_validate_msg (Some msg) = 0"
    and fit: "\<forall>p \<in> set (live_packs msg). fit_buffer (phys_bytes E p)"
    and full: "full \<longrightarrow> memory_suffices A" and inv: "cache_inv_snapshot full (ss_cache st)"
    and p: "datafifo_snapshot_process A E addr (Some msg) ready st = (r, st')"
  shows "cache_inv_snapshot full (ss_cache st')"
proof (cases "msg_reserved msg AND MPP_NALU_IPC_FLAG_SNAPSHOT = 0")
  case True
  with p inv show ?thesis by (simp add: datafifo_snapshot_process_def)
next
  case False
  let ?s0 = "\<lparr>sn_frame = frame_zero\<lparr>fr_copy_au := True\<rparr>, sn_cache = ss_cache st, sn_t = ss_t st\<rparr>"
  have ok: "list_all pack_ok (live_packs msg)" "length (live_packs msg) \<le> 8"
    using v [unfolded msg_valid_iff] by (auto simp: msg_ok_def live_packs_def)
  have "sum_list (map (unat \<circ> pk_len) ps) \<le> 8388608 * length ps" if "list_all pack_ok ps" for ps
    using that by (induction ps) (auto simp: pack_ok_def)
  from this [OF ok(1)] ok(2) have sum: "3 * sum_list (map (unat \<circ> pk_len) (live_packs msg)) \<le> SIZE_MAX"
    by (simp add: SIZE_MAX_def)
  have packs: "case snapshot_packs A E (live_packs msg) ?s0 (ss_mem st) of
      Inl (s', _) \<Rightarrow> snap_wf full s' | Inr (s', _) \<Rightarrow> snap_wf full s'"
    by (rule snapshot_packs_wf [OF E start_frame_wf [OF inv]])
      (use fit ok(1) full sum in \<open>auto simp: list_all_iff frame_zero_def\<close>)
  have step: "cache_inv_snapshot full (ss_cache st')"
    if "snap_wf full s" "h265_snapshot_update_gop_cache A (sn_t s) (sn_frame s) (Some msg) (sn_cache s) = (c1, t1)"
      "irap_stored A t1 (sn_frame s) c1 (ss_cache st')" for s c1 t1
  proof -
    note w = that(1) [unfolded snap_wf_def snap_ok_def]
    have c1: "snapshot_cache_ok c1" using update_gop_ok [OF _ that(2)] w by blast
    have "cache_wf full c1" using update_gop_wf [OF _ _ _ _ that(2)] w by blast
    with irap_stored_ok [OF that(3) c1] irap_stored_wf [OF that(3) c1] w
    show ?thesis unfolding cache_inv_snapshot_def by blast
  qed
  show ?thesis
  proof (rule process_cases [OF False p refl])
    fix s m
    assume "snapshot_packs A E (live_packs msg) ?s0 (ss_mem st) = Inl (s, m)" "ss_cache st' = sn_cache s"
    with packs show ?thesis by (simp add: snap_wf_def snap_ok_def cache_inv_snapshot_def)
  qed (use packs step in auto)
qed

section \<open>A message that is accepted\<close>

text \<open>One pack with the three parameter sets and an IDR picture, for the witnesses.\<close>

definition demo_snapshot_msg :: ipc_msg where
  "demo_snapshot_msg = \<lparr>msg_magic = 0x4E414C55, msg_version = 1, msg_chn = 0, msg_pack_cnt = 1, msg_seq = 7,
    msg_frame_pts = 1, msg_submit_time_ms = 2, msg_total_len = 28, msg_reserved = 1,
    msg_packs = replicate 8 \<lparr>pk_phys_addr = 0x1000, pk_pts = 1, pk_len = 28, pk_type = 0\<rparr>\<rparr>"
definition demo_stream :: bytes where
  "demo_stream = [0, 0, 0, 1, 64, 1, 9, 0, 0, 0, 1, 66, 1, 9, 0, 0, 0, 1, 68, 1, 9, 0, 0, 0, 1, 38, 1, 9]"
definition demo_snapshot_env :: mmap_env where
  "demo_snapshot_env = demo_mmap_env (\<lambda>a. demo_stream ! unat (a - 0x1000))"
definition demo_snapshot_state :: snapshot_state where
  "demo_snapshot_state = \<lparr>ss_cache = cache_zero, ss_t = 0, ss_mem = no_maps,
     ss_writer = (writer_zero demo_fs)\<lparr>wr_started := True, wr_thread := Waiting\<rparr>\<rparr>"


lemma grow_cap_enough: "needed \<le> c \<Longrightarrow> grow_cap n c needed = c"
  by (cases n) auto

lemma clean_nalu_nonzero: "n \<noteq> [] \<Longrightarrow> 0 \<notin> set n \<Longrightarrow> clean_nalu n"
  using is_sc_first_zero [of n] by (fastforce simp: clean_nalu_def in_set_conv_nth last_conv_nth)

definition demo_nalus :: "bytes list" where
  "demo_nalus = [[64, 1, 9], [66, 1, 9], [68, 1, 9], [38, 1, 9]]"

definition demo_bb :: "bytes \<Rightarrow> byte_buffer" where
  "demo_bb d = \<lparr>bb_alloc = True, bb_bytes = d, bb_cap = 4096\<rparr>"

lemma demo_units: "map fst (annexb_units demo_stream 0) = demo_nalus"
  using annexb_units_join [of demo_nalus "[]"] by (simp add: demo_nalus_def demo_stream_def clean_nalu_nonzero)


lemmas demo_eval = h265_snapshot_feed_nalu_def h265_nalu_type_def h265_nalu_is_irap_def H265_NAL_BLA_W_LP_def
  H265_NAL_CRA_NUT_def frame_zero_def bb_zero_def h265_append_annexb_nalu_def trim_end_id
  h265_buffer_append_start_code_def h265_buffer_append_def h265_buffer_reserve_def SIZE_MAX_def grow_cap_enough
  cache_zero_def h265_snapshot_update_param_set_def h265_buffer_replace_def h265_buffer_reset_def Let_def

text \<open>The four NALUs fill the parameter sets and the access unit.\<close>

definition demo_fed :: snap where
  "demo_fed = \<lparr>sn_frame = \<lparr>fr_au = demo_bb demo_stream, fr_copy_au = True, fr_has_vps = True, fr_has_sps = True,
       fr_has_pps = True, fr_has_irap = True\<rparr>,
     sn_cache = cache_zero\<lparr>sc_vps := demo_bb [0, 0, 0, 1, 64, 1, 9], sc_sps := demo_bb [0, 0, 0, 1, 66, 1, 9],
       sc_pps := demo_bb [0, 0, 0, 1, 68, 1, 9]\<rparr>, sn_t = 4\<rparr>"

lemma demo_feed: "feed_each (\<lambda>_ _. True) demo_nalus
  \<lparr>sn_frame = frame_zero\<lparr>fr_copy_au := True\<rparr>, sn_cache = cache_zero, sn_t = 0\<rparr> = (0, demo_fed)"
  by (simp add: demo_eval demo_nalus_def demo_fed_def demo_bb_def demo_stream_def)

lemma demo_feed_buffer: "h265_snapshot_feed_buffer (\<lambda>_ _. True) (Some demo_stream)
  \<lparr>sn_frame = frame_zero\<lparr>fr_copy_au := True\<rparr>, sn_cache = cache_zero, sn_t = 0\<rparr> = (0, demo_fed)"
proof -
  have "length demo_stream = 28" by (simp add: demo_stream_def)
  moreover have "h265_buffer_starts_with_start_code (Some demo_stream)"
    by (simp add: starts_iff sc_at_4 demo_stream_def)
  moreover have "length (annexb_units demo_stream 0) = 4"
    using arg_cong [OF demo_units, of length] by (simp add: demo_nalus_def)
  ultimately show ?thesis
    using feed_buffer_loop_eq [of demo_stream "\<lambda>_ _. True" 0 0] demo_feed
    by (simp add: h265_snapshot_feed_buffer_def demo_units)
qed

lemma demo_live: "live_packs demo_snapshot_msg = [\<lparr>pk_phys_addr = 0x1000, pk_pts = 1, pk_len = 28, pk_type = 0\<rparr>]"
  by (simp add: live_packs_def demo_snapshot_msg_def numeral_eq_Suc)

lemma demo_phys: "phys_bytes demo_snapshot_env \<lparr>pk_phys_addr = 0x1000, pk_pts = 1, pk_len = 28, pk_type = 0\<rparr> = demo_stream"
  by code_simp

lemma demo_packs: "\<exists>m. snapshot_packs (\<lambda>_ _. True) demo_snapshot_env (live_packs demo_snapshot_msg)
  \<lparr>sn_frame = frame_zero\<lparr>fr_copy_au := True\<rparr>, sn_cache = cache_zero, sn_t = 0\<rparr> no_maps = Inr (demo_fed, m)"
proof -
  let ?p = "\<lparr>pk_phys_addr = 0x1000, pk_pts = 1, pk_len = 28, pk_type = 0\<rparr> :: ipc_pack"
  obtain v m1 where m: "nalu_datafifo_mmap_pack demo_snapshot_env (Some ?p) no_maps = (Some v, m1)"
    by (simp add: nalu_datafifo_mmap_pack_def little_sys_mmap_def ensure_mem_fd_def Let_def
        demo_snapshot_env_def demo_mmap_env_def no_maps_def page_offset_def page_mask_def)
  have "vm_bytes demo_snapshot_env m1 v (unat (pk_len ?p)) = Some demo_stream"
    using devmem.mmap_reads [OF _ m] demo_mmap_env_ok demo_phys by (simp add: demo_snapshot_env_def)
  then show ?thesis using m demo_feed_buffer by (simp add: demo_live split: prod.splits)
qed

lemma demo_accepted: "\<exists>st'. datafifo_snapshot_process (\<lambda>_ _. True) demo_snapshot_env 5 (Some demo_snapshot_msg) True
    demo_snapshot_state = (0, st')"
proof -
  obtain m where m: "snapshot_packs (\<lambda>_ _. True) demo_snapshot_env (live_packs demo_snapshot_msg)
    \<lparr>sn_frame = frame_zero\<lparr>fr_copy_au := True\<rparr>, sn_cache = cache_zero, sn_t = 0\<rparr> no_maps = Inr (demo_fed, m)"
    using demo_packs by blast
  have f: "msg_reserved demo_snapshot_msg AND MPP_NALU_IPC_FLAG_SNAPSHOT \<noteq> 0"
    by (simp add: demo_snapshot_msg_def MPP_NALU_IPC_FLAG_SNAPSHOT_def)
  show ?thesis
    using f m
    by (simp add: datafifo_snapshot_process_def demo_snapshot_state_def live_packs_def [symmetric] demo_eval
      demo_fed_def demo_bb_def demo_stream_def h265_snapshot_update_gop_cache_def H265_SNAPSHOT_MAX_GOP_BYTES_def
      h265_snapshot_build_output_def h265_snapshot_append_params_def h265_snapshot_append_cached_params_def
      snapshot_writer_enqueue_h265_take_def queue_push_def writer_zero_def SNAPSHOT_QUEUE_DEPTH_def)
qed

lemma demo_env_ok: "page_size_ok demo_snapshot_env"
  by (simp add: demo_snapshot_env_def demo_mmap_env_ok)

lemma demo_cache_inv: "cache_inv_snapshot full (ss_cache demo_snapshot_state)"
  by (simp add: demo_snapshot_state_def cache_inv_snapshot_def snapshot_cache_ok_def cache_wf_def param_wf_def
      cache_zero_def bb_zero_def bb_ok_def)

lemma demo_fit: "\<forall>p \<in> set (live_packs demo_snapshot_msg). fit_buffer (phys_bytes demo_snapshot_env p)"
  by (simp add: demo_live demo_phys fit_buffer_def sc_at_4) (simp add: demo_stream_def)

lemma demo_valid: "nalu_datafifo_validate_msg (Some demo_snapshot_msg) = 0"
  by code_simp

section \<open>Properties\<close>

lemma process_bounds:
  assumes "page_size_ok E" and "munmap_accepts E" and "maps_fresh E (ss_mem st)"
    and "snapshot_cache_ok (ss_cache st)"
    and "datafifo_snapshot_process A E addr msgp ready st = (r, st')"
  shows "snapshot_cache_ok (ss_cache st') \<and> mm_maps (ss_mem st') = mm_maps (ss_mem st)"
proof (cases "\<exists>msg. msgp = Some msg \<and> msg_reserved msg AND MPP_NALU_IPC_FLAG_SNAPSHOT \<noteq> 0")
  case False
  with assms(4,5) show ?thesis by (auto simp: datafifo_snapshot_process_def split: option.splits)
next
  case True
  then obtain msg where msg: "msgp = Some msg" "msg_reserved msg AND MPP_NALU_IPC_FLAG_SNAPSHOT \<noteq> 0" by blast
  let ?s0 = "\<lparr>sn_frame = frame_zero\<lparr>fr_copy_au := True\<rparr>, sn_cache = ss_cache st, sn_t = ss_t st\<rparr>"
  have "snap_ok ?s0" using assms(4) by (simp add: snap_ok_def frame_zero_def)
  note ok = snapshot_packs_ok [OF this, of A E "live_packs msg" "ss_mem st"]
  note maps = snapshot_packs_maps [OF assms(1,2,3), of A "live_packs msg" ?s0]
  have step: "snapshot_cache_ok (ss_cache st')"
    if "snap_ok s" "h265_snapshot_update_gop_cache A (sn_t s) (sn_frame s) (Some msg) (sn_cache s) = (c1, t1)"
      "irap_stored A t1 (sn_frame s) c1 (ss_cache st')" for s c1 t1
    using update_gop_ok [OF _ that(2)] irap_stored_ok [OF that(3)] that(1) by (simp add: snap_ok_def)
  show ?thesis
    by (rule process_cases [OF msg(2) assms(5) [unfolded msg(1)] refl]) (use ok maps step in \<open>auto simp: snap_ok_def\<close>)
qed

text \<open>
  C20: Whatever the allocator and the system answer, and for any message that passed the validation
  and whose packs are streams or single NALUs, the snapshot cache stays well-formed: all buffers
  are within their capacity, the group of pictures within 8 MiB, the cached parameter sets are
  empty or one NALU of their type, the cached pictures are streams. When no allocation fails,
  what is cached as random access picture or group of pictures does contain a random access
  picture.
\<close>

theorem datafifo_snapshot_process_invariant:
  assumes "page_size_ok E" and "nalu_datafifo_validate_msg (Some msg) = 0"
    and "\<forall>p \<in> set (live_packs msg). fit_buffer (phys_bytes E p)"
    and "full \<longrightarrow> memory_suffices A" and "cache_inv_snapshot full (ss_cache st)"
    and "datafifo_snapshot_process A E addr (Some msg) ready st = (r, st')"
  shows "cache_inv_snapshot full (ss_cache st')"
  by (rule process_cache [OF assms])

theorem datafifo_snapshot_process_invariant_witness:
  "\<exists>st'. datafifo_snapshot_process (\<lambda>_ _. True) demo_snapshot_env 5 (Some demo_snapshot_msg) True
     demo_snapshot_state = (0, st') \<and> cache_inv_snapshot True (ss_cache st')"
proof -
  obtain st' where X: "datafifo_snapshot_process (\<lambda>_ _. True) demo_snapshot_env 5 (Some demo_snapshot_msg) True
     demo_snapshot_state = (0, st')" using demo_accepted by blast
  have "memory_suffices (\<lambda>_ _. True)" by (simp add: memory_suffices_def)
  with datafifo_snapshot_process_invariant [OF demo_env_ok demo_valid demo_fit _ demo_cache_inv X, of True] X
  show ?thesis by blast
qed

text \<open>What a reader finds in the block that is handed over, and what becomes of the block.\<close>

lemma built_output_units:
  assumes "cache_inv_snapshot full c" and "h265_snapshot_build_output A t c bb_zero = (0, out, used, t')"
  obtains v s p ns where "map fst (annexb_units (bb_bytes out) 0) = [v, s, p] @ ns"
    and "h265_nalu_type v = 32" and "h265_nalu_type s = 33" and "h265_nalu_type p = 34"
    and "full \<longrightarrow> list_ex (\<lambda>n. h265_nalu_is_irap (h265_nalu_type n)) ns"
proof -
  have inv: "cache_wf full c" "snapshot_cache_ok c" using assms(1) by (auto simp: cache_inv_snapshot_def)
  obtain v s p g where vsp: "clean_nalu v" "clean_nalu s" "clean_nalu p"
      "h265_nalu_type v = 32" "h265_nalu_type s = 33" "h265_nalu_type p = 34"
    and out: "bb_bytes out = annexb_join [v, s, p] @ g" and g: "stream_wf g" "full \<Longrightarrow> holds_irap g"
    using build_output_wf [OF inv assms(2)] by metis
  have vsp': "\<forall>n \<in> set [v, s, p]. n = [] \<or> clean_nalu n" using vsp by simp
  then have w: "stream_wf (annexb_join [v, s, p])" unfolding stream_wf_def by blast
  have "v \<noteq> []" "s \<noteq> []" "p \<noteq> []" using vsp by (auto simp: clean_nalu_def)
  with stream_nalus_join [OF vsp'] have "stream_nalus (annexb_join [v, s, p]) = [v, s, p]" by simp
  with stream_wf_append(2) [OF w g(1)] out
  have "map fst (annexb_units (bb_bytes out) 0) = [v, s, p] @ stream_nalus g"
    by (simp add: stream_nalus_def)
  with that vsp(4-6) g(2) show thesis unfolding holds_irap_def by blast
qed

lemma enqueue_take_cases:
  assumes "ring_ok w" and "snapshot_writer_enqueue_h265_take (Some blk) pts (Some reason) w = (r, w')"
  shows "(r = 0 \<and> ring_items w' = ring_items w @ [make_job blk pts (Some reason)]) \<or>
    (r = -1 \<and> ring_items w' = ring_items w)"
proof -
  consider "r = -1" "w' = free_block (Some blk) w" | "r = 0" "queue_push (make_job blk pts (Some reason)) w = Some w'"
    using assms(2) by (auto simp: snapshot_writer_enqueue_h265_take_def Let_def snapshot_free_job_def make_job_def
        split: if_splits option.splits prod.splits)
  then show ?thesis
  proof cases
    case 1
    then show ?thesis using ring_frame [of w' w] by (cases blk) simp
  next
    case 2
    with queue_push_Some [OF assms(1) 2(2)] show ?thesis by blast
  qed
qed



text \<open>
  The bounds hold without any assumption on the message, on the bytes of its packs, or on the
  allocator: every buffer of the cache stays within its capacity and the cached group of pictures
  within 8 MiB; and once the message is processed, on every path, no mapping is left behind.
\<close>

theorem datafifo_snapshot_process_bounds:
  assumes "page_size_ok E" and "munmap_accepts E" and "maps_fresh E (ss_mem st)"
    and "snapshot_cache_ok (ss_cache st)"
    and "datafifo_snapshot_process A E addr msgp ready st = (r, st')"
  shows "snapshot_cache_ok (ss_cache st') \<and> mm_maps (ss_mem st') = mm_maps (ss_mem st)"
  by (rule process_bounds [OF assms])

theorem datafifo_snapshot_process_bounds_witness:
  "\<exists>r st'. datafifo_snapshot_process (\<lambda>_ n. n < 5000) demo_snapshot_env 5 (Some demo_snapshot_msg) True
     demo_snapshot_state = (r, st') \<and> mm_maps (ss_mem st') = [] \<and>
     bb_len (sc_current_gop (ss_cache st')) \<le> 8 * 1024 * 1024"
proof -
  obtain r st' where X: "datafifo_snapshot_process (\<lambda>_ n. n < 5000) demo_snapshot_env 5 (Some demo_snapshot_msg) True
     demo_snapshot_state = (r, st')" by fastforce
  have a: "munmap_accepts demo_snapshot_env" "maps_fresh demo_snapshot_env (ss_mem demo_snapshot_state)"
    "ss_mem demo_snapshot_state = no_maps"
    using demo_mmap_env_ok(2)
    by (simp_all add: munmap_accepts_def demo_snapshot_env_def demo_mmap_env_def demo_snapshot_state_def)
  have "snapshot_cache_ok (ss_cache demo_snapshot_state)" using demo_cache_inv by (simp add: cache_inv_snapshot_def)
  from datafifo_snapshot_process_bounds [OF demo_env_ok a(1,2) this X] X a(3) show ?thesis
    by (simp add: snapshot_cache_ok_def no_maps_def H265_SNAPSHOT_MAX_GOP_BYTES_def)
qed

end
