(* ===== verification/Sender.thy ===== *)
theory Sender
  imports Playback Datafifo_Reader Snapshot_Stream
begin

unbundle bit_operations_syntax

text \<open>
  The sender thread in DATAFIFO mode (\<open>datafifo_rtp_sender_loop\<close> of \<open>src/RTSP_Create.c\<close>): one
  iteration of its loop takes an item from the FIFO, validates the message, hands it to the
  snapshot module and to the live path, and releases the item. The state collects the local
  variables of the loop and the states of the components it drives.
\<close>

section \<open>State and environment\<close>

text \<open>
  \<open>ev_writer t\<close> is what the writer thread did before the \<open>t\<close>-th snapshot call of the sender, and
  \<open>ev_block t\<close> the address of the block that this call hands over.
\<close>

record sender_env =
  ev_world :: world
  ev_kd :: kd_env
  ev_writer :: "nat \<Rightarrow> writer \<Rightarrow> writer"
  ev_block :: "nat \<Rightarrow> nat"

record sender =
  sd_fifo :: fifo_state
  sd_reader :: nalu_datafifo_reader
  sd_player :: player
  sd_cache :: h265_snapshot_cache
  sd_writer :: writer
  sd_snapshot_ready :: bool
  sd_snapshots :: nat
  sd_timestamp :: u32
  sd_last_sent_seq :: u64
  sd_last_read_seq :: u64
  sd_last_item_seq :: u64
  sd_last_item_ms :: u64
  sd_frame_count :: u32
  sd_idle_loops :: u32
  sd_last_idle_log_ms :: u64
  sd_stats :: "(u64 \<times> u64) list"

definition SENDER_SSRC :: u32 where "SENDER_SSRC = 0x22334455"
definition SENDER_TIMESTAMP :: u32 where "SENDER_TIMESTAMP = 0x12345678"
definition DATAFIFO_LOG_INTERVAL :: u32 where "DATAFIFO_LOG_INTERVAL = 30"

section \<open>Time and log lines\<close>

definition monotonic_ms :: "clock_env \<Rightarrow> nat \<Rightarrow> u64 \<times> nat" where
  "monotonic_ms C t =
     (case C t of
        None \<Rightarrow> (0, t + 1)
      | Some (tv_sec, tv_usec) \<Rightarrow> (tv_sec * 1000 + tv_usec div 1000, t + 1))"

text \<open>The clock is read by the reader and by the loop; \<open>ff_clock\<close> counts the readings.\<close>

definition clock_ms :: "sender_env \<Rightarrow> sender \<Rightarrow> u64 \<times> sender" where
  "clock_ms V s =
     (case monotonic_ms (kd_clock (ev_kd V)) (ff_clock (sd_fifo s)) of
        (now, t) \<Rightarrow> (now, s\<lparr>sd_fifo := (sd_fifo s)\<lparr>ff_clock := t\<rparr>\<rparr>))"

text \<open>
  The line that is printed (\<open>last_seq\<close>, \<open>idle_ms\<close>, \<open>idle_loops\<close>), if any, and the static
  \<open>last_idle_log_ms\<close> afterwards.
\<close>

definition datafifo_log_reader_idle ::
    "u64 \<Rightarrow> u64 \<Rightarrow> u64 \<Rightarrow> u32 \<Rightarrow> u64 \<Rightarrow> (u64 \<times> u64 \<times> u32) option \<times> u64" where
  "datafifo_log_reader_idle now last_seq last_item_ms idle_loops last_idle_log_ms =
     (if now = 0 then (None, last_idle_log_ms)
      else if last_idle_log_ms = 0 \<or> now - last_idle_log_ms \<ge> NALU_DATAFIFO_IDLE_LOG_INTERVAL_MS
      then (Some (last_seq, if last_item_ms \<noteq> 0 then now - last_item_ms else 0, idle_loops), now)
      else (None, last_idle_log_ms))"

text \<open>The \<open>seq\<close> and the \<open>gap\<close> of the line that is printed, if any.\<close>

definition log_datafifo_stats ::
    "ipc_msg option \<Rightarrow> u32 \<Rightarrow> u64 \<Rightarrow> u32 \<Rightarrow> bool \<Rightarrow> (u64 \<times> u64) option" where
  "log_datafifo_stats msgp dropped_count last_seq frame_count force =
     (case msgp of
        None \<Rightarrow> None
      | Some msg \<Rightarrow>
          let seq_gap = (if last_seq \<noteq> 0 \<and> msg_seq msg > last_seq + 1 then msg_seq msg - last_seq - 1 else 0)
          in if \<not> force \<and> dropped_count = 0 \<and> seq_gap = 0 \<and> frame_count mod DATAFIFO_LOG_INTERVAL \<noteq> 0
             then None else Some (msg_seq msg, seq_gap))"

section \<open>One message\<close>

text \<open>The loop over the packs; the marker is set on the last one. The first result is \<open>send_failed\<close>.\<close>

fun sender_packs ::
    "world \<Rightarrow> sockaddr_in \<Rightarrow> u32 \<Rightarrow> u32 \<Rightarrow> bool \<Rightarrow> ipc_pack list \<Rightarrow> bool \<Rightarrow> player \<Rightarrow> bool \<times> player" where
  "sender_packs W dest timestamp ssrc can_send [] send_failed st = (send_failed, st)"
| "sender_packs W dest timestamp ssrc can_send (p # ps) send_failed st =
     (case datafifo_process_pack_for_playback W dest timestamp ssrc (Some p) (if ps = [] then 1 else 0) can_send st of
        (r, st1) \<Rightarrow> sender_packs W dest timestamp ssrc can_send ps (send_failed \<or> r \<noteq> 0) st1)"

text \<open>The call of \<open>datafifo_snapshot_process\<close>; the snapshot module and the live path share the mappings.\<close>

definition sender_snapshot :: "sender_env \<Rightarrow> ipc_msg \<Rightarrow> sender \<Rightarrow> int \<times> sender" where
  "sender_snapshot V msg s =
     (case datafifo_snapshot_process (w_alloc (ev_world V)) (w_mmap (ev_world V)) (ev_block V (sd_snapshots s))
             (Some msg) (sd_snapshot_ready s)
             \<lparr>ss_cache = sd_cache s, ss_t = pl_mallocs (sd_player s), ss_mem = pl_mem (sd_player s),
              ss_writer = ev_writer V (sd_snapshots s) (sd_writer s)\<rparr> of
        (ret, t) \<Rightarrow>
          (ret, s\<lparr>sd_cache := ss_cache t, sd_writer := ss_writer t, sd_snapshots := sd_snapshots s + 1,
                  sd_player := (sd_player s)\<lparr>pl_mallocs := ss_t t, pl_mem := ss_mem t\<rparr>\<rparr>))"

definition sender_message :: "sender_env \<Rightarrow> ipc_msg \<Rightarrow> sockaddr_in \<Rightarrow> bool \<Rightarrow> bool \<Rightarrow> sender \<Rightarrow> sender" where
  "sender_message V msg dest can_send need_parameter_sets s =
     (let stale_frame = (sd_last_read_seq s \<noteq> 0 \<and> msg_seq msg \<le> sd_last_read_seq s) in
      if stale_frame then s
      else
        let s1 = s\<lparr>sd_last_read_seq := msg_seq msg\<rparr>;
            (snapshot_ret, s2) =
              (if msg_reserved msg AND MPP_NALU_IPC_FLAG_SNAPSHOT \<noteq> 0 then sender_snapshot V msg s1 else (0, s1));
            (send_start_ms, s3) = (if can_send then clock_ms V s2 else (0, s2));
            (send_failed, st) = sender_packs (ev_world V) dest (sd_timestamp s3) SENDER_SSRC can_send
              (take (unat (msg_pack_cnt msg)) (msg_packs msg)) False (sd_player s3);
            s4 = s3\<lparr>sd_player := st\<rparr>;
            (send_cost_ms, s5) =
              (if can_send then
                 (case clock_ms V s4 of
                    (now, s') \<Rightarrow> (now - send_start_ms,
                      s'\<lparr>sd_timestamp := sd_timestamp s' + RTP_TS_STEP, sd_last_sent_seq := msg_seq msg\<rparr>))
               else (0, s4));
            frame_count = sd_frame_count s5 + 1
        in s5\<lparr>sd_frame_count := frame_count,
              sd_stats := sd_stats s5 @
                (case log_datafifo_stats (Some msg) 0 (sd_last_sent_seq s5) frame_count
                        (need_parameter_sets \<or> send_cost_ms > of_nat (1000 div VIDEO_FPS) \<or> send_failed \<or>
                         snapshot_ret \<noteq> 0) of
                   None \<Rightarrow> [] | Some l \<Rightarrow> [l])\<rparr>)"

section \<open>The loop\<close>

definition datafifo_sender_step :: "sender_env \<Rightarrow> sender \<Rightarrow> sender" where
  "datafifo_sender_step V s =
     (case nalu_datafifo_read (ev_kd V) (Some (sd_reader s)) (sd_fifo s) of
        (None, f) \<Rightarrow>
          let s1 = s\<lparr>sd_fifo := f, sd_idle_loops := sd_idle_loops s + 1\<rparr>; (now, s2) = clock_ms V s1
          in s2\<lparr>sd_last_idle_log_ms := snd (datafifo_log_reader_idle now (sd_last_item_seq s2)
                  (sd_last_item_ms s2) (sd_idle_loops s2) (sd_last_idle_log_ms s2))\<rparr>
      | (Some (msg, item), f) \<Rightarrow>
          let s1 = s\<lparr>sd_fifo := f, sd_idle_loops := 0, sd_last_item_seq := msg_seq msg\<rparr>;
              (now, s2) = clock_ms V s1;
              s3 = s2\<lparr>sd_last_item_ms := now\<rparr>;
              ((playing, dest, dest_valid, need_parameter_sets), sh) =
                get_rtsp_target (w_rtsp (ev_world V)) (pl_shared (sd_player s3));
              s4 = s3\<lparr>sd_player := (sd_player s3)\<lparr>pl_shared := sh\<rparr>\<rparr>;
              can_send = (playing \<and> dest_valid);
              s5 = (if nalu_datafifo_validate_msg (Some msg) = 0
                    then sender_message V msg dest can_send need_parameter_sets s4 else s4);
              (_, f') = nalu_datafifo_read_done (ev_kd V) (Some (sd_reader s5)) (Some item) (sd_fifo s5)
          in s5\<lparr>sd_fifo := f'\<rparr>)"

fun datafifo_sender_run :: "sender_env \<Rightarrow> nat \<Rightarrow> sender \<Rightarrow> sender" where
  "datafifo_sender_run V 0 s = s"
| "datafifo_sender_run V (Suc n) s = datafifo_sender_run V n (datafifo_sender_step V s)"

text \<open>
  The start of the thread: \<open>None\<close> when the FIFO cannot be opened. The loop never ends; what it
  does in \<open>n\<close> iterations is \<open>datafifo_rtp_sender_loop V n\<close>.
\<close>

definition datafifo_rtp_sender_loop :: "sender_env \<Rightarrow> nat \<Rightarrow> u64 \<Rightarrow> sender \<Rightarrow> sender option" where
  "datafifo_rtp_sender_loop V n fifo_phy_addr s =
     (case clock_ms V (s\<lparr>sd_timestamp := SENDER_TIMESTAMP, sd_last_sent_seq := 0, sd_last_read_seq := 0,
              sd_last_item_seq := 0, sd_frame_count := 0, sd_idle_loops := 0,
              sd_player := (sd_player s)\<lparr>pl_seq := 0, pl_wait_for_idr := False\<rparr>\<rparr>) of
        (now, s1) \<Rightarrow>
          (case nalu_datafifo_open (ev_kd V) (Some (sd_reader s1)) fifo_phy_addr (sd_fifo s1) of
             (ret, rd, f) \<Rightarrow>
               if ret \<noteq> 0 then None
               else Some (datafifo_sender_run V n
                      (s1\<lparr>sd_last_item_ms := now, sd_reader := the rd, sd_fifo := f\<rparr>))))"

section \<open>Frame facts\<close>

lemma clock_ms_frame:
  assumes "clock_ms V s = (now, s')"
  shows "sd_reader s' = sd_reader s \<and> sd_player s' = sd_player s \<and> sd_cache s' = sd_cache s \<and>
    sd_writer s' = sd_writer s \<and> sd_last_read_seq s' = sd_last_read_seq s \<and>
    sd_timestamp s' = sd_timestamp s \<and> sd_last_sent_seq s' = sd_last_sent_seq s \<and>
    sd_stats s' = sd_stats s \<and> sd_snapshots s' = sd_snapshots s \<and> sd_frame_count s' = sd_frame_count s \<and>
    sd_snapshot_ready s' = sd_snapshot_ready s \<and>
    ff_events (sd_fifo s') = ff_events (sd_fifo s) \<and> ff_calls (sd_fifo s') = ff_calls (sd_fifo s)"
  using assms by (auto simp: clock_ms_def split: prod.splits)

lemma snapshot_frame:
  assumes "sender_snapshot V msg s = (ret, s')"
  shows "sd_reader s' = sd_reader s \<and> sd_fifo s' = sd_fifo s \<and> sd_last_read_seq s' = sd_last_read_seq s \<and>
    sd_timestamp s' = sd_timestamp s \<and> sd_last_sent_seq s' = sd_last_sent_seq s \<and> sd_stats s' = sd_stats s \<and>
    sd_frame_count s' = sd_frame_count s \<and>
    pl_udp (sd_player s') = pl_udp (sd_player s) \<and> pl_shared (sd_player s') = pl_shared (sd_player s) \<and>
    pl_seq (sd_player s') = pl_seq (sd_player s) \<and> pl_cache (sd_player s') = pl_cache (sd_player s) \<and>
    pl_wait_for_idr (sd_player s') = pl_wait_for_idr (sd_player s)"
  using assms by (auto simp: sender_snapshot_def split: prod.splits)

text \<open>
  What a fresh, valid message does, as a sequence of the steps of its branch.
\<close>

lemma message_fresh:
  assumes "\<not> (sd_last_read_seq s \<noteq> 0 \<and> msg_seq msg \<le> sd_last_read_seq s)"
  obtains ret s2 ms s3 failed st where
    "(if msg_reserved msg AND MPP_NALU_IPC_FLAG_SNAPSHOT \<noteq> 0
      then sender_snapshot V msg (s\<lparr>sd_last_read_seq := msg_seq msg\<rparr>)
      else (0, s\<lparr>sd_last_read_seq := msg_seq msg\<rparr>)) = (ret, s2)"
    and "(if c then clock_ms V s2 else (0, s2)) = (ms, s3)"
    and "sender_packs (ev_world V) dest (sd_timestamp s3) SENDER_SSRC c (live_packs msg) False (sd_player s3) = (failed, st)"
    and "sd_player (sender_message V msg dest c need s) = st"
    and "sd_cache (sender_message V msg dest c need s) = sd_cache s3"
    and "sd_writer (sender_message V msg dest c need s) = sd_writer s3"
    and "sd_reader (sender_message V msg dest c need s) = sd_reader s3"
    and "ff_events (sd_fifo (sender_message V msg dest c need s)) = ff_events (sd_fifo s3)"
    and "sd_last_read_seq (sender_message V msg dest c need s) = msg_seq msg"
    and "sd_timestamp (sender_message V msg dest c need s) = sd_timestamp s + (if c then RTP_TS_STEP else 0)"
    and "sd_last_sent_seq (sender_message V msg dest c need s) = (if c then msg_seq msg else sd_last_sent_seq s)"
    and "\<exists>force. sd_stats (sender_message V msg dest c need s) = sd_stats s @
       (case log_datafifo_stats (Some msg) 0 (if c then msg_seq msg else sd_last_sent_seq s)
          (sd_frame_count s + 1) force of None \<Rightarrow> [] | Some l \<Rightarrow> [l])"
proof -
  obtain ret s2 where a: "(if msg_reserved msg AND MPP_NALU_IPC_FLAG_SNAPSHOT \<noteq> 0
      then sender_snapshot V msg (s\<lparr>sd_last_read_seq := msg_seq msg\<rparr>)
      else (0, s\<lparr>sd_last_read_seq := msg_seq msg\<rparr>)) = (ret, s2)" by fastforce
  obtain ms s3 where b: "(if c then clock_ms V s2 else (0, s2)) = (ms, s3)" by fastforce
  obtain failed st where d: "sender_packs (ev_world V) dest (sd_timestamp s3) SENDER_SSRC c (live_packs msg) False
      (sd_player s3) = (failed, st)" by fastforce
  define s4 where "s4 = s3\<lparr>sd_player := st\<rparr>"
  obtain now s5 where e: "clock_ms V s4 = (now, s5)" by fastforce
  have f2: "sd_last_read_seq s2 = msg_seq msg" "sd_timestamp s2 = sd_timestamp s" "sd_stats s2 = sd_stats s"
    "sd_last_sent_seq s2 = sd_last_sent_seq s" "sd_frame_count s2 = sd_frame_count s"
    using a snapshot_frame [of V msg "s\<lparr>sd_last_read_seq := msg_seq msg\<rparr>" ret s2] by (auto split: if_splits)
  have f3: "sd_last_read_seq s3 = msg_seq msg" "sd_timestamp s3 = sd_timestamp s" "sd_stats s3 = sd_stats s"
    "sd_last_sent_seq s3 = sd_last_sent_seq s" "sd_frame_count s3 = sd_frame_count s"
    using b clock_ms_frame [of V s2 ms s3] f2 by (auto split: if_splits)
  note f5 = clock_ms_frame [OF e]
  define s6 where "s6 = (if c then s5\<lparr>sd_timestamp := sd_timestamp s5 + RTP_TS_STEP, sd_last_sent_seq := msg_seq msg\<rparr> else s4)"
  have "\<exists>force. sender_message V msg dest c need s =
      s6\<lparr>sd_frame_count := sd_frame_count s6 + 1,
         sd_stats := sd_stats s6 @ (case log_datafifo_stats (Some msg) 0 (sd_last_sent_seq s6) (sd_frame_count s6 + 1)
           force of None \<Rightarrow> [] | Some l \<Rightarrow> [l])\<rparr>"
    using assms
    unfolding sender_message_def Let_def a prod.case b live_packs_def [symmetric] d s4_def [symmetric] e s6_def
    by (cases c) (simp only: if_True if_False prod.case, blast)+
  then obtain force where m: "sender_message V msg dest c need s =
      s6\<lparr>sd_frame_count := sd_frame_count s6 + 1,
         sd_stats := sd_stats s6 @ (case log_datafifo_stats (Some msg) 0 (sd_last_sent_seq s6) (sd_frame_count s6 + 1)
           force of None \<Rightarrow> [] | Some l \<Rightarrow> [l])\<rparr>" by blast
  have s4: "sd_player s4 = st" "sd_cache s4 = sd_cache s3" "sd_writer s4 = sd_writer s3" "sd_reader s4 = sd_reader s3"
    "sd_fifo s4 = sd_fifo s3" "sd_last_read_seq s4 = msg_seq msg" "sd_timestamp s4 = sd_timestamp s"
    "sd_stats s4 = sd_stats s" "sd_last_sent_seq s4 = sd_last_sent_seq s" "sd_frame_count s4 = sd_frame_count s"
    using f3 by (simp_all add: s4_def)
  have s6: "sd_player s6 = st" "sd_cache s6 = sd_cache s3" "sd_writer s6 = sd_writer s3" "sd_reader s6 = sd_reader s3"
    "ff_events (sd_fifo s6) = ff_events (sd_fifo s3)" "sd_last_read_seq s6 = msg_seq msg"
    "sd_timestamp s6 = sd_timestamp s + (if c then RTP_TS_STEP else 0)" "sd_stats s6 = sd_stats s"
    "sd_last_sent_seq s6 = (if c then msg_seq msg else sd_last_sent_seq s)" "sd_frame_count s6 = sd_frame_count s"
    using s4 f5 by (simp_all add: s6_def)
  show thesis
    by (rule that [OF a b d]) (unfold m, simp_all add: s6, blast)
qed


section \<open>Every item is released\<close>

lemma message_frame:
  "sd_reader (sender_message V msg dest c need s) = sd_reader s \<and>
   ff_events (sd_fifo (sender_message V msg dest c need s)) = ff_events (sd_fifo s)"
proof (cases "sd_last_read_seq s \<noteq> 0 \<and> msg_seq msg \<le> sd_last_read_seq s")
  case True
  then show ?thesis by (simp add: sender_message_def)
next
  case False
  then show ?thesis
  proof (rule message_fresh [where V = V and c = c and dest = dest and need = need])
    fix ret s2 ms s3
    assume a: "(if msg_reserved msg AND MPP_NALU_IPC_FLAG_SNAPSHOT \<noteq> 0
        then sender_snapshot V msg (s\<lparr>sd_last_read_seq := msg_seq msg\<rparr>)
        else (0, s\<lparr>sd_last_read_seq := msg_seq msg\<rparr>)) = (ret, s2)"
      and b: "(if c then clock_ms V s2 else (0, s2)) = (ms, s3)"
      and m: "sd_reader (sender_message V msg dest c need s) = sd_reader s3"
        "ff_events (sd_fifo (sender_message V msg dest c need s)) = ff_events (sd_fifo s3)"
    have "sd_reader s2 = sd_reader s \<and> sd_fifo s2 = sd_fifo s"
      using a snapshot_frame [of V msg "s\<lparr>sd_last_read_seq := msg_seq msg\<rparr>" ret s2] by (auto split: if_splits)
    moreover have "sd_reader s3 = sd_reader s2 \<and> ff_events (sd_fifo s3) = ff_events (sd_fifo s2)"
      using b clock_ms_frame [of V s2 ms s3] by (auto split: if_splits)
    ultimately show ?thesis using m by simp
  qed
qed

text \<open>The two kinds of an iteration.\<close>

lemma step_cases:
  obtains (idle) f now s2 where
      "nalu_datafifo_read (ev_kd V) (Some (sd_reader s)) (sd_fifo s) = (None, f)"
      and "ff_events (sd_fifo (datafifo_sender_step V s)) = ff_events f"
      and "sd_reader (datafifo_sender_step V s) = sd_reader s" and "sd_player (datafifo_sender_step V s) = sd_player s"
      and "sd_cache (datafifo_sender_step V s) = sd_cache s" and "sd_writer (datafifo_sender_step V s) = sd_writer s"
      and "sd_last_read_seq (datafifo_sender_step V s) = sd_last_read_seq s"
      and "sd_timestamp (datafifo_sender_step V s) = sd_timestamp s"
      and "sd_stats (datafifo_sender_step V s) = sd_stats s"
  | (item) msg it f playing dest valid need sh s4 s5 r f' where
      "nalu_datafifo_read (ev_kd V) (Some (sd_reader s)) (sd_fifo s) = (Some (msg, it), f)"
      and "get_rtsp_target (w_rtsp (ev_world V)) (pl_shared (sd_player s)) = ((playing, dest, valid, need), sh)"
      and "sd_reader s4 = sd_reader s" and "sd_player s4 = (sd_player s)\<lparr>pl_shared := sh\<rparr>"
      and "sd_cache s4 = sd_cache s" and "sd_writer s4 = sd_writer s"
      and "sd_last_read_seq s4 = sd_last_read_seq s" and "sd_timestamp s4 = sd_timestamp s"
      and "sd_stats s4 = sd_stats s" and "sd_last_sent_seq s4 = sd_last_sent_seq s" and "sd_snapshots s4 = sd_snapshots s"
      and "ff_events (sd_fifo s4) = ff_events f"
      and "s5 = (if nalu_datafifo_validate_msg (Some msg) = 0
             then sender_message V msg dest (playing \<and> valid) need s4 else s4)"
      and "nalu_datafifo_read_done (ev_kd V) (Some (sd_reader s5)) (Some it) (sd_fifo s5) = (r, f')"
      and "datafifo_sender_step V s = s5\<lparr>sd_fifo := f'\<rparr>"
proof (cases "nalu_datafifo_read (ev_kd V) (Some (sd_reader s)) (sd_fifo s)")
  case (Pair x f)
  show thesis
  proof (cases x)
    case None
    obtain now s2 where c: "clock_ms V (s\<lparr>sd_fifo := f, sd_idle_loops := sd_idle_loops s + 1\<rparr>) = (now, s2)" by fastforce
    note fr = clock_ms_frame [OF c]
    show thesis
      by (rule idle [OF Pair [unfolded None]])
        (use fr in \<open>simp_all add: datafifo_sender_step_def Pair None c Let_def\<close>)
  next
    case (Some y)
    obtain msg it where y: "y = (msg, it)" by fastforce
    obtain now s2 where c: "clock_ms V (s\<lparr>sd_fifo := f, sd_idle_loops := 0, sd_last_item_seq := msg_seq msg\<rparr>) = (now, s2)"
      by fastforce
    note fr = clock_ms_frame [OF c]
    obtain playing dest valid need sh where g: "get_rtsp_target (w_rtsp (ev_world V)) (pl_shared (sd_player s)) =
        ((playing, dest, valid, need), sh)" by (metis prod_cases5 prod.collapse)
    define s4 where "s4 = s2\<lparr>sd_last_item_ms := now, sd_player := (sd_player s2)\<lparr>pl_shared := sh\<rparr>\<rparr>"
    define s5 where "s5 = (if nalu_datafifo_validate_msg (Some msg) = 0
        then sender_message V msg dest (playing \<and> valid) need s4 else s4)"
    obtain r f' where d: "nalu_datafifo_read_done (ev_kd V) (Some (sd_reader s5)) (Some it) (sd_fifo s5) = (r, f')"
      by fastforce
    have g': "get_rtsp_target (w_rtsp (ev_world V)) (pl_shared (sd_player (s2\<lparr>sd_last_item_ms := now\<rparr>))) =
        ((playing, dest, valid, need), sh)" using g fr by simp
    have s4': "s2\<lparr>sd_last_item_ms := now, sd_player := (sd_player (s2\<lparr>sd_last_item_ms := now\<rparr>))\<lparr>pl_shared := sh\<rparr>\<rparr> = s4"
      by (simp add: s4_def)
    have st: "datafifo_sender_step V s = s5\<lparr>sd_fifo := f'\<rparr>"
      unfolding datafifo_sender_step_def Pair Some y option.case prod.case Let_def c g' s4' s5_def [symmetric] d ..
    show thesis
      by (rule item [OF Pair [unfolded Some y] g _ _ _ _ _ _ _ _ _ _ s5_def d st]) (use fr in \<open>simp_all add: s4_def\<close>)
  qed
qed

lemma step_events:
  assumes "rd_opened (sd_reader s)"
  shows "sd_reader (datafifo_sender_step V s) = sd_reader s \<and>
    (\<exists>es. ff_events (sd_fifo (datafifo_sender_step V s)) = ff_events (sd_fifo s) @ es \<and>
       (es = [] \<or> (\<exists>a. es = [Took a, Released a])))"
proof (rule step_cases [of V s])
  fix f
  assume "nalu_datafifo_read (ev_kd V) (Some (sd_reader s)) (sd_fifo s) = (None, f)"
    and "ff_events (sd_fifo (datafifo_sender_step V s)) = ff_events f"
    and "sd_reader (datafifo_sender_step V s) = sd_reader s"
  with read_cases [OF this(1)] show ?thesis by simp
next
  fix msg it f playing dest valid need s4 s5 r f'
  assume rd: "nalu_datafifo_read (ev_kd V) (Some (sd_reader s)) (sd_fifo s) = (Some (msg, it), f)"
    and s4: "sd_reader s4 = sd_reader s" "ff_events (sd_fifo s4) = ff_events f"
    and s5: "s5 = (if nalu_datafifo_validate_msg (Some msg) = 0
             then sender_message V msg dest (playing \<and> valid) need s4 else s4)"
    and d: "nalu_datafifo_read_done (ev_kd V) (Some (sd_reader s5)) (Some it) (sd_fifo s5) = (r, f')"
    and st: "datafifo_sender_step V s = s5\<lparr>sd_fifo := f'\<rparr>"
  have "sd_reader s5 = sd_reader s" "ff_events (sd_fifo s5) = ff_events f"
    using s4 message_frame [of V msg dest "playing \<and> valid" need s4] by (auto simp: s5)
  moreover from this have "ff_events f' = ff_events f @ [Released (it_addr it)]"
    using d assms by (auto simp: nalu_datafifo_read_done_def Let_def split: if_splits)
  ultimately show ?thesis using read_cases [OF rd] st by auto
qed

lemma run_events:
  "rd_opened (sd_reader s) \<Longrightarrow>
   \<exists>as. ff_events (sd_fifo (datafifo_sender_run V n s)) =
     ff_events (sd_fifo s) @ concat (map (\<lambda>a. [Took a, Released a]) as) \<and> length as \<le> n"
proof (induction n arbitrary: s)
  case (Suc n)
  let ?s = "datafifo_sender_step V s"
  from step_events [OF Suc.prems, of V] obtain es where rd: "sd_reader ?s = sd_reader s"
    and es: "ff_events (sd_fifo ?s) = ff_events (sd_fifo s) @ es" "es = [] \<or> (\<exists>a. es = [Took a, Released a])" by blast
  from Suc.IH [of ?s] rd Suc.prems obtain as where as: "ff_events (sd_fifo (datafifo_sender_run V n ?s)) =
     ff_events (sd_fifo ?s) @ concat (map (\<lambda>a. [Took a, Released a]) as)" "length as \<le> n" by auto
  from es(2) show ?case
  proof
    assume "es = []"
    with as es show ?thesis by (auto intro!: exI [of _ as])
  next
    assume "\<exists>a. es = [Took a, Released a]"
    then obtain a where "es = [Took a, Released a]" ..
    with as es show ?thesis by (auto intro!: exI [of _ "a # as"])
  qed
qed simp

section \<open>Sequence numbers\<close>

lemma step_seq:
  "sd_last_read_seq s < sd_last_read_seq (datafifo_sender_step V s) \<or>
   sd_last_read_seq (datafifo_sender_step V s) = sd_last_read_seq s \<and>
   (sd_last_read_seq s = 0 \<or>
      pl_udp (sd_player (datafifo_sender_step V s)) = pl_udp (sd_player s) \<and>
      pl_cache (sd_player (datafifo_sender_step V s)) = pl_cache (sd_player s) \<and>
      sd_cache (datafifo_sender_step V s) = sd_cache s \<and> sd_writer (datafifo_sender_step V s) = sd_writer s \<and>
      sd_timestamp (datafifo_sender_step V s) = sd_timestamp s)"
proof (rule step_cases [of V s])
  fix msg it f playing dest valid need sh s4 s5 r f'
  assume s4: "sd_player s4 = (sd_player s)\<lparr>pl_shared := sh\<rparr>"
      "sd_cache s4 = sd_cache s" "sd_writer s4 = sd_writer s"
      "sd_last_read_seq s4 = sd_last_read_seq s" "sd_timestamp s4 = sd_timestamp s"
    and s5: "s5 = (if nalu_datafifo_validate_msg (Some msg) = 0
             then sender_message V msg dest (playing \<and> valid) need s4 else s4)"
    and st: "datafifo_sender_step V s = s5\<lparr>sd_fifo := f'\<rparr>"
  show ?thesis
  proof (cases "nalu_datafifo_validate_msg (Some msg) = 0 \<and>
      \<not> (sd_last_read_seq s4 \<noteq> 0 \<and> msg_seq msg \<le> sd_last_read_seq s4)")
    case True
    then have "sd_last_read_seq s5 = msg_seq msg"
      using message_fresh [of s4 msg V "playing \<and> valid" dest need] s5 by (metis (no_types, lifting))
    moreover have "sd_last_read_seq s4 = 0 \<or> sd_last_read_seq s4 < msg_seq msg" using True by auto
    ultimately show ?thesis
      using st s4(4) by (cases "msg_seq msg = 0") (auto simp: word_gt_0)
  next
    case False
    then have "s5 = s4" using s5 by (auto simp: sender_message_def)
    with st s4 show ?thesis by simp
  qed
qed simp

text \<open>The sequence numbers that the sender moves on to in \<open>n\<close> iterations.\<close>

fun accepted_seqs :: "sender_env \<Rightarrow> nat \<Rightarrow> sender \<Rightarrow> u64 list" where
  "accepted_seqs V 0 s = []"
| "accepted_seqs V (Suc n) s =
     (let s' = datafifo_sender_step V s
      in (if sd_last_read_seq s' \<noteq> sd_last_read_seq s then [sd_last_read_seq s'] else []) @ accepted_seqs V n s')"

lemma accepted_increasing:
  "sorted_wrt (<) (sd_last_read_seq s # accepted_seqs V n s)"
proof (induction n arbitrary: s)
  case (Suc n)
  from Suc.IH [of "datafifo_sender_step V s"] step_seq [of s V] show ?case
    by (auto simp: Let_def)
qed simp


section \<open>Memory mappings\<close>

lemma sender_packs_maps:
  assumes "page_size_ok (w_mmap W)" and "munmap_accepts (w_mmap W)"
  shows "maps_fresh (w_mmap W) (pl_mem st) \<Longrightarrow>
    mm_maps (pl_mem (snd (sender_packs W dest ts ssrc c ps failed st))) = mm_maps (pl_mem st)"
proof (induction ps arbitrary: failed st)
  case (Cons p ps)
  obtain r st1 where f: "datafifo_process_pack_for_playback W dest ts ssrc (Some p) (if ps = [] then 1 else 0) c st = (r, st1)"
    by fastforce
  from process_pack_maps [OF assms(1) Cons.prems assms(2) f] have m: "mm_maps (pl_mem st1) = mm_maps (pl_mem st)" .
  then have "maps_fresh (w_mmap W) (pl_mem st1)" by (rule maps_fresh_cong [OF _ Cons.prems])
  from Cons.IH [OF this] f m show ?case by simp
qed simp

text \<open>The call of the snapshot module keeps its own bounds and the mappings.\<close>

lemma sender_snapshot_safe:
  assumes "page_size_ok (w_mmap (ev_world V))" and "munmap_accepts (w_mmap (ev_world V))"
    and "maps_fresh (w_mmap (ev_world V)) (pl_mem (sd_player s))" and "snapshot_cache_ok (sd_cache s)"
    and "sender_snapshot V msg s = (ret, s')"
  shows "snapshot_cache_ok (sd_cache s') \<and> mm_maps (pl_mem (sd_player s')) = mm_maps (pl_mem (sd_player s))"
proof -
  let ?st = "\<lparr>ss_cache = sd_cache s, ss_t = pl_mallocs (sd_player s), ss_mem = pl_mem (sd_player s),
              ss_writer = ev_writer V (sd_snapshots s) (sd_writer s)\<rparr>"
  obtain r t where p: "datafifo_snapshot_process (w_alloc (ev_world V)) (w_mmap (ev_world V)) (ev_block V (sd_snapshots s))
      (Some msg) (sd_snapshot_ready s) ?st = (r, t)" by fastforce
  from process_bounds [OF assms(1,2) _ _ p] assms(3,4) have
    "snapshot_cache_ok (ss_cache t) \<and> mm_maps (ss_mem t) = mm_maps (pl_mem (sd_player s))" by simp
  with p assms(5) show ?thesis by (auto simp: sender_snapshot_def)
qed

lemma message_safe:
  assumes E: "page_size_ok (w_mmap (ev_world V))" "munmap_accepts (w_mmap (ev_world V))"
    and fresh: "maps_fresh (w_mmap (ev_world V)) (pl_mem (sd_player s))" and ok: "snapshot_cache_ok (sd_cache s)"
  shows "snapshot_cache_ok (sd_cache (sender_message V msg dest c need s)) \<and>
    mm_maps (pl_mem (sd_player (sender_message V msg dest c need s))) = mm_maps (pl_mem (sd_player s))"
proof (cases "sd_last_read_seq s \<noteq> 0 \<and> msg_seq msg \<le> sd_last_read_seq s")
  case True
  with ok show ?thesis by (simp add: sender_message_def)
next
  case False
  then show ?thesis
  proof (rule message_fresh [where V = V and c = c and dest = dest and need = need])
    fix ret s2 ms s3 failed st
    assume a: "(if msg_reserved msg AND MPP_NALU_IPC_FLAG_SNAPSHOT \<noteq> 0
        then sender_snapshot V msg (s\<lparr>sd_last_read_seq := msg_seq msg\<rparr>)
        else (0, s\<lparr>sd_last_read_seq := msg_seq msg\<rparr>)) = (ret, s2)"
      and b: "(if c then clock_ms V s2 else (0, s2)) = (ms, s3)"
      and d: "sender_packs (ev_world V) dest (sd_timestamp s3) SENDER_SSRC c (live_packs msg) False (sd_player s3) = (failed, st)"
      and m: "sd_player (sender_message V msg dest c need s) = st"
        "sd_cache (sender_message V msg dest c need s) = sd_cache s3"
    have s2: "snapshot_cache_ok (sd_cache s2) \<and> mm_maps (pl_mem (sd_player s2)) = mm_maps (pl_mem (sd_player s))"
      using a sender_snapshot_safe [OF E, of "s\<lparr>sd_last_read_seq := msg_seq msg\<rparr>" msg ret s2] fresh ok
      by (auto split: if_splits)
    have s3: "sd_cache s3 = sd_cache s2" "sd_player s3 = sd_player s2"
      using b clock_ms_frame [of V s2 ms s3] by (auto split: if_splits)
    have "maps_fresh (w_mmap (ev_world V)) (pl_mem (sd_player s3))"
      by (rule maps_fresh_cong [OF _ fresh]) (use s2 s3(2) in simp)
    from sender_packs_maps [OF E this, of dest "sd_timestamp s3" SENDER_SSRC c "live_packs msg" False] d m s2 s3
    show ?thesis by simp
  qed
qed

lemma step_safe:
  assumes E: "page_size_ok (w_mmap (ev_world V))" "munmap_accepts (w_mmap (ev_world V))"
    and fresh: "maps_fresh (w_mmap (ev_world V)) (pl_mem (sd_player s))" and ok: "snapshot_cache_ok (sd_cache s)"
  shows "snapshot_cache_ok (sd_cache (datafifo_sender_step V s)) \<and>
    mm_maps (pl_mem (sd_player (datafifo_sender_step V s))) = mm_maps (pl_mem (sd_player s))"
proof (rule step_cases [of V s])
  fix msg dest playing valid need sh s4 s5 f'
  assume s4: "sd_player s4 = (sd_player s)\<lparr>pl_shared := sh\<rparr>" "sd_cache s4 = sd_cache s"
    and s5: "s5 = (if nalu_datafifo_validate_msg (Some msg) = 0
             then sender_message V msg dest (playing \<and> valid) need s4 else s4)"
    and st: "datafifo_sender_step V s = s5\<lparr>sd_fifo := f'\<rparr>"
  have "maps_fresh (w_mmap (ev_world V)) (pl_mem (sd_player s4))" "snapshot_cache_ok (sd_cache s4)"
    using fresh ok s4 by simp_all
  from message_safe [OF E this, of msg dest "playing \<and> valid" need] s4 s5 st ok show ?thesis by simp
qed (use ok in simp)

lemma run_safe:
  assumes E: "page_size_ok (w_mmap (ev_world V))" "munmap_accepts (w_mmap (ev_world V))"
  shows "maps_fresh (w_mmap (ev_world V)) (pl_mem (sd_player s)) \<Longrightarrow> snapshot_cache_ok (sd_cache s) \<Longrightarrow>
    snapshot_cache_ok (sd_cache (datafifo_sender_run V n s)) \<and>
    mm_maps (pl_mem (sd_player (datafifo_sender_run V n s))) = mm_maps (pl_mem (sd_player s))"
proof (induction n arbitrary: s)
  case (Suc n)
  from step_safe [OF E Suc.prems] have
    one: "snapshot_cache_ok (sd_cache (datafifo_sender_step V s))"
      "mm_maps (pl_mem (sd_player (datafifo_sender_step V s))) = mm_maps (pl_mem (sd_player s))" by auto
  then have "maps_fresh (w_mmap (ev_world V)) (pl_mem (sd_player (datafifo_sender_step V s)))"
    by (intro maps_fresh_cong [OF _ Suc.prems(1)])
  from Suc.IH [OF this one(1)] one(2) show ?case by simp
qed simp

section \<open>The stream that a run transmits\<close>

text \<open>A memory device that never refuses a request.\<close>

definition device_ok :: "mmap_env \<Rightarrow> bool" where
  "device_ok E \<longleftrightarrow> page_size_ok E \<and> munmap_accepts E \<and> (\<forall>t sz off. me_mmap E t sz off \<noteq> None) \<and>
     (\<forall>t. 0 \<le> me_open E t)"

lemma device_ok_accepts: "device_ok E \<Longrightarrow> mmap_accepts E s"
  by (simp add: device_ok_def mmap_accepts_def)

text \<open>The NALUs of a message, with the marker on the last pack only.\<close>

fun pack_inputs :: "world \<Rightarrow> bool \<Rightarrow> sockaddr_in \<Rightarrow> u32 \<Rightarrow> ipc_pack list \<Rightarrow> play_input list" where
  "pack_inputs W c dest ts [] = []"
| "pack_inputs W c dest ts (p # ps) =
     buffer_inputs c dest ts (Some (phys_bytes (w_mmap W) p)) (if ps = [] then 1 else 0) @ pack_inputs W c dest ts ps"

lemma sender_packs_calm:
  assumes "calm W" and "device_ok (w_mmap W)"
  shows "cache_inv (pl_cache st) \<Longrightarrow> maps_fresh (w_mmap W) (pl_mem st) \<Longrightarrow> list_all pack_ok ps \<Longrightarrow>
    \<exists>st'. sender_packs W dest ts ssrc c ps failed st = (failed, st') \<and>
      transmits ssrc st (fst (gate_run (pack_inputs W c dest ts ps) (gate_of st)))
        (snd (gate_run (pack_inputs W c dest ts ps) (gate_of st))) st'"
proof (induction ps arbitrary: st)
  case Nil
  then show ?case by (simp add: transmits_nothing)
next
  case (Cons p ps)
  have E: "page_size_ok (w_mmap W)" "munmap_accepts (w_mmap W)" using assms(2) by (auto simp: device_ok_def)
  have p: "pk_phys_addr p \<noteq> 0" "pk_len p \<noteq> 0" using Cons.prems(3) by (auto simp: pack_ok_def)
  let ?m = "if ps = [] then 1 else 0 :: u8"
  let ?xs = "buffer_inputs c dest ts (Some (phys_bytes (w_mmap W) p)) ?m"
  obtain st1 where f: "datafifo_process_pack_for_playback W dest ts ssrc (Some p) ?m c st = (0, st1)"
    and t: "transmits ssrc st (fst (gate_run ?xs (gate_of st))) (snd (gate_run ?xs (gate_of st))) st1"
    using process_pack_calm [OF assms(1) Cons.prems(1) E(1) Cons.prems(2) E(2) device_ok_accepts [OF assms(2)] p] by blast
  have "maps_fresh (w_mmap W) (pl_mem st1)"
    by (rule maps_fresh_cong [OF process_pack_maps [OF E(1) Cons.prems(2) E(2) f] Cons.prems(2)])
  from Cons.IH [OF transmits_inv [OF t Cons.prems(1)] this] Cons.prems(3) obtain st' where
    "sender_packs W dest ts ssrc c ps failed st1 = (failed, st')"
    "transmits ssrc st1 (fst (gate_run (pack_inputs W c dest ts ps) (gate_of st1)))
      (snd (gate_run (pack_inputs W c dest ts ps) (gate_of st1))) st'" by auto
  with f transmits_run [OF t this(2)] show ?case by simp
qed

text \<open>What the sender transmits in a calm world: \<open>reaches s outs s'\<close>.\<close>

definition reaches :: "sender \<Rightarrow> play_input list \<Rightarrow> sender \<Rightarrow> bool" where
  "reaches s xs s' \<longleftrightarrow>
     transmits SENDER_SSRC (sd_player s) (fst (gate_run xs (gate_of (sd_player s))))
       (snd (gate_run xs (gate_of (sd_player s)))) (sd_player s')"

text \<open>Changes of a player that the gate does not see.\<close>

lemma transmits_cong:
  "transmits ssrc st outs g st' \<Longrightarrow> pl_udp st1 = pl_udp st \<Longrightarrow> pl_seq st1 = pl_seq st \<Longrightarrow> transmits ssrc st1 outs g st'"
  by (simp add: transmits_def)

lemma message_calm:
  assumes W: "calm (ev_world V)" and E: "device_ok (w_mmap (ev_world V))"
    and inv: "cache_inv (pl_cache (sd_player s))" "maps_fresh (w_mmap (ev_world V)) (pl_mem (sd_player s))"
      "snapshot_cache_ok (sd_cache s)"
    and v: "nalu_datafifo_validate_msg (Some msg) = 0"
    and fresh: "\<not> (sd_last_read_seq s \<noteq> 0 \<and> msg_seq msg \<le> sd_last_read_seq s)"
  shows "reaches s (pack_inputs (ev_world V) c dest (sd_timestamp s) (live_packs msg)) (sender_message V msg dest c need s)"
  using fresh
proof (rule message_fresh [where V = V and c = c and dest = dest and need = need])
  fix ret s2 ms s3 failed st
  assume a: "(if msg_reserved msg AND MPP_NALU_IPC_FLAG_SNAPSHOT \<noteq> 0
        then sender_snapshot V msg (s\<lparr>sd_last_read_seq := msg_seq msg\<rparr>)
        else (0, s\<lparr>sd_last_read_seq := msg_seq msg\<rparr>)) = (ret, s2)"
    and b: "(if c then clock_ms V s2 else (0, s2)) = (ms, s3)"
    and d: "sender_packs (ev_world V) dest (sd_timestamp s3) SENDER_SSRC c (live_packs msg) False (sd_player s3) = (failed, st)"
    and m: "sd_player (sender_message V msg dest c need s) = st"
  have PE: "page_size_ok (w_mmap (ev_world V))" "munmap_accepts (w_mmap (ev_world V))"
    using E by (auto simp: device_ok_def)
  let ?p = "sd_player s" and ?p2 = "sd_player s2"
  have s2: "pl_udp ?p2 = pl_udp ?p \<and> pl_seq ?p2 = pl_seq ?p \<and> pl_cache ?p2 = pl_cache ?p \<and>
      pl_shared ?p2 = pl_shared ?p \<and> pl_wait_for_idr ?p2 = pl_wait_for_idr ?p \<and> sd_timestamp s2 = sd_timestamp s"
    using a snapshot_frame [of V msg "s\<lparr>sd_last_read_seq := msg_seq msg\<rparr>" ret s2] by (auto split: if_splits)
  have maps: "mm_maps (pl_mem ?p2) = mm_maps (pl_mem ?p)"
    using a sender_snapshot_safe [OF PE, of "s\<lparr>sd_last_read_seq := msg_seq msg\<rparr>" msg ret s2] inv(2,3)
    by (auto split: if_splits)
  have s3: "sd_player s3 = ?p2" "sd_timestamp s3 = sd_timestamp s"
    using b clock_ms_frame [of V s2 ms s3] s2 by (auto split: if_splits)
  have "list_all pack_ok (live_packs msg)" using v [unfolded msg_valid_iff] by (simp add: msg_ok_def)
  moreover have "maps_fresh (w_mmap (ev_world V)) (pl_mem ?p2)" by (rule maps_fresh_cong [OF maps inv(2)])
  ultimately obtain st' where
    "sender_packs (ev_world V) dest (sd_timestamp s) SENDER_SSRC c (live_packs msg) False ?p2 = (False, st')"
    and t: "transmits SENDER_SSRC ?p2 (fst (gate_run (pack_inputs (ev_world V) c dest (sd_timestamp s) (live_packs msg)) (gate_of ?p2)))
      (snd (gate_run (pack_inputs (ev_world V) c dest (sd_timestamp s) (live_packs msg)) (gate_of ?p2))) st'"
    using sender_packs_calm [OF W E, of ?p2] inv(1) s2 by metis
  with d s3 have "st' = st" by simp
  moreover have "gate_of ?p2 = gate_of ?p" using s2 by (simp add: gate_of_def)
  ultimately show ?thesis using t m s2 transmits_cong [of SENDER_SSRC ?p2] by (simp add: reaches_def)
qed

text \<open>When the RTSP thread is quiet, what the sender reads under the mutex is the session.\<close>

lemma get_rtsp_target_quiet:
  assumes "quiet R" and "get_rtsp_target R sh = ((playing, dest, valid, need), sh')"
  shows "playing = se_play (sh_session sh) \<and> valid = se_client_addr_set (sh_session sh) \<and> sh_session sh' = sh_session sh \<and>
    dest = (if se_client_addr_set (sh_session sh) then se_client_addr (sh_session sh) else null_addr)"
  using assms(2) lock_mutex_quiet [OF assms(1), of sh] by (auto simp: get_rtsp_target_def Let_def)

text \<open>Taking the mutex alone changes nothing that a run is described by.\<close>

lemma reaches_shared:
  assumes "sd_player s4 = (sd_player s)\<lparr>pl_shared := sh\<rparr>" and "sh_session sh = sh_session (pl_shared (sd_player s))"
  shows "reaches s4 xs s5 \<Longrightarrow> reaches s xs s5" and "reaches s [] s4"
  using assms by (auto simp: reaches_def transmits_def gate_of_def)

lemma step_calm:
  assumes W: "calm (ev_world V)" and E: "device_ok (w_mmap (ev_world V))"
    and inv: "cache_inv (pl_cache (sd_player s))" "maps_fresh (w_mmap (ev_world V)) (pl_mem (sd_player s))"
      "snapshot_cache_ok (sd_cache s)"
    and g: "g = sh_session (pl_shared (sd_player s))"
  shows "reaches s
    (case fst (nalu_datafifo_read (ev_kd V) (Some (sd_reader s)) (sd_fifo s)) of
       None \<Rightarrow> []
     | Some (msg, it) \<Rightarrow>
         if nalu_datafifo_validate_msg (Some msg) = 0 \<and> \<not> (sd_last_read_seq s \<noteq> 0 \<and> msg_seq msg \<le> sd_last_read_seq s)
         then pack_inputs (ev_world V) (se_play g \<and> se_client_addr_set g)
           (if se_client_addr_set g then se_client_addr g else null_addr) (sd_timestamp s) (live_packs msg)
         else [])
    (datafifo_sender_step V s)"
proof (rule step_cases [of V s])
  fix f
  assume "nalu_datafifo_read (ev_kd V) (Some (sd_reader s)) (sd_fifo s) = (None, f)"
    and "sd_player (datafifo_sender_step V s) = sd_player s"
  then show ?thesis by (simp add: reaches_def transmits_nothing)
next
  fix msg it f playing dest valid need sh s4 s5 f'
  assume rd: "nalu_datafifo_read (ev_kd V) (Some (sd_reader s)) (sd_fifo s) = (Some (msg, it), f)"
    and t: "get_rtsp_target (w_rtsp (ev_world V)) (pl_shared (sd_player s)) = ((playing, dest, valid, need), sh)"
    and s4: "sd_player s4 = (sd_player s)\<lparr>pl_shared := sh\<rparr>" "sd_cache s4 = sd_cache s"
      "sd_last_read_seq s4 = sd_last_read_seq s" "sd_timestamp s4 = sd_timestamp s"
    and s5: "s5 = (if nalu_datafifo_validate_msg (Some msg) = 0
             then sender_message V msg dest (playing \<and> valid) need s4 else s4)"
    and st: "datafifo_sender_step V s = s5\<lparr>sd_fifo := f'\<rparr>"
  have q: "quiet (w_rtsp (ev_world V))" using W by (simp add: calm_def)
  from get_rtsp_target_quiet [OF q t]
  have tgt: "playing = se_play g" "valid = se_client_addr_set g" "sh_session sh = sh_session (pl_shared (sd_player s))"
      "dest = (if se_client_addr_set g then se_client_addr g else null_addr)"
    by (simp_all add: g)
  note same = reaches_shared [OF s4(1) tgt(3)]
  have inv4: "cache_inv (pl_cache (sd_player s4))" "maps_fresh (w_mmap (ev_world V)) (pl_mem (sd_player s4))"
      "snapshot_cache_ok (sd_cache s4)"
    using inv s4 by simp_all
  show ?thesis
  proof (cases "nalu_datafifo_validate_msg (Some msg) = 0 \<and>
      \<not> (sd_last_read_seq s \<noteq> 0 \<and> msg_seq msg \<le> sd_last_read_seq s)")
    case True
    then have "reaches s4 (pack_inputs (ev_world V) (playing \<and> valid) dest (sd_timestamp s4) (live_packs msg))
        (sender_message V msg dest (playing \<and> valid) need s4)"
      by (intro message_calm [OF W E inv4]) (use True s4(3) in auto)
    then have "reaches s (pack_inputs (ev_world V) (playing \<and> valid) dest (sd_timestamp s) (live_packs msg)) s5"
      using True s4(4) s5 by (intro same(1)) simp
    with True rd tgt st show ?thesis by (auto simp: reaches_def)
  next
    case False
    then have "s5 = s4" using s5 s4(3) by (auto simp: sender_message_def)
    then have "reaches s [] (datafifo_sender_step V s)" using st same(2) by (simp add: reaches_def)
    moreover have "(if nalu_datafifo_validate_msg (Some msg) = 0 \<and> \<not> (sd_last_read_seq s \<noteq> 0 \<and> msg_seq msg \<le> sd_last_read_seq s)
         then pack_inputs (ev_world V) (se_play g \<and> se_client_addr_set g)
           (if se_client_addr_set g then se_client_addr g else null_addr) (sd_timestamp s) (live_packs msg)
         else []) = []" by (rule if_not_P [OF False])
    ultimately show ?thesis unfolding rd fst_conv option.case prod.case by simp
  qed
qed

lemma run_calm:
  assumes W: "calm (ev_world V)" and E: "device_ok (w_mmap (ev_world V))"
  shows "cache_inv (pl_cache (sd_player s)) \<Longrightarrow> maps_fresh (w_mmap (ev_world V)) (pl_mem (sd_player s)) \<Longrightarrow>
    snapshot_cache_ok (sd_cache s) \<Longrightarrow> \<exists>xs. reaches s xs (datafifo_sender_run V n s)"
proof (induction n arbitrary: s)
  case 0
  have "reaches s [] s" by (simp add: reaches_def transmits_nothing)
  then show ?case by auto
next
  case (Suc n)
  let ?s = "datafifo_sender_step V s"
  from step_calm [OF W E Suc.prems refl] obtain xs where xs: "reaches s xs ?s" by blast
  have PE: "page_size_ok (w_mmap (ev_world V))" "munmap_accepts (w_mmap (ev_world V))"
    using E by (auto simp: device_ok_def)
  note safe = step_safe [OF PE Suc.prems(2,3)]
  have "cache_inv (pl_cache (sd_player ?s))" using transmits_inv xs Suc.prems(1) by (simp add: reaches_def)
  from Suc.IH [OF this maps_fresh_cong [OF conjunct2 [OF safe] Suc.prems(2)] conjunct1 [OF safe]]
  obtain ys where "reaches ?s ys (datafifo_sender_run V n ?s)" by blast
  with xs transmits_run [of SENDER_SSRC "sd_player s" xs "sd_player ?s" ys] show ?case
    by (auto simp: reaches_def)
qed

section \<open>After a restart of the big core\<close>

lemma starved_run:
  assumes "\<forall>t it. snd (kd_read (ev_kd V) t) = Some it \<longrightarrow> msg_seq (msg_of_item (it_bytes it)) \<le> L" and "L \<noteq> 0"
  shows "sd_last_read_seq s = L \<Longrightarrow>
    sd_last_read_seq (datafifo_sender_run V n s) = L \<and>
    pl_udp (sd_player (datafifo_sender_run V n s)) = pl_udp (sd_player s) \<and>
    sd_writer (datafifo_sender_run V n s) = sd_writer s"
proof (induction n arbitrary: s)
  case (Suc n)
  let ?s = "datafifo_sender_step V s"
  have "sd_last_read_seq ?s = L"
  proof (rule step_cases [of V s])
    fix msg it f playing dest valid need s4 s5 f'
    assume rd: "nalu_datafifo_read (ev_kd V) (Some (sd_reader s)) (sd_fifo s) = (Some (msg, it), f)"
      and s4: "sd_last_read_seq s4 = sd_last_read_seq s"
      and s5: "s5 = (if nalu_datafifo_validate_msg (Some msg) = 0
             then sender_message V msg dest (playing \<and> valid) need s4 else s4)"
      and st: "datafifo_sender_step V s = s5\<lparr>sd_fifo := f'\<rparr>"
    from read_cases [OF rd] have "msg = msg_of_item (it_bytes it)"
      and "snd (kd_read (ev_kd V) (ff_calls (sd_fifo s) + 1)) = Some it" by auto
    with assms(1) have "msg_seq msg \<le> L" by blast
    then have "s5 = s4" using s5 s4 Suc.prems assms(2) by (simp add: sender_message_def)
    with st s4 Suc.prems show ?thesis by simp
  qed (use Suc.prems in simp)
  with step_seq [of s V] Suc.prems assms(2) Suc.IH [of ?s] show ?case by auto
qed simp

lemma run_decodable:
  assumes "calm (ev_world V)" and "device_ok (w_mmap (ev_world V))"
    and "cache_inv (pl_cache (sd_player s))" and "maps_fresh (w_mmap (ev_world V)) (pl_mem (sd_player s))"
    and "snapshot_cache_ok (sd_cache s)" and "se_need_parameter_sets (sh_session (pl_shared (sd_player s)))"
  shows "\<exists>outs. decodable outs \<and>
    udp_sent (pl_udp (sd_player (datafifo_sender_run V n s))) =
      udp_sent (pl_udp (sd_player s)) @ output_datagrams SENDER_SSRC (pl_seq (sd_player s)) outs \<and>
    pl_seq (sd_player (datafifo_sender_run V n s)) =
      pl_seq (sd_player s) + of_nat (length (output_datagrams SENDER_SSRC (pl_seq (sd_player s)) outs))"
proof -
  obtain xs where xs: "reaches s xs (datafifo_sender_run V n s)" using run_calm [OF assms(1-5)] by blast
  have "decodable (fst (gate_run xs (gate_of (sd_player s))))"
    using gate_decodable [of xs "gate_of (sd_player s)"] assms(3,6)
    by (metis gate.select_convs(1,2) gate_of_def prod.collapse)
  with xs show ?thesis by (auto simp: reaches_def transmits_def)
qed

section \<open>Properties\<close>

text \<open>
  The environment and the start state of the witnesses: the FIFO delivers one flagged message again
  and again, a client is set up and plays.
\<close>

definition demo_item :: kd_item where
  "demo_item = \<lparr>it_addr = 0x5000, it_bytes = msg_bytes demo_snapshot_msg @ replicate 272 0\<rparr>"

definition demo_kd :: kd_env where
  "demo_kd = \<lparr>kd_invalid_handle = 0, kd_open_by_addr = (\<lambda>_ _ a. (0, a)), kd_avail_read_len = (\<lambda>_. (0, 512)),
     kd_read = (\<lambda>_. (0, Some demo_item)), kd_read_done = (\<lambda>_ _. 0), kd_clock = (\<lambda>t. Some (of_nat t, 0))\<rparr>"

definition demo_sender_env :: sender_env where
  "demo_sender_env = \<lparr>ev_world = demo_world\<lparr>w_mmap := demo_snapshot_env\<rparr>, ev_kd = demo_kd,
     ev_writer = (\<lambda>_ w. w), ev_block = (\<lambda>t. t)\<rparr>"

definition demo_sender :: "u64 \<Rightarrow> sender" where
  "demo_sender read_seq = \<lparr>sd_fifo = \<lparr>ff_calls = 0, ff_clock = 1, ff_last_idle_log_ms = 0, ff_idle_poll_count = 0,
       ff_events = [Opened 9]\<rparr>, sd_reader = \<lparr>rd_handle = 9, rd_opened = True\<rparr>,
     sd_player = (demo_player True)\<lparr>pl_shared := \<lparr>sh_session = session_play (session_setup
       \<lparr>sin_family = 2, sin_port = 9, sin_addr = 7\<rparr> 5000 session_init), sh_locks = 0\<rparr>\<rparr>,
     sd_cache = cache_zero, sd_writer = writer_zero demo_fs, sd_snapshot_ready = False, sd_snapshots = 0,
     sd_timestamp = SENDER_TIMESTAMP, sd_last_sent_seq = 0, sd_last_read_seq = read_seq, sd_last_item_seq = 0,
     sd_last_item_ms = 0, sd_frame_count = 0, sd_idle_loops = 0, sd_last_idle_log_ms = 0, sd_stats = []\<rparr>"

lemma demo_calm: "calm (ev_world demo_sender_env)"
  by (simp add: calm_def demo_sender_env_def demo_world_def quiet_def net_accepts_def)

lemma demo_device: "device_ok (w_mmap (ev_world demo_sender_env))"
  using demo_env_ok
  by (simp add: device_ok_def demo_sender_env_def munmap_accepts_def demo_snapshot_env_def demo_mmap_env_def)

lemma demo_sender_ok:
  "cache_inv (pl_cache (sd_player (demo_sender l)))"
  "maps_fresh (w_mmap (ev_world demo_sender_env)) (pl_mem (sd_player (demo_sender l)))"
  "snapshot_cache_ok (sd_cache (demo_sender l))"
  "se_need_parameter_sets (sh_session (pl_shared (sd_player (demo_sender l))))"
  "rd_opened (sd_reader (demo_sender l))"
  using demo_cache_inv demo_mmap_env_ok(2)
  by (simp_all add: demo_sender_def demo_player_def cache_inv_def demo_sender_env_def demo_snapshot_env_def
      session_play_def cache_inv_snapshot_def demo_snapshot_state_def)

lemma demo_read:
  "\<exists>f. nalu_datafifo_read (ev_kd demo_sender_env) (Some (sd_reader (demo_sender l))) (sd_fifo (demo_sender l)) =
     (Some (msg_of_item (it_bytes demo_item), demo_item), f)"
  by (simp add: nalu_datafifo_read_def demo_sender_env_def demo_sender_def demo_kd_def Let_def ipc_consts
      NALU_DATAFIFO_FIFO_ENTRIES_def)

lemma demo_msg: "msg_of_item (it_bytes demo_item) = demo_snapshot_msg"
  unfolding demo_item_def kd_item.simps
  by (rule conjunct1 [OF msg_layout]) (simp add: demo_snapshot_msg_def)

text \<open>
  C5: Every item is released, and exactly once: whatever the FIFO, the network, the memory, the
  allocator and the other threads do, an iteration takes nothing from the FIFO, or it takes one
  item and, at its end, issues READ_DONE for this item, also when the message is invalid, stale
  or cannot be sent. The big core gets every frame buffer back.
\<close>

theorem sender_releases_every_item:
  assumes "rd_opened (sd_reader s)"
  shows "\<exists>as. ff_events (sd_fifo (datafifo_sender_run V n s)) =
      ff_events (sd_fifo s) @ concat (map (\<lambda>a. [Took a, Released a]) as) \<and> length as \<le> n"
  by (rule run_events [OF assms])

theorem sender_releases_every_item_witness:
  "\<exists>as. ff_events (sd_fifo (datafifo_sender_run demo_sender_env 3 (demo_sender 0))) =
     [Opened 9] @ concat (map (\<lambda>a. [Took a, Released a]) as)"
proof -
  have "ff_events (sd_fifo (demo_sender 0)) = [Opened 9]" by (simp add: demo_sender_def)
  with sender_releases_every_item [OF demo_sender_ok(5) [of 0], of demo_sender_env 3] show ?thesis by auto
qed




text \<open>
  A run keeps the memory bounds, whatever the packets contain and whatever the allocator and the
  network answer: the snapshot cache stays within its capacities and its 8 MiB, and after every
  iteration the process has exactly the mappings it had before.
\<close>

theorem sender_run_bounded:
  assumes "page_size_ok (w_mmap (ev_world V))" and "munmap_accepts (w_mmap (ev_world V))"
    and "maps_fresh (w_mmap (ev_world V)) (pl_mem (sd_player s))" and "snapshot_cache_ok (sd_cache s)"
  shows "snapshot_cache_ok (sd_cache (datafifo_sender_run V n s)) \<and>
    mm_maps (pl_mem (sd_player (datafifo_sender_run V n s))) = mm_maps (pl_mem (sd_player s))"
  by (rule run_safe [OF assms])

theorem sender_run_bounded_witness:
  "mm_maps (pl_mem (sd_player (datafifo_sender_run demo_sender_env 5 (demo_sender 0)))) = []"
proof -
  have "mm_maps (pl_mem (sd_player (demo_sender 0))) = []"
    by (simp add: demo_sender_def demo_player_def no_maps_def)
  with sender_run_bounded [of demo_sender_env "demo_sender 0" 5] demo_device demo_sender_ok(2,3) [of 0]
  show ?thesis by (simp add: device_ok_def)
qed

text \<open>
  C38: A defect: after the big core restarts and numbers its frames from the start, the sender drops
  every frame as stale, sends nothing and takes no snapshot, for as long as the numbers do not
  exceed the last one before the restart.
\<close>

theorem sender_restart_starves:
  assumes "sd_last_read_seq s \<noteq> 0"
    and "\<forall>t it. snd (kd_read (ev_kd V) t) = Some it \<longrightarrow> msg_seq (msg_of_item (it_bytes it)) \<le> sd_last_read_seq s"
  shows "pl_udp (sd_player (datafifo_sender_run V n s)) = pl_udp (sd_player s) \<and>
    sd_writer (datafifo_sender_run V n s) = sd_writer s"
  using starved_run [OF assms(2,1) refl] by simp

lemma word_le_Suc: "(x :: u64) \<le> x + 1 \<or> x = -1"
proof (cases "unat x + 1 < 2 ^ 64")
  case True
  then have "unat (x + 1) = unat x + 1" by (simp add: unat_word_ariths)
  then show ?thesis by (simp add: word_le_nat_alt)
next
  case False
  moreover have "unat (-1 :: u64) = 2 ^ 64 - 1" by (simp add: unsigned_minus_1_eq_mask mask_eq_exp_minus_1)
  ultimately have "unat x = unat (-1 :: u64)" using unsigned_less [of x, where 'a = nat] by simp
  then have "x = -1" by (simp only: word_unat_eq_iff)
  then show ?thesis ..
qed

theorem sender_restart_starves_witness:
  "udp_sent (pl_udp (sd_player (datafifo_sender_run demo_sender_env 100 (demo_sender 500)))) = []"
proof -
  have "msg_seq (msg_of_item (it_bytes demo_item)) = 7" by (simp add: demo_msg) (simp add: demo_snapshot_msg_def)
  then have "\<forall>t it. snd (kd_read (ev_kd demo_sender_env) t) = Some it \<longrightarrow>
      msg_seq (msg_of_item (it_bytes it)) \<le> sd_last_read_seq (demo_sender 500)"
    by (simp add: demo_sender_env_def demo_kd_def demo_sender_def)
  from sender_restart_starves [OF _ this, of 100]
  show ?thesis by (simp add: demo_sender_def demo_player_def)
qed

text \<open>
  A defect: the gap that the statistics line is to report is always zero while a client plays
  (but for the last 64-bit sequence number), because \<open>last_sent_seq\<close> is set to the current number
  before it is passed as the previous one.
\<close>

theorem sender_gap_never_reported:
  "\<exists>es. sd_stats (sender_message V msg dest True need s) = sd_stats s @ es \<and>
     list_all (\<lambda>(q, gap). gap = 0 \<or> q = -1) es"
proof (cases "sd_last_read_seq s \<noteq> 0 \<and> msg_seq msg \<le> sd_last_read_seq s")
  case True
  then have "sd_stats (sender_message V msg dest True need s) = sd_stats s @ []" by (simp add: sender_message_def)
  then show ?thesis by (intro exI [of _ "[]"]) simp
next
  case False
  have "msg_seq msg \<le> msg_seq msg + 1 \<or> msg_seq msg = -1" by (rule word_le_Suc)
  then have g: "case log_datafifo_stats (Some msg) 0 (msg_seq msg) n force of
      None \<Rightarrow> True | Some (q, gap) \<Rightarrow> gap = 0 \<or> q = -1" for n force
    by (auto simp: log_datafifo_stats_def Let_def)
  from False show ?thesis
  proof (rule message_fresh [where V = V and c = True and dest = dest and need = need])
    assume "\<exists>force. sd_stats (sender_message V msg dest True need s) = sd_stats s @
       (case log_datafifo_stats (Some msg) 0 (if True then msg_seq msg else sd_last_sent_seq s)
          (sd_frame_count s + 1) force of None \<Rightarrow> [] | Some l \<Rightarrow> [l])"
    then obtain force where "sd_stats (sender_message V msg dest True need s) = sd_stats s @
       (case log_datafifo_stats (Some msg) 0 (msg_seq msg) (sd_frame_count s + 1) force of None \<Rightarrow> [] | Some l \<Rightarrow> [l])"
      by auto
    with g [of "sd_frame_count s + 1" force] show ?thesis by (auto split: option.splits)
  qed
qed

end
