(* ===== verification/Live_Path.thy ===== *)
theory Live_Path
  imports Sender
begin

text \<open>
  What a whole iteration of the DATAFIFO sender keeps, derived from what one NALU keeps. A relation
  between the states of the live path before and after that the call for a NALU respects is respected by
  buffers, packs, messages and iterations; the relations of interest are the invariant of the parameter-set
  cache, the effect on the shared session, and the format of what is put on the wire.
\<close>

section \<open>The contract of a NALU, lifted to an iteration\<close>

text \<open>
  \<open>same_view\<close>: the relation does not look at the memory, the counters and \<open>wait_for_idr\<close>; \<open>locked\<close>: it
  allows for what the RTSP thread does when the sender takes the mutex.
\<close>

locale live_path =
  fixes W :: world and ssrc :: u32 and Q :: "player \<Rightarrow> player \<Rightarrow> bool"
  assumes same_view: "pl_cache st' = pl_cache st \<Longrightarrow> pl_shared st' = pl_shared st \<Longrightarrow> pl_seq st' = pl_seq st \<Longrightarrow>
      pl_udp st' = pl_udp st \<Longrightarrow> Q st st'"
    and compose: "Q st st1 \<Longrightarrow> Q st1 st2 \<Longrightarrow> Q st st2"
    and locked: "Q st (st\<lparr>pl_shared := lock_mutex (w_rtsp W) (pl_shared st)\<rparr>)"
    and one_nalu: "datafifo_process_nalu_for_playback W dest ts ssrc n m c st = (r, st') \<Longrightarrow> Q st st'"
begin

lemma each_rel:
  "Q st (snd (play_each (\<lambda>n k. datafifo_process_nalu_for_playback W dest ts ssrc n k c) xs st))"
proof (induction xs arbitrary: st)
  case (Cons x xs)
  obtain n k where x: "x = (n, k)" by (cases x)
  obtain r st1 where s: "datafifo_process_nalu_for_playback W dest ts ssrc n k c st = (r, st1)" by fastforce
  from one_nalu [OF s] compose [OF one_nalu [OF s] Cons.IH] show ?case by (simp add: x s)
qed (simp add: same_view)

lemma pack_rel:
  assumes "datafifo_process_pack_for_playback W dest ts ssrc p m c st = (r, st')"
  shows "Q st st'"
proof (cases "nalu_datafifo_mmap_pack (w_mmap W) p (pl_mem st)")
  case (Pair vo s1)
  show ?thesis
  proof (cases vo)
    case None
    with assms Pair show ?thesis by (auto simp: datafifo_process_pack_for_playback_def intro: same_view)
  next
    case (Some v)
    obtain ret st1 where b: "datafifo_process_h265_buffer_for_playback W dest ts ssrc
        (vm_bytes (w_mmap W) s1 v (case p of None \<Rightarrow> 0 | Some pk \<Rightarrow> unat (pk_len pk))) m c (st\<lparr>pl_mem := s1\<rparr>) = (ret, st1)"
      by fastforce
    then have "Q (st\<lparr>pl_mem := s1\<rparr>) st1" using each_rel by (simp add: process_buffer_eq) (metis snd_conv)
    moreover have "Q st (st\<lparr>pl_mem := s1\<rparr>)" by (simp add: same_view)
    moreover have "Q st1 st'" using assms Pair Some b
      by (auto simp: datafifo_process_pack_for_playback_def Let_def intro: same_view split: prod.splits)
    ultimately show ?thesis using compose by blast
  qed
qed

lemma packs_rel: "Q st (snd (sender_packs W dest ts ssrc c ps failed st))"
proof (induction ps arbitrary: failed st)
  case (Cons p ps)
  obtain r st1 where s: "datafifo_process_pack_for_playback W dest ts ssrc (Some p) (if ps = [] then 1 else 0) c st = (r, st1)"
    by fastforce
  from compose [OF pack_rel [OF s] Cons.IH] show ?case by (simp add: s)
qed (simp add: same_view)

lemma message_rel:
  assumes "ev_world V = W" and "ssrc = SENDER_SSRC"
  shows "Q (sd_player s) (sd_player (sender_message V msg dest c need s))"
proof (cases "sd_last_read_seq s \<noteq> 0 \<and> msg_seq msg \<le> sd_last_read_seq s")
  case True
  then show ?thesis by (simp add: sender_message_def same_view)
next
  case False
  then show ?thesis
  proof (rule message_fresh [where V = V and c = c and dest = dest and need = need])
    fix ret s2 ms s3 failed st
    assume a: "(if msg_reserved msg AND MPP_NALU_IPC_FLAG_SNAPSHOT \<noteq> 0
        then sender_snapshot V msg (s\<lparr>sd_last_read_seq := msg_seq msg\<rparr>)
        else (0, s\<lparr>sd_last_read_seq := msg_seq msg\<rparr>)) = (ret, s2)"
      and b: "(if c then clock_ms V s2 else (0, s2)) = (ms, s3)"
      and d: "sender_packs (ev_world V) dest (sd_timestamp s3) SENDER_SSRC c (live_packs msg) False (sd_player s3) = (failed, st)"
      and m: "sd_player (sender_message V msg dest c need s) = st"
    have "Q (sd_player s) (sd_player s3)"
      using a b snapshot_frame [of V msg "s\<lparr>sd_last_read_seq := msg_seq msg\<rparr>" ret s2] clock_ms_frame [of V s2 ms s3]
      by (intro same_view) (auto split: if_splits)
    from compose [OF this packs_rel] d m assms show ?thesis by (metis snd_conv)
  qed
qed

lemma step_rel:
  assumes "ev_world V = W" and "ssrc = SENDER_SSRC"
  shows "Q (sd_player s) (sd_player (datafifo_sender_step V s))"
proof (rule step_cases [of V s])
  fix msg playing dest valid need sh s4 s5 f'
  assume t: "get_rtsp_target (w_rtsp (ev_world V)) (pl_shared (sd_player s)) = ((playing, dest, valid, need), sh)"
    and s4: "sd_player s4 = (sd_player s)\<lparr>pl_shared := sh\<rparr>"
    and s5: "s5 = (if nalu_datafifo_validate_msg (Some msg) = 0
             then sender_message V msg dest (playing \<and> valid) need s4 else s4)"
    and st: "datafifo_sender_step V s = s5\<lparr>sd_fifo := f'\<rparr>"
  have "sh = lock_mutex (w_rtsp W) (pl_shared (sd_player s))"
    using t assms(1) by (simp add: get_rtsp_target_def Let_def)
  then have "Q (sd_player s) (sd_player s4)" using locked s4 by simp
  with compose [OF this message_rel [OF assms]] s5 st show ?thesis by simp
qed (simp add: same_view)

lemma run_rel:
  assumes "ev_world V = W" and "ssrc = SENDER_SSRC"
  shows "Q (sd_player s) (sd_player (datafifo_sender_run V n s))"
proof (induction n arbitrary: s)
  case (Suc n)
  from compose [OF step_rel [OF assms] Suc.IH] show ?case by simp
qed (simp add: same_view)

end

section \<open>What one NALU does to the session and to the cache\<close>

lemma send_nalu_from_keeps:
  "pl_shared (snd (send_nalu_from W dest ts ssrc n m st)) = pl_shared st"
  "pl_cache (snd (send_nalu_from W dest ts ssrc n m st)) = pl_cache st"
  by (cases "send_nalu_from W dest ts ssrc n m st", simp add: frame)+

lemma playback_parameter_sets_keeps:
  "(case playback_parameter_sets W dest ts ssrc st of Inl x \<Rightarrow> pl_shared x | Inr x \<Rightarrow> pl_shared x)
     \<in> {lock_mutex (w_rtsp W) (pl_shared st),
        rtsp_mark_parameter_sets_sent (w_rtsp W) (lock_mutex (w_rtsp W) (pl_shared st))}"
  "(case playback_parameter_sets W dest ts ssrc st of Inl x \<Rightarrow> pl_cache x | Inr x \<Rightarrow> pl_cache x) = pl_cache st"
  by (auto simp: playback_parameter_sets_def rtsp_session_needs_parameter_sets_def Let_def
      dest: send_cached_frame(1,2) split: prod.splits)

lemma process_nalu_keeps:
  assumes "datafifo_process_nalu_for_playback W dest ts ssrc nalup m c st = (r, st')"
  shows "pl_shared st' \<in> {pl_shared st, lock_mutex (w_rtsp W) (pl_shared st),
      rtsp_mark_parameter_sets_sent (w_rtsp W) (lock_mutex (w_rtsp W) (pl_shared st))} \<and>
    (cache_inv (pl_cache st) \<longrightarrow> cache_inv (pl_cache st'))"
proof (cases "\<exists>n. nalup = Some n \<and> 2 \<le> length n")
  case True
  then obtain n where n: "nalup = Some n" "2 \<le> length n" by blast
  have "st' = snd (datafifo_process_nalu_for_playback W dest ts ssrc nalup m c st)" using assms by simp
  then show ?thesis
    using playback_parameter_sets_keeps [of W dest ts ssrc "looked_at W n st"] looked_at_inv [of st W n]
    by (auto simp: n(1) process_nalu_body [OF n(2)] send_nalu_from_keeps frame split: sum.splits if_splits)
next
  case False
  then have "st' = st"
    using assms by (cases nalup) (auto simp: process_nalu_short, simp add: datafifo_process_nalu_for_playback_def)
  then show ?thesis by simp
qed

section \<open>The session, shared with the RTSP thread\<close>

text \<open>
  The steps of both threads on the session. The sender relies on the RTSP thread to take only its steps,
  and then the two together take no others.
\<close>

inductive session_machine :: "session \<Rightarrow> session \<Rightarrow> bool" where
  machine_rtsp: "session_step g g' \<Longrightarrow> session_machine g g'"
| machine_sender: "session_machine g (g\<lparr>se_need_parameter_sets := False\<rparr>)"

inductive_cases session_machineE: "session_machine g g'"

abbreviation pl_session :: "player \<Rightarrow> session" where
  "pl_session st \<equiv> sh_session (pl_shared st)"

definition machine_only :: "rtsp_env \<Rightarrow> bool" where
  "machine_only R \<longleftrightarrow> (\<forall>t g. session_machine\<^sup>*\<^sup>* g (R t g))"

lemma lock_machine: "machine_only R \<Longrightarrow> session_machine\<^sup>*\<^sup>* (sh_session sh) (sh_session (lock_mutex R sh))"
  by (simp add: lock_mutex_def machine_only_def)

lemma mark_machine:
  "machine_only R \<Longrightarrow> session_machine\<^sup>*\<^sup>* (sh_session sh) (sh_session (rtsp_mark_parameter_sets_sent R sh))"
  using rtranclp.rtrancl_into_rtrancl [OF lock_machine machine_sender]
  by (simp add: rtsp_mark_parameter_sets_sent_def Let_def)

lemma mark_quiet:
  "quiet R \<Longrightarrow> sh_session (rtsp_mark_parameter_sets_sent R sh) = (sh_session sh)\<lparr>se_need_parameter_sets := False\<rparr>"
  by (simp add: rtsp_mark_parameter_sets_sent_def Let_def)

lemma session_machine_inv: "session_machine\<^sup>*\<^sup>* g g' \<Longrightarrow> session_inv g \<Longrightarrow> session_inv g'"
proof (induction rule: rtranclp_induct)
  case (step g' g'')
  then show ?case
    by (auto elim!: session_machineE dest: session_step_inv simp: session_inv_def)
qed

interpretation machine: live_path W ssrc
    "\<lambda>st st'. machine_only (w_rtsp W) \<longrightarrow> session_machine\<^sup>*\<^sup>* (pl_session st) (pl_session st')"
  for W ssrc
proof unfold_locales
  fix dest ts n m c st r st'
  assume "datafifo_process_nalu_for_playback W dest ts ssrc n m c st = (r, st')"
  from process_nalu_keeps [OF this]
  show "machine_only (w_rtsp W) \<longrightarrow> session_machine\<^sup>*\<^sup>* (pl_session st) (pl_session st')"
    using lock_machine rtranclp_trans [OF lock_machine mark_machine] by auto
qed (auto intro: rtranclp_trans lock_machine)

text \<open>Conversely, what the RTSP thread relies on: between its steps the sender at most clears the flag.\<close>

interpretation clears: live_path W ssrc
    "\<lambda>st st'. quiet (w_rtsp W) \<longrightarrow> pl_session st' = pl_session st \<or>
       pl_session st' = (pl_session st)\<lparr>se_need_parameter_sets := False\<rparr>"
  for W ssrc
proof unfold_locales
  fix dest ts n m c st r st'
  assume "datafifo_process_nalu_for_playback W dest ts ssrc n m c st = (r, st')"
  from process_nalu_keeps [OF this]
  show "quiet (w_rtsp W) \<longrightarrow> pl_session st' = pl_session st \<or>
      pl_session st' = (pl_session st)\<lparr>se_need_parameter_sets := False\<rparr>"
    by (auto simp: mark_quiet)
qed auto

interpretation params: live_path W ssrc "\<lambda>st st'. cache_inv (pl_cache st) \<longrightarrow> cache_inv (pl_cache st')"
  for W ssrc
  by unfold_locales (auto dest: process_nalu_keeps)

section \<open>What is put on the wire\<close>

text \<open>
  \<open>wire_ok ssrc q ds\<close>: the datagrams are RTP packets of the stream \<open>ssrc\<close>, numbered from \<open>q\<close> without a
  gap, and each fits into a frame of the network.
\<close>

definition wire_ok :: "u32 \<Rightarrow> u16 \<Rightarrow> datagram list \<Rightarrow> bool" where
  "wire_ok ssrc q ds \<longleftrightarrow> (\<forall>i < length ds. length (dg_bytes (ds ! i)) \<le> 1212 \<and>
     (\<exists>p. rtp_parse (dg_bytes (ds ! i)) = Some p \<and> rv_version p = 2 \<and> rv_payload_type p = 96 \<and>
       rv_seq p = q + of_nat i \<and> rv_ssrc p = ssrc))"

lemma wire_ok_Nil [simp]: "wire_ok ssrc q []"
  by (simp add: wire_ok_def)

lemma wire_ok_append:
  assumes "wire_ok ssrc q ds" and "wire_ok ssrc (q + of_nat (length ds)) es"
  shows "wire_ok ssrc q (ds @ es)"
  unfolding wire_ok_def
proof (intro allI impI)
  fix i
  assume i: "i < length (ds @ es)"
  show "length (dg_bytes ((ds @ es) ! i)) \<le> 1212 \<and> (\<exists>p. rtp_parse (dg_bytes ((ds @ es) ! i)) = Some p \<and>
      rv_version p = 2 \<and> rv_payload_type p = 96 \<and> rv_seq p = q + of_nat i \<and> rv_ssrc p = ssrc)"
  proof (cases "i < length ds")
    case True
    with assms(1) show ?thesis by (simp add: wire_ok_def nth_append)
  next
    case False
    then have "q + of_nat (length ds) + of_nat (i - length ds) = q + of_nat i"
      by (simp add: add.assoc flip: of_nat_add)
    with assms(2) [unfolded wire_ok_def, rule_format, of "i - length ds"] False i show ?thesis
      by (simp add: nth_append)
  qed
qed

lemma wire_ok_numbered:
  assumes "\<forall>x \<in> set ps. length (fst x) \<le> 1200"
  shows "wire_ok ssrc q (numbered dest ts ssrc q ps)"
  using assms by (auto simp: wire_ok_def numbered_nth rtp_parse_build)

lemma nalu_plan_sizes: "x \<in> set (nalu_plan n m) \<Longrightarrow> length (fst x) \<le> 1200"
  by (cases x) (auto simp: nalu_plan_def rtp_sizes split: option.splits if_splits dest!: fu_plan_sizes)

text \<open>\<open>on_wire\<close>: the counter and the socket afterwards are those before, advanced by such datagrams.\<close>

definition on_wire :: "u32 \<Rightarrow> u16 \<Rightarrow> udp \<Rightarrow> u16 \<Rightarrow> udp \<Rightarrow> bool" where
  "on_wire ssrc q u q' u' \<longleftrightarrow> (\<exists>ds. udp_sent u' = udp_sent u @ ds \<and> wire_ok ssrc q ds \<and> q' = q + of_nat (length ds))"

lemma on_wire_refl: "udp_sent u' = udp_sent u \<Longrightarrow> on_wire ssrc q u q u'"
  by (auto simp: on_wire_def intro: exI [of _ "[]"])

lemma on_wire_trans: "on_wire ssrc q u q1 u1 \<Longrightarrow> on_wire ssrc q1 u1 q2 u2 \<Longrightarrow> on_wire ssrc q u q2 u2"
  unfolding on_wire_def
  by (elim exE conjE, rule_tac x = "ds @ dsa" in exI) (auto intro: wire_ok_append simp: add.assoc)

lemma emitted_on_wire:
  assumes "emitted dest ts ssrc plan q u r q' u'" and "\<forall>x \<in> set plan. length (fst x) \<le> 1200"
  shows "on_wire ssrc q u q' u'"
proof -
  obtain k where k: "k \<le> length plan" "udp_sent u' = udp_sent u @ numbered dest ts ssrc q (take k plan)"
    "q' = q + of_nat k" using assms(1) by (auto simp: emitted_def)
  have "wire_ok ssrc q (numbered dest ts ssrc q (take k plan))"
    using assms(2) by (intro wire_ok_numbered) (auto dest: in_set_takeD)
  with k show ?thesis unfolding on_wire_def by (intro exI conjI) (assumption | simp)+
qed

lemma nalu_script_sizes: "x \<in> set (nalu_script W c n m st) \<Longrightarrow> length (fst x) \<le> 1200"
  by (auto simp: nalu_script_def param_plan_def nalu_plan_sizes split: if_splits)

lemma process_nalu_on_wire:
  assumes "datafifo_process_nalu_for_playback W dest ts ssrc nalup m c st = (r, st')"
  shows "on_wire ssrc (pl_seq st) (pl_udp st) (pl_seq st') (pl_udp st')"
proof (cases "\<exists>n. nalup = Some n \<and> 2 \<le> length n")
  case True
  then obtain n where n: "nalup = Some n" "2 \<le> length n" by blast
  from emitted_on_wire [OF process_nalu_script [OF assms [unfolded n(1)] n(2)]] nalu_script_sizes show ?thesis by blast
next
  case False
  with assms show ?thesis
    by (auto simp: datafifo_process_nalu_for_playback_def not_le intro!: on_wire_refl split: option.splits)
qed

interpretation wire: live_path W ssrc "\<lambda>st st'. on_wire ssrc (pl_seq st) (pl_udp st) (pl_seq st') (pl_udp st')"
  for W ssrc
  by unfold_locales (auto intro: process_nalu_on_wire on_wire_trans on_wire_refl)

end
