(* ===== verification/File_Sender.thy ===== *)
theory File_Sender
  imports Playback
begin

text \<open>
  The sender thread in file mode (\<open>file_rtp_sender_loop\<close> of \<open>src/RTSP_Create.c\<close>): it plays the NALUs
  of the loaded file over and over to the client that is playing.
\<close>

section \<open>State and operations\<close>

record file_sender =
  fl_idx :: nat
  fl_timestamp :: u32
  fl_seq :: u16
  fl_udp :: udp
  fl_shared :: shared

definition FILE_SSRC :: u32 where "FILE_SSRC = 0x22334455"

definition file_sender_init :: "udp \<Rightarrow> shared \<Rightarrow> file_sender" where
  "file_sender_init u sh = \<lparr>fl_idx = 0, fl_timestamp = 0x12345678, fl_seq = 0, fl_udp = u, fl_shared = sh\<rparr>"

text \<open>
  One iteration; \<open>None\<close> when it waits for a client for ever. \<open>g_nalus\<close> with \<open>g_nalu_count\<close> elements
  is the list \<open>nalus\<close>.
\<close>

definition file_rtp_sender_step :: "rtsp_env \<Rightarrow> net_env \<Rightarrow> bytes list \<Rightarrow> file_sender \<Rightarrow> file_sender option" where
  "file_rtp_sender_step R N nalus s =
     (case wait_for_rtsp_play R (fl_shared s) of
        None \<Rightarrow> None
      | Some (dest, sh) \<Rightarrow>
          let s1 = s\<lparr>fl_shared := sh\<rparr> in
          if nalus = [] then Some s1
          else
            let nalu = nalus ! fl_idx s in
            case send_h265_nalu_rtp N dest (fl_timestamp s) FILE_SSRC (Some nalu) 1 (fl_seq s) (fl_udp s) of
              (r, q, u) \<Rightarrow>
                let s2 = s1\<lparr>fl_seq := q, fl_udp := u\<rparr> in
                if r \<noteq> 0 then Some s2
                else
                  let idx = fl_idx s + 1 in
                  Some (s2\<lparr>fl_idx := if idx \<ge> length nalus then 0 else idx,
                           fl_timestamp := fl_timestamp s + RTP_TS_STEP\<rparr>))"

text \<open>\<open>n\<close> iterations of the loop, which has no end.\<close>

fun file_rtp_sender_loop :: "rtsp_env \<Rightarrow> net_env \<Rightarrow> bytes list \<Rightarrow> nat \<Rightarrow> file_sender \<Rightarrow> file_sender option" where
  "file_rtp_sender_loop R N nalus 0 s = Some s"
| "file_rtp_sender_loop R N nalus (Suc n) s =
     (case file_rtp_sender_step R N nalus s of
        None \<Rightarrow> None
      | Some s' \<Rightarrow> file_rtp_sender_loop R N nalus n s')"

section \<open>One iteration\<close>

lemma file_step_Some:
  assumes "file_rtp_sender_step R N nalus s = Some s'" and "nalus \<noteq> []"
  obtains dest r where "target_ready (fl_shared s')" and "dest = se_client_addr (sh_session (fl_shared s'))"
    and "emitted dest (fl_timestamp s) FILE_SSRC (nalu_plan (Some (nalus ! fl_idx s)) 1) (fl_seq s) (fl_udp s)
           r (fl_seq s') (fl_udp s')"
    and "send_h265_nalu_rtp N dest (fl_timestamp s) FILE_SSRC (Some (nalus ! fl_idx s)) 1 (fl_seq s) (fl_udp s) =
           (r, fl_seq s', fl_udp s')"
    and "fl_idx s' = (if r = 0 then (if fl_idx s + 1 \<ge> length nalus then 0 else fl_idx s + 1) else fl_idx s)"
    and "fl_timestamp s' = (if r = 0 then fl_timestamp s + RTP_TS_STEP else fl_timestamp s)"
proof -
  obtain dest sh where w: "wait_for_rtsp_play R (fl_shared s) = Some (dest, sh)"
    using assms(1) by (auto simp: file_rtp_sender_step_def split: option.splits)
  obtain r q u where x: "send_h265_nalu_rtp N dest (fl_timestamp s) FILE_SSRC (Some (nalus ! fl_idx s)) 1
      (fl_seq s) (fl_udp s) = (r, q, u)" by (metis prod_cases3)
  have s': "s' = (if r \<noteq> 0 then s\<lparr>fl_shared := sh, fl_seq := q, fl_udp := u\<rparr>
      else s\<lparr>fl_shared := sh, fl_seq := q, fl_udp := u,
             fl_idx := if fl_idx s + 1 \<ge> length nalus then 0 else fl_idx s + 1,
             fl_timestamp := fl_timestamp s + RTP_TS_STEP\<rparr>)"
    using assms unfolding file_rtp_sender_step_def w option.case prod.case Let_def x by (auto split: if_splits)
  have fs: "fl_shared s' = sh" "fl_seq s' = q" "fl_udp s' = u" using s' by auto
  from wait_for_rtsp_play_Some [OF w] have "target_ready sh" "dest = se_client_addr (sh_session sh)" by auto
  moreover have "fl_idx s' = (if r = 0 then (if fl_idx s + 1 \<ge> length nalus then 0 else fl_idx s + 1) else fl_idx s)"
    "fl_timestamp s' = (if r = 0 then fl_timestamp s + RTP_TS_STEP else fl_timestamp s)"
    by (simp_all add: s')
  ultimately show thesis
    using that [of dest r, unfolded fs] nalu.send_emits [OF x] x by blast
qed

lemma file_step_idx:
  "file_rtp_sender_step R N nalus s = Some s' \<Longrightarrow> nalus \<noteq> [] \<Longrightarrow> fl_idx s < length nalus \<Longrightarrow>
     fl_idx s' < length nalus"
  by (erule file_step_Some) auto

lemma file_loop_idx:
  "file_rtp_sender_loop R N nalus n s = Some s' \<Longrightarrow> nalus \<noteq> [] \<Longrightarrow> fl_idx s < length nalus \<Longrightarrow>
     fl_idx s' < length nalus"
  by (induction R N nalus n s rule: file_rtp_sender_loop.induct) (auto split: option.splits dest: file_step_idx)

section \<open>A client that plays\<close>

lemma wait_quiet:
  assumes "quiet R" and "target_ready sh"
  obtains sh' where "wait_for_rtsp_play R sh = Some (se_client_addr (sh_session sh), sh')"
    and "sh_session sh' = sh_session sh"
  using assms by (subst (asm) wait_for_rtsp_play.simps) (auto simp: Let_def target_ready_def)

lemma file_step_calm:
  assumes "quiet R" and "target_ready (fl_shared s)" and "net_accepts N"
    and "fl_idx s < length nalus" and "2 \<le> length (nalus ! fl_idx s)"
  obtains s' where "file_rtp_sender_step R N nalus s = Some s'"
    and "sh_session (fl_shared s') = sh_session (fl_shared s)"
    and "fl_idx s' = (fl_idx s + 1) mod length nalus" and "fl_timestamp s' = fl_timestamp s + RTP_TS_STEP"
    and "fl_seq s' = fl_seq s + of_nat (length (nalu_plan (Some (nalus ! fl_idx s)) 1))"
    and "udp_sent (fl_udp s') = udp_sent (fl_udp s) @ numbered (se_client_addr (sh_session (fl_shared s)))
           (fl_timestamp s) FILE_SSRC (fl_seq s) (nalu_plan (Some (nalus ! fl_idx s)) 1)"
proof -
  obtain sh where w: "wait_for_rtsp_play R (fl_shared s) = Some (se_client_addr (sh_session (fl_shared s)), sh)"
    and sh: "sh_session sh = sh_session (fl_shared s)"
    by (rule wait_quiet [OF assms(1,2)])
  let ?d = "se_client_addr (sh_session (fl_shared s))"
  obtain r q u where x: "send_h265_nalu_rtp N ?d (fl_timestamp s) FILE_SSRC (Some (nalus ! fl_idx s)) 1
      (fl_seq s) (fl_udp s) = (r, q, u)" by (metis prod_cases3)
  have r: "r = 0" using send_h265_nalu_rtp_live [OF assms(3), of "Some (nalus ! fl_idx s)"] x assms(5)
    by (metis fst_conv option.sel option.distinct(1))
  have idx: "(if fl_idx s + 1 \<ge> length nalus then 0 else fl_idx s + 1) = (fl_idx s + 1) mod length nalus"
    using assms(4) by (cases "fl_idx s + 1 = length nalus") auto
  have ne: "nalus \<noteq> []" using assms(4) by auto
  have st: "file_rtp_sender_step R N nalus s = Some (s\<lparr>fl_shared := sh, fl_seq := q, fl_udp := u,
      fl_idx := (fl_idx s + 1) mod length nalus, fl_timestamp := fl_timestamp s + RTP_TS_STEP\<rparr>)"
    unfolding file_rtp_sender_step_def w option.case prod.case Let_def x r idx using ne by simp
  from emitted_ok [OF nalu.send_emits [OF x, unfolded r]] sh st that show thesis by simp
qed

section \<open>The contract of a player\<close>

text \<open>
  A loop that plays a table of NALUs over and over. Its client is the proof of what \<open>n\<close> iterations do,
  which needs of one iteration only the two laws: what it does when nothing fails, and that it stays where
  it is at a NALU that the packetiser refuses.
\<close>

locale nalu_player =
  fixes step :: "rtsp_env \<Rightarrow> net_env \<Rightarrow> bytes list \<Rightarrow> file_sender \<Rightarrow> file_sender option"
    and loop :: "rtsp_env \<Rightarrow> net_env \<Rightarrow> bytes list \<Rightarrow> nat \<Rightarrow> file_sender \<Rightarrow> file_sender option"
    and ts_step :: u32
  assumes loop_0: "loop R N nalus 0 s = Some s"
    and loop_Suc: "loop R N nalus (Suc n) s = (case step R N nalus s of None \<Rightarrow> None | Some s' \<Rightarrow> loop R N nalus n s')"
    and step_calm: "quiet R \<Longrightarrow> target_ready (fl_shared s) \<Longrightarrow> net_accepts N \<Longrightarrow> fl_idx s < length nalus \<Longrightarrow>
      2 \<le> length (nalus ! fl_idx s) \<Longrightarrow>
      \<exists>s'. step R N nalus s = Some s' \<and> sh_session (fl_shared s') = sh_session (fl_shared s) \<and>
        fl_idx s' = (fl_idx s + 1) mod length nalus \<and> fl_timestamp s' = fl_timestamp s + ts_step \<and>
        fl_seq s' = fl_seq s + of_nat (length (nalu_plan (Some (nalus ! fl_idx s)) 1)) \<and>
        udp_sent (fl_udp s') = udp_sent (fl_udp s) @ numbered (se_client_addr (sh_session (fl_shared s)))
          (fl_timestamp s) FILE_SSRC (fl_seq s) (nalu_plan (Some (nalus ! fl_idx s)) 1)"
    and step_short: "step R N nalus s = Some s' \<Longrightarrow> fl_idx s < length nalus \<Longrightarrow> length (nalus ! fl_idx s) < 2 \<Longrightarrow>
      fl_idx s' = fl_idx s \<and> fl_udp s' = fl_udp s"
begin

text \<open>
  When the network accepts the packets and the client keeps playing, \<open>n\<close> iterations transmit \<open>n\<close> NALUs of the
  file in their order, starting again at the first after the last, each completely, with the marker
  set and with a timestamp one frame later than the one before.
\<close>

lemma loop_calm:
  assumes "quiet R" and "net_accepts N" and "\<forall>n \<in> set nalus. 2 \<le> length n"
  shows "target_ready (fl_shared s) \<Longrightarrow> fl_idx s < length nalus \<Longrightarrow>
    \<exists>s'. loop R N nalus n s = Some s' \<and> fl_idx s' = (fl_idx s + n) mod length nalus \<and>
      fl_timestamp s' = fl_timestamp s + of_nat n * ts_step \<and>
      udp_sent (fl_udp s') = udp_sent (fl_udp s) @ output_datagrams FILE_SSRC (fl_seq s)
        (map (\<lambda>k. (se_client_addr (sh_session (fl_shared s)), fl_timestamp s + of_nat k * ts_step,
                   nalus ! ((fl_idx s + k) mod length nalus), 1)) [0..<n])"
proof (induction n arbitrary: s)
  case (Suc n)
  have two: "2 \<le> length (nalus ! fl_idx s)" using assms(3) Suc.prems(2) by simp
  obtain s1 where s1: "step R N nalus s = Some s1"
    "sh_session (fl_shared s1) = sh_session (fl_shared s)"
    "fl_idx s1 = (fl_idx s + 1) mod length nalus" "fl_timestamp s1 = fl_timestamp s + ts_step"
    "fl_seq s1 = fl_seq s + of_nat (length (nalu_plan (Some (nalus ! fl_idx s)) 1))"
    "udp_sent (fl_udp s1) = udp_sent (fl_udp s) @ numbered (se_client_addr (sh_session (fl_shared s)))
           (fl_timestamp s) FILE_SSRC (fl_seq s) (nalu_plan (Some (nalus ! fl_idx s)) 1)"
    using step_calm [OF assms(1) Suc.prems(1) assms(2) Suc.prems(2) two] by blast
  have rdy: "target_ready (fl_shared s1)" using Suc.prems(1) s1(2) by (simp add: target_ready_def)
  have "0 < length nalus" using Suc.prems(2) by linarith
  then have "fl_idx s1 < length nalus" unfolding s1(3) by (rule mod_less_divisor)
  from Suc.IH [OF rdy this] obtain s' where s': "loop R N nalus n s1 = Some s'"
    "fl_idx s' = (fl_idx s1 + n) mod length nalus" "fl_timestamp s' = fl_timestamp s1 + of_nat n * ts_step"
    "udp_sent (fl_udp s') = udp_sent (fl_udp s1) @ output_datagrams FILE_SSRC (fl_seq s1)
        (map (\<lambda>k. (se_client_addr (sh_session (fl_shared s1)), fl_timestamp s1 + of_nat k * ts_step,
                   nalus ! ((fl_idx s1 + k) mod length nalus), 1)) [0..<n])" by blast
  let ?d = "se_client_addr (sh_session (fl_shared s))"
  have m: "map (\<lambda>k. (?d, fl_timestamp s + of_nat k * ts_step, nalus ! ((fl_idx s + k) mod length nalus), 1 :: u8)) [0..<Suc n] =
      (?d, fl_timestamp s, nalus ! fl_idx s, 1) #
      map (\<lambda>k. (?d, fl_timestamp s1 + of_nat k * ts_step, nalus ! ((fl_idx s1 + k) mod length nalus), 1)) [0..<n]"
    using Suc.prems(2)
    by (simp only: upt_conv_Cons zero_less_Suc map_Suc_upt [symmetric] list.map map_map o_def)
      (simp add: s1(3,4) algebra_simps mod_simps)
  have "fl_idx s' = (fl_idx s + Suc n) mod length nalus"
    by (simp add: s'(2) s1(3) mod_simps)
  moreover have "fl_timestamp s' = fl_timestamp s + of_nat (Suc n) * ts_step"
    by (simp add: s'(3) s1(4) algebra_simps)
  moreover have "loop R N nalus (Suc n) s = Some s'" using s1(1) s'(1) by (simp add: loop_Suc)
  ultimately show ?case unfolding m using s'(4) s1(2,5,6) by simp
qed (simp add: loop_0)

lemma loop_stuck:
  "loop R N nalus n s = Some s' \<Longrightarrow> fl_idx s < length nalus \<Longrightarrow> length (nalus ! fl_idx s) < 2 \<Longrightarrow>
     fl_idx s' = fl_idx s \<and> fl_udp s' = fl_udp s"
proof (induction n arbitrary: s)
  case (Suc n)
  then obtain s1 where s1: "step R N nalus s = Some s1" and l: "loop R N nalus n s1 = Some s'"
    by (auto simp: loop_Suc split: option.splits)
  from step_short [OF s1 Suc.prems(2,3)] Suc.IH [OF l] Suc.prems(2,3) show ?case by simp
qed (simp add: loop_0)

end

lemma file_step_short:
  assumes s1: "file_rtp_sender_step R N nalus s = Some s'" and "fl_idx s < length nalus"
    and short: "length (nalus ! fl_idx s) < 2"
  shows "fl_idx s' = fl_idx s \<and> fl_udp s' = fl_udp s"
proof -
  have ne: "nalus \<noteq> []" using assms(2) by auto
  show ?thesis
  proof (rule file_step_Some [OF s1 ne])
    fix dest r
    assume "send_h265_nalu_rtp N dest (fl_timestamp s) FILE_SSRC (Some (nalus ! fl_idx s)) 1 (fl_seq s) (fl_udp s) =
        (r, fl_seq s', fl_udp s')"
      and "fl_idx s' = (if r = 0 then (if fl_idx s + 1 \<ge> length nalus then 0 else fl_idx s + 1) else fl_idx s)"
    with short show ?thesis by (simp add: send_h265_nalu_rtp_def)
  qed
qed

interpretation file_player: nalu_player file_rtp_sender_step file_rtp_sender_loop RTP_TS_STEP
proof unfold_locales
  fix R N and nalus :: "bytes list" and s :: file_sender
  assume "quiet R" "target_ready (fl_shared s)" "net_accepts N" "fl_idx s < length nalus" "2 \<le> length (nalus ! fl_idx s)"
  from file_step_calm [OF this] show "\<exists>s'. file_rtp_sender_step R N nalus s = Some s' \<and>
      sh_session (fl_shared s') = sh_session (fl_shared s) \<and>
      fl_idx s' = (fl_idx s + 1) mod length nalus \<and> fl_timestamp s' = fl_timestamp s + RTP_TS_STEP \<and>
      fl_seq s' = fl_seq s + of_nat (length (nalu_plan (Some (nalus ! fl_idx s)) 1)) \<and>
      udp_sent (fl_udp s') = udp_sent (fl_udp s) @ numbered (se_client_addr (sh_session (fl_shared s)))
        (fl_timestamp s) FILE_SSRC (fl_seq s) (nalu_plan (Some (nalus ! fl_idx s)) 1)" by metis
qed (simp_all add: file_step_short)

section \<open>Properties\<close>

definition demo_file_sender :: file_sender where
  "demo_file_sender = file_sender_init \<lparr>udp_calls = 0, udp_sent = []\<rparr>
     \<lparr>sh_session = session_play (session_setup \<lparr>sin_family = 2, sin_port = 9, sin_addr = 7\<rparr> 5000 session_init),
      sh_locks = 0\<rparr>"

text \<open>C40: A defect: a NALU of one byte, which \<open>load_annexb_nalus\<close> does put into the table, is refused by
  \<open>send_h265_nalu_rtp\<close>, and the loop tries it again for ever: playback stops at that NALU.\<close>

theorem file_sender_stuck:
  assumes "fl_idx s < length nalus" and "length (nalus ! fl_idx s) < 2"
    and "file_rtp_sender_loop R N nalus n s = Some s'"
  shows "fl_idx s' = fl_idx s \<and> udp_sent (fl_udp s') = udp_sent (fl_udp s)"
  using file_player.loop_stuck [OF assms(3,1,2)] by simp

theorem file_sender_stuck_witness:
  "\<exists>s'. file_rtp_sender_loop (\<lambda>_ g. g) (\<lambda>_ _. 1) [[9], [38, 1]] 1 demo_file_sender = Some s' \<and> fl_idx s' = 0"
proof -
  have r: "target_ready (fl_shared demo_file_sender)" and i: "fl_idx demo_file_sender = 0"
    by (simp_all add: target_ready_def demo_file_sender_def file_sender_init_def session_play_def session_setup_def)
  have q: "quiet (\<lambda>_ g. g)" by (simp add: quiet_def)
  obtain sh' where w: "wait_for_rtsp_play (\<lambda>_ g. g) (fl_shared demo_file_sender) =
      Some (se_client_addr (sh_session (fl_shared demo_file_sender)), sh')"
    by (rule wait_quiet [OF q r])
  have "\<exists>s'. file_rtp_sender_loop (\<lambda>_ g. g) (\<lambda>_ _. 1) [[9], [38, 1]] 1 demo_file_sender = Some s'"
    by (simp add: file_rtp_sender_step_def w i send_h265_nalu_rtp_def)
  then obtain s' where s': "file_rtp_sender_loop (\<lambda>_ g. g) (\<lambda>_ _. 1) [[9], [38, 1]] 1 demo_file_sender = Some s'" ..
  from file_sender_stuck [OF _ _ s'] s' i show ?thesis by simp
qed

end
