(* ===== verification/Sockets.thy ===== *)
theory Sockets
  imports Net
begin

text \<open>
  Opening the two server sockets: \<open>create_udp_socket_only\<close> of \<open>src/rtp.c\<close>, from which the media is sent,
  and \<open>start_rtsp_server\<close> of \<open>src/rtsp.c\<close>. The answers of the socket calls are an environment; the
  state is the list of the calls made, in order.
\<close>

section \<open>State and operations\<close>

datatype sock_type = SOCK_STREAM | SOCK_DGRAM

datatype sock_call =
  Socket u16 sock_type
| Setsockopt_reuseaddr int
| Bind int sockaddr_in
| Listen int int
| Close int

record sock_env =
  sk_socket :: "sock_type \<Rightarrow> int"
  sk_bind :: "int \<Rightarrow> sockaddr_in \<Rightarrow> int"
  sk_listen :: "int \<Rightarrow> int"

definition RTP_SERVER_PORT :: int where "RTP_SERVER_PORT = 5004"
definition RTSP_PORT :: u16 where "RTSP_PORT = 554"
definition INADDR_ANY :: u32 where "INADDR_ANY = 0"

definition local_address :: "u16 \<Rightarrow> sockaddr_in" where
  "local_address port = \<lparr>sin_family = AF_INET, sin_port = htons port, sin_addr = INADDR_ANY\<rparr>"

definition create_udp_socket_only :: "sock_env \<Rightarrow> sock_call list \<Rightarrow> int \<times> sock_call list" where
  "create_udp_socket_only K tr =
     (let sock = sk_socket K SOCK_DGRAM; tr1 = tr @ [Socket AF_INET SOCK_DGRAM] in
      if sock < 0 then (-1, tr1)
      else
        let tr2 = tr1 @ [Setsockopt_reuseaddr sock];
            local_addr = local_address (of_int RTP_SERVER_PORT);
            tr3 = tr2 @ [Bind sock local_addr] in
        if sk_bind K sock local_addr < 0 then (-1, tr3 @ [Close sock])
        else (sock, tr3))"

definition start_rtsp_server :: "sock_env \<Rightarrow> sock_call list \<Rightarrow> int \<times> sock_call list" where
  "start_rtsp_server K tr =
     (let listen_fd = sk_socket K SOCK_STREAM; tr1 = tr @ [Socket AF_INET SOCK_STREAM] in
      if listen_fd < 0 then (-1, tr1)
      else
        let tr2 = tr1 @ [Setsockopt_reuseaddr listen_fd];
            listen_addr = local_address RTSP_PORT;
            tr3 = tr2 @ [Bind listen_fd listen_addr] in
        if sk_bind K listen_fd listen_addr < 0 then (-1, tr3 @ [Close listen_fd])
        else
          let tr4 = tr3 @ [Listen listen_fd 5] in
          if sk_listen K listen_fd < 0 then (-1, tr4 @ [Close listen_fd])
          else (listen_fd, tr4))"

section \<open>Descriptors in use\<close>

text \<open>Following a trace of calls: the descriptors that are open, with the address they are bound to.
  \<open>K\<close> tells which descriptor a \<open>socket\<close> call gave.\<close>

fun open_sockets :: "sock_env \<Rightarrow> sock_call list \<Rightarrow> (int \<rightharpoonup> sockaddr_in option) \<Rightarrow> (int \<rightharpoonup> sockaddr_in option)" where
  "open_sockets K [] m = m"
| "open_sockets K (Socket f ty # tr) m =
     open_sockets K tr (if sk_socket K ty < 0 then m else m(sk_socket K ty \<mapsto> None))"
| "open_sockets K (Bind fd a # tr) m =
     open_sockets K tr (if sk_bind K fd a < 0 \<or> fd \<notin> dom m then m else m(fd \<mapsto> Some a))"
| "open_sockets K (Close fd # tr) m = open_sockets K tr (m(fd := None))"
| "open_sockets K (Setsockopt_reuseaddr fd # tr) m = open_sockets K tr m"
| "open_sockets K (Listen fd n # tr) m = open_sockets K tr m"

lemma open_sockets_append: "open_sockets K (xs @ ys) m = open_sockets K ys (open_sockets K xs m)"
proof (induction xs arbitrary: m)
  case (Cons x xs)
  then show ?case by (cases x) (simp_all only: append_Cons open_sockets.simps)
qed simp

text \<open>A new descriptor is not in use.\<close>

definition fresh_socket :: "sock_env \<Rightarrow> sock_type \<Rightarrow> (int \<rightharpoonup> sockaddr_in option) \<Rightarrow> bool" where
  "fresh_socket K ty m \<longleftrightarrow> (0 \<le> sk_socket K ty \<longrightarrow> sk_socket K ty \<notin> dom m)"

lemma create_udp_socket_only_opens:
  assumes "fresh_socket K SOCK_DGRAM (open_sockets K tr m)" and "create_udp_socket_only K tr = (fd, tr')"
  shows "open_sockets K tr' m =
      (if fd < 0 then open_sockets K tr m
       else (open_sockets K tr m)(fd \<mapsto> Some (local_address (of_int RTP_SERVER_PORT)))) \<and>
    (fd < 0 \<longleftrightarrow> sk_socket K SOCK_DGRAM < 0 \<or>
       sk_bind K (sk_socket K SOCK_DGRAM) (local_address (of_int RTP_SERVER_PORT)) < 0)"
  using assms
  by (auto simp: create_udp_socket_only_def Let_def fresh_socket_def open_sockets_append fun_eq_iff domIff
      split: if_splits)

lemma start_rtsp_server_opens:
  assumes "fresh_socket K SOCK_STREAM (open_sockets K tr m)" and "start_rtsp_server K tr = (fd, tr')"
  shows "open_sockets K tr' m =
      (if fd < 0 then open_sockets K tr m else (open_sockets K tr m)(fd \<mapsto> Some (local_address RTSP_PORT))) \<and>
    (0 \<le> fd \<longrightarrow> (\<exists>tr0. tr' = tr0 @ [Listen fd 5]))"
  using assms
  by (auto simp: start_rtsp_server_def Let_def fresh_socket_def open_sockets_append fun_eq_iff domIff
      split: if_splits)

section \<open>Properties\<close>

text \<open>
  Opening a server socket leaks nothing: when the function returns a descriptor, this is the only
  one that is new, and it is bound to the port of the protocol (5004 for RTP, 554 for RTSP, where it
  also listens); when it fails, by an error of any of its calls, the open descriptors are those
  of before, and the first function fails only by an error of \<open>socket\<close> or \<open>bind\<close>.
\<close>

theorem server_sockets:
  assumes "\<forall>ty. fresh_socket K ty (open_sockets K tr m)"
  shows "(case create_udp_socket_only K tr of (fd, tr') \<Rightarrow>
      open_sockets K tr' m =
        (if fd < 0 then open_sockets K tr m else (open_sockets K tr m)(fd \<mapsto> Some (local_address 5004))) \<and>
      (fd < 0 \<longleftrightarrow> sk_socket K SOCK_DGRAM < 0 \<or> sk_bind K (sk_socket K SOCK_DGRAM) (local_address 5004) < 0)) \<and>
    (case start_rtsp_server K tr of (fd, tr') \<Rightarrow>
      open_sockets K tr' m =
        (if fd < 0 then open_sockets K tr m else (open_sockets K tr m)(fd \<mapsto> Some (local_address 554))) \<and>
      (fd < 0 \<or> (\<exists>tr0. tr' = tr0 @ [Listen fd 5])))"
  using create_udp_socket_only_opens [of K tr m] start_rtsp_server_opens [of K tr m] assms
  by (auto simp: RTP_SERVER_PORT_def RTSP_PORT_def not_less split: prod.splits)

theorem server_sockets_witness:
  "let K = \<lparr>sk_socket = (\<lambda>_. 3), sk_bind = (\<lambda>_ _. -1), sk_listen = (\<lambda>_. 0)\<rparr>
   in open_sockets K (snd (start_rtsp_server K [])) Map.empty = Map.empty"
  using server_sockets [of "\<lparr>sk_socket = (\<lambda>_. 3), sk_bind = (\<lambda>_ _. -1), sk_listen = (\<lambda>_. 0)\<rparr>" "[]" Map.empty]
  by (simp add: fresh_socket_def start_rtsp_server_def Let_def)

end
