(* ===== verification/Rtsp.thy ===== *)
theory Rtsp
  imports Session Text Rtp Sockets
begin

text \<open>
  The RTSP server side of a connection (\<open>src/rtsp.c\<close>): parsing of requests, the responses, and
  \<open>handle_rtsp_client\<close>. A C string is the list of its characters before the NUL.

  The TCP connection is two arguments of the model. What the client sends is a list of segments, which
  \<open>recv\<close> delivers one at a time, at most as much as the buffer holds; an empty segment, or the end of
  the list, is the end of the connection or an error. \<open>S\<close> answers the \<open>t\<close>-th call of \<open>send\<close> with
  the number of bytes it took or a number that is not positive. The sender thread's accesses to
  the session are the argument \<open>M\<close>, as \<open>R\<close> is for the sender in \<open>Session\<close>.
\<close>

section \<open>Sending\<close>

type_synonym send_env = "nat \<Rightarrow> string \<Rightarrow> int"

record rtsp_conn =
  rc_calls :: nat
  rc_out :: string
  rc_shared :: shared
  rc_signals :: nat

definition send :: "send_env \<Rightarrow> string \<Rightarrow> rtsp_conn \<Rightarrow> int \<times> rtsp_conn" where
  "send S data c =
     (let n = S (rc_calls c) data
      in (n, c\<lparr>rc_calls := rc_calls c + 1,
               rc_out := rc_out c @ (if n \<le> 0 then [] else take (nat n) data)\<rparr>))"

function send_all_loop :: "send_env \<Rightarrow> string \<Rightarrow> nat \<Rightarrow> rtsp_conn \<Rightarrow> int \<times> rtsp_conn" where
  "send_all_loop S data sent c =
     (if sent < length data then
        (case send S (drop sent data) c of
           (n, c1) \<Rightarrow> if n \<le> 0 then (-1, c1) else send_all_loop S data (sent + nat n) c1)
      else (0, c))"
  by pat_completeness auto
termination
  by (relation "measure (\<lambda>(S, data, sent, c). length data - sent)") auto

declare send_all_loop.simps [simp del]

definition send_all :: "send_env \<Rightarrow> string \<Rightarrow> rtsp_conn \<Rightarrow> int \<times> rtsp_conn" where
  "send_all S data c = send_all_loop S data 0 c"

section \<open>Parsing\<close>

record rtsp_request =
  rq_method :: string
  rq_url :: string
  rq_cseq :: int

text \<open>One \<open>%<w>s\<close> of \<open>sscanf\<close>: blanks are skipped, then at most \<open>w\<close> other characters are taken, at
  least one.\<close>

definition scan_word :: "nat \<Rightarrow> string \<Rightarrow> (string \<times> string) option" where
  "scan_word w s =
     (let t = dropWhile is_space s; word = take w (takeWhile (\<lambda>c. \<not> is_space c) t)
      in if word = [] then None else Some (word, drop (length word) t))"

definition parse_rtsp_request :: "string \<Rightarrow> rtsp_request option" where
  "parse_rtsp_request req =
     (case scan_word 31 req of
        None \<Rightarrow> None
      | Some (method, r1) \<Rightarrow>
          (case scan_word 255 r1 of
             None \<Rightarrow> None
           | Some (url, _) \<Rightarrow>
               let cseq_pos = (case strstr req ''CSeq:'' of None \<Rightarrow> strstr req ''Cseq:'' | Some p \<Rightarrow> Some p)
               in Some \<lparr>rq_method = method, rq_url = url,
                        rq_cseq = (case cseq_pos of None \<Rightarrow> 0 | Some p \<Rightarrow> atoi (drop 5 p))\<rparr>))"

definition parse_client_port :: "string \<Rightarrow> int" where
  "parse_client_port req =
     (case strstr req ''client_port='' of
        None \<Rightarrow> 0
      | Some p \<Rightarrow>
          let port = atoi (drop (length ''client_port='') p)
          in if port \<le> 0 \<or> port > 65535 then 0 else port)"

section \<open>Responses\<close>

definition RTCP_SERVER_PORT :: int where "RTCP_SERVER_PORT = 5005"
definition RTSP_SESSION_ID :: string where "RTSP_SESSION_ID = ''12345678''"

text \<open>\<open>snprintf\<close> into an array of \<open>n\<close> bytes, and the lines of a message, which end with CR LF.\<close>

definition snprintf :: "nat \<Rightarrow> string \<Rightarrow> string" where
  "snprintf n text = take (n - 1) text"

definition crlf :: string where "crlf = [CHR 0x0D, CHR 0x0A]"

fun crlf_lines :: "string list \<Rightarrow> string" where
  "crlf_lines [] = []"
| "crlf_lines (l # ls) = l @ crlf @ crlf_lines ls"

definition make_sdp :: "nat \<Rightarrow> string \<Rightarrow> string" where
  "make_sdp maxlen control_url =
     snprintf maxlen (crlf_lines
       [''v=0'',
        ''o=- 0 0 IN IP4 0.0.0.0'',
        ''s=H265 Stream'',
        ''c=IN IP4 0.0.0.0'',
        ''t=0 0'',
        ''a=control:*'',
        ''m=video 0 RTP/AVP '' @ decimal (unat RTP_PAYLOAD_TYPE),
        ''a=rtpmap:'' @ decimal (unat RTP_PAYLOAD_TYPE) @ '' H265/90000'',
        ''a=control:'' @ control_url @ ''/trackID=0''])"

definition send_options_response :: "send_env \<Rightarrow> int \<Rightarrow> rtsp_conn \<Rightarrow> rtsp_conn" where
  "send_options_response S cseq c =
     snd (send_all S (snprintf 512 (crlf_lines
       [''RTSP/1.0 200 OK'',
        ''CSeq: '' @ decimal_int cseq,
        ''Public: OPTIONS, DESCRIBE, SETUP, PLAY, TEARDOWN'',
        []])) c)"

definition send_describe_response :: "send_env \<Rightarrow> rtsp_request \<Rightarrow> rtsp_conn \<Rightarrow> rtsp_conn" where
  "send_describe_response S req c =
     (let sdp = make_sdp 1024 (rq_url req)
      in snd (send_all S (snprintf 2048 (crlf_lines
           [''RTSP/1.0 200 OK'',
            ''CSeq: '' @ decimal_int (rq_cseq req),
            ''Content-Type: application/sdp'',
            ''Content-Length: '' @ decimal (length sdp),
            []] @ sdp)) c))"

definition send_setup_response :: "send_env \<Rightarrow> int \<Rightarrow> int \<Rightarrow> rtsp_conn \<Rightarrow> rtsp_conn" where
  "send_setup_response S cseq client_rtp_port c =
     snd (send_all S (snprintf 512 (crlf_lines
       [''RTSP/1.0 200 OK'',
        ''CSeq: '' @ decimal_int cseq,
        ''Transport: RTP/AVP/UDP;unicast;client_port='' @ decimal_int client_rtp_port @ ''-'' @
          decimal_int (client_rtp_port + 1) @ '';server_port='' @ decimal_int RTP_SERVER_PORT @ ''-'' @
          decimal_int RTCP_SERVER_PORT,
        ''Session: '' @ RTSP_SESSION_ID,
        []])) c)"

definition send_play_response :: "send_env \<Rightarrow> int \<Rightarrow> rtsp_conn \<Rightarrow> rtsp_conn" where
  "send_play_response S cseq c =
     snd (send_all S (snprintf 512 (crlf_lines
       [''RTSP/1.0 200 OK'',
        ''CSeq: '' @ decimal_int cseq,
        ''Session: '' @ RTSP_SESSION_ID,
        ''Range: npt=0.000-'',
        []])) c)"

definition send_teardown_response :: "send_env \<Rightarrow> int \<Rightarrow> rtsp_conn \<Rightarrow> rtsp_conn" where
  "send_teardown_response S cseq c =
     snd (send_all S (snprintf 256 (crlf_lines
       [''RTSP/1.0 200 OK'',
        ''CSeq: '' @ decimal_int cseq,
        ''Session: '' @ RTSP_SESSION_ID,
        []])) c)"

definition send_error_response :: "send_env \<Rightarrow> int \<Rightarrow> int \<Rightarrow> string \<Rightarrow> rtsp_conn \<Rightarrow> rtsp_conn" where
  "send_error_response S cseq code reason c =
     snd (send_all S (snprintf 256 (crlf_lines
       [''RTSP/1.0 '' @ decimal_int code @ '' '' @ reason,
        ''CSeq: '' @ decimal_int cseq,
        []])) c)"

section \<open>The handler of a connection\<close>

text \<open>A critical section of the RTSP thread.\<close>

definition with_mutex :: "rtsp_env \<Rightarrow> (session \<Rightarrow> session) \<Rightarrow> rtsp_conn \<Rightarrow> rtsp_conn" where
  "with_mutex M f c =
     (let sh = lock_mutex M (rc_shared c) in c\<lparr>rc_shared := sh\<lparr>sh_session := f (sh_session sh)\<rparr>\<rparr>)"

text \<open>The text of a request in the buffer: what was received, up to the first NUL.\<close>

definition c_string :: "string \<Rightarrow> string" where
  "c_string buf = takeWhile (\<lambda>c. c \<noteq> CHR 0x00) buf"

text \<open>One round of the loop after \<open>recv\<close>; the first result is that the loop is left.\<close>

definition handle_request ::
  "send_env \<Rightarrow> rtsp_env \<Rightarrow> sockaddr_in \<Rightarrow> string \<Rightarrow> rtsp_conn \<Rightarrow> bool \<times> rtsp_conn" where
  "handle_request S M cli_addr req_buf c =
     (case parse_rtsp_request req_buf of
        None \<Rightarrow> (False, send_error_response S 0 400 ''Bad Request'' c)
      | Some req \<Rightarrow>
          if rq_method req = ''OPTIONS'' then (False, send_options_response S (rq_cseq req) c)
          else if rq_method req = ''DESCRIBE'' then (False, send_describe_response S req c)
          else if rq_method req = ''SETUP'' then
            (let client_port = parse_client_port req_buf
             in if client_port = 0 then
                  (False, send_error_response S (rq_cseq req) 461 ''Unsupported Transport'' c)
                else
                  (False, send_setup_response S (rq_cseq req) client_port
                            (with_mutex M (session_setup cli_addr client_port) c)))
          else if rq_method req = ''PLAY'' then
            (let c1 = with_mutex M session_play c
             in (False, send_play_response S (rq_cseq req) (c1\<lparr>rc_signals := rc_signals c1 + 1\<rparr>)))
          else if rq_method req = ''TEARDOWN'' then
            (True, send_teardown_response S (rq_cseq req) (with_mutex M session_stop c))
          else (False, send_error_response S (rq_cseq req) 405 ''Method Not Allowed'' c))"

text \<open>\<open>recv\<close> into at most \<open>n\<close> bytes; a longer segment is delivered in pieces.\<close>

fun recv :: "nat \<Rightarrow> string list \<Rightarrow> string \<times> string list" where
  "recv n [] = ([], [])"
| "recv n (seg # segs) = (take n seg, if length seg \<le> n then segs else drop n seg # segs)"

lemma recv_measure:
  "recv n segs = (buf, rest) \<Longrightarrow> buf \<noteq> [] \<Longrightarrow> sum_list (map length rest) < sum_list (map length segs)"
  by (cases segs) (auto split: if_splits)

function handle_rtsp_loop ::
  "send_env \<Rightarrow> rtsp_env \<Rightarrow> sockaddr_in \<Rightarrow> string list \<Rightarrow> rtsp_conn \<Rightarrow> rtsp_conn" where
  "handle_rtsp_loop S M cli_addr segs c =
     (case recv 2047 segs of
        (buf, rest) \<Rightarrow>
          if buf = [] then c
          else
            case handle_request S M cli_addr (c_string buf) c of
              (stop, c1) \<Rightarrow> if stop then c1 else handle_rtsp_loop S M cli_addr rest c1)"
  by pat_completeness auto
termination
  by (relation "measure (\<lambda>(S, M, cli, segs, c). sum_list (map length segs))") (auto dest: recv_measure [OF sym])

declare handle_rtsp_loop.simps [simp del]

definition handle_rtsp_client ::
  "send_env \<Rightarrow> rtsp_env \<Rightarrow> sockaddr_in \<Rightarrow> string list \<Rightarrow> rtsp_conn \<Rightarrow> rtsp_conn" where
  "handle_rtsp_client S M cli_addr segs c = with_mutex M session_stop (handle_rtsp_loop S M cli_addr segs c)"

section \<open>Sending everything\<close>

text \<open>The kernel takes at most what it is given; it takes something in every call.\<close>

definition send_sound :: "send_env \<Rightarrow> bool" where
  "send_sound S \<longleftrightarrow> (\<forall>t d. d \<noteq> [] \<longrightarrow> S t d \<le> int (length d))"

definition send_accepts :: "send_env \<Rightarrow> bool" where
  "send_accepts S \<longleftrightarrow> (\<forall>t d. d \<noteq> [] \<longrightarrow> 0 < S t d \<and> S t d \<le> int (length d))"

text \<open>\<open>c'\<close> is \<open>c\<close> after more bytes went out.\<close>

definition wrote :: "rtsp_conn \<Rightarrow> string \<Rightarrow> rtsp_conn \<Rightarrow> bool" where
  "wrote c text c' \<longleftrightarrow> rc_out c' = rc_out c @ text \<and> rc_shared c' = rc_shared c \<and> rc_signals c' = rc_signals c"

lemma wrote_refl [simp]: "wrote c [] c"
  by (simp add: wrote_def)

lemma wrote_trans: "wrote c x c1 \<Longrightarrow> wrote c1 y c2 \<Longrightarrow> wrote c (x @ y) c2"
  by (simp add: wrote_def)

lemma send_wrote:
  "send S d c = (n, c1) \<Longrightarrow> wrote c (if n \<le> 0 then [] else take (nat n) d) c1"
  by (auto simp: send_def wrote_def Let_def)

text \<open>Whatever the kernel does, an initial part of the text is sent, and all of it when 0 is returned.\<close>

lemma send_all_loop_prefix:
  assumes "sent \<le> length data" and "send_sound S"
  shows "\<exists>k. wrote c (take k (drop sent data)) (snd (send_all_loop S data sent c)) \<and>
    (fst (send_all_loop S data sent c) = 0 \<longrightarrow> length data - sent \<le> k)"
  using assms
proof (induction S data sent c rule: send_all_loop.induct)
  case (1 S data sent c)
  show ?case
  proof (cases "sent < length data")
    case False
    then show ?thesis by (subst (1 2) send_all_loop.simps) (auto intro: exI [of _ 0])
  next
    case True
    obtain n c1 where x: "send S (drop sent data) c = (n, c1)" by (cases "send S (drop sent data) c")
    note w = send_wrote [OF x]
    show ?thesis
    proof (cases "n \<le> 0")
      case True
      with \<open>sent < length data\<close> w x show ?thesis
        by (subst (1 2) send_all_loop.simps) (auto intro: exI [of _ 0])
    next
      case False
      have "S (rc_calls c) (drop sent data) \<le> int (length (drop sent data))"
        using 1(3) True unfolding send_sound_def by (metis drop_eq_Nil not_le)
      then have "n \<le> int (length data - sent)" using x by (auto simp: send_def Let_def)
      then have "sent + nat n \<le> length data" using True by linarith
      from 1(1) [OF True x [symmetric] False this 1(3)] obtain k
        where k: "wrote c1 (take k (drop (sent + nat n) data)) (snd (send_all_loop S data (sent + nat n) c1))"
          "fst (send_all_loop S data (sent + nat n) c1) = 0 \<longrightarrow> length data - (sent + nat n) \<le> k" by blast
      have "take (nat n) (drop sent data) @ take k (drop (sent + nat n) data) = take (nat n + k) (drop sent data)"
        by (simp only: take_add drop_drop add.commute [of "nat n" sent])
      with wrote_trans [OF w k(1)] False
      have "wrote c (take (nat n + k) (drop sent data)) (snd (send_all_loop S data (sent + nat n) c1))" by simp
      moreover have "send_all_loop S data sent c = send_all_loop S data (sent + nat n) c1"
        using True x False by (subst send_all_loop.simps) simp
      ultimately show ?thesis using k(2) by (intro exI [of _ "nat n + k"]) auto
    qed
  qed
qed

lemma send_all_loop_accepted:
  "send_accepts S \<Longrightarrow> fst (send_all_loop S data sent c) = 0"
proof (induction S data sent c rule: send_all_loop.induct)
  case (1 S data sent c)
  show ?case
  proof (cases "sent < length data")
    case True
    obtain n c1 where x: "send S (drop sent data) c = (n, c1)" by (cases "send S (drop sent data) c")
    then have n: "\<not> n \<le> 0" using 1(2) True by (auto simp: send_def send_accepts_def Let_def not_le)
    with 1(1) [OF True x [symmetric] n 1(2)] True x show ?thesis by (subst send_all_loop.simps) simp
  qed (subst send_all_loop.simps, simp)
qed

lemma send_accepts_sound: "send_accepts S \<Longrightarrow> send_sound S"
  by (simp add: send_accepts_def send_sound_def)

section \<open>What the client reads\<close>

text \<open>A reader of RTSP responses: the lines up to an empty one, then as many bytes as the line with the
  content length says.\<close>

fun read_line :: "string \<Rightarrow> (string \<times> string) option" where
  "read_line (c # d # s) =
     (if c = CHR 0x0D \<and> d = CHR 0x0A then Some ([], s)
      else map_option (\<lambda>(l, r). (c # l, r)) (read_line (d # s)))"
| "read_line _ = None"

lemma read_line_length: "read_line s = Some (l, r) \<Longrightarrow> length r < length s"
  by (induction s arbitrary: l rule: read_line.induct) (auto split: if_splits)

function read_lines :: "string \<Rightarrow> (string list \<times> string) option" where
  "read_lines s =
     (case read_line s of
        None \<Rightarrow> None
      | Some (l, r) \<Rightarrow>
          if l = [] then Some ([], r)
          else map_option (\<lambda>(ls, r'). (l # ls, r')) (read_lines r))"
  by pat_completeness auto
termination
  by (relation "measure length") (auto dest: read_line_length)

declare read_lines.simps [simp del]

definition content_length :: "string list \<Rightarrow> nat" where
  "content_length ls =
     (case find (prefix ''Content-Length: '') ls of None \<Rightarrow> 0 | Some l \<Rightarrow> number_of (drop 16 l))"

type_synonym response = "string list \<times> string"

definition read_response :: "string \<Rightarrow> (response \<times> string) option" where
  "read_response s =
     (case read_lines s of
        None \<Rightarrow> None
      | Some (ls, r) \<Rightarrow>
          let n = content_length ls in if length r < n then None else Some ((ls, take n r), drop n r))"

text \<open>The whole stream: \<open>reads s rs\<close> when \<open>s\<close> consists of the responses \<open>rs\<close> and nothing else.\<close>

fun reads :: "string \<Rightarrow> response list \<Rightarrow> bool" where
  "reads s [] \<longleftrightarrow> s = []"
| "reads s (x # xs) \<longleftrightarrow> (case read_response s of None \<Rightarrow> False | Some (y, r) \<Rightarrow> y = x \<and> reads r xs)"

definition render :: "response \<Rightarrow> string" where
  "render x = crlf_lines (fst x) @ crlf @ snd x"

definition line_ok :: "string \<Rightarrow> bool" where
  "line_ok l \<longleftrightarrow> l \<noteq> [] \<and> CHR 0x0D \<notin> set l"

definition response_ok :: "response \<Rightarrow> bool" where
  "response_ok x \<longleftrightarrow> list_all line_ok (fst x) \<and> content_length (fst x) = length (snd x)"

lemma read_line_app: "CHR 0x0D \<notin> set l \<Longrightarrow> read_line (l @ crlf @ s) = Some (l, s)"
proof (induction l)
  case (Cons c l)
  then show ?case by (cases "l @ crlf @ s") (auto simp: crlf_def)
qed (simp add: crlf_def)

lemma read_lines_app:
  "list_all line_ok ls \<Longrightarrow> read_lines (crlf_lines ls @ crlf @ s) = Some (ls, s)"
proof (induction ls)
  case Nil
  then show ?case using read_line_app [of "[]" s] by (subst read_lines.simps) simp
next
  case (Cons l ls)
  then show ?case by (subst read_lines.simps) (simp add: read_line_app line_ok_def)
qed

lemma read_response_render: "response_ok x \<Longrightarrow> read_response (render x @ s) = Some (x, s)"
  by (cases x) (simp add: read_response_def render_def response_ok_def read_lines_app)

lemma reads_render:
  "list_all response_ok xs \<Longrightarrow> reads (concat (map render xs)) xs"
  by (induction xs) (simp_all add: read_response_render)

lemma crlf_lines_append: "crlf_lines (xs @ ys) = crlf_lines xs @ crlf_lines ys"
  by (induction xs) simp_all

section \<open>The reply to a request\<close>

text \<open>The description of the stream, not cut off.\<close>

definition sdp_of :: "string \<Rightarrow> string" where
  "sdp_of url = crlf_lines
     [''v=0'', ''o=- 0 0 IN IP4 0.0.0.0'', ''s=H265 Stream'', ''c=IN IP4 0.0.0.0'', ''t=0 0'', ''a=control:*'',
      ''m=video 0 RTP/AVP 96'', ''a=rtpmap:96 H265/90000'', ''a=control:'' @ url @ ''/trackID=0'']"

definition status_of :: "string \<Rightarrow> string" where
  "status_of req_buf =
     (case parse_rtsp_request req_buf of
        None \<Rightarrow> ''RTSP/1.0 400 Bad Request''
      | Some req \<Rightarrow>
          if rq_method req = ''SETUP'' \<and> parse_client_port req_buf = 0 then ''RTSP/1.0 461 Unsupported Transport''
          else if rq_method req \<in> {''OPTIONS'', ''DESCRIBE'', ''SETUP'', ''PLAY'', ''TEARDOWN''} then ''RTSP/1.0 200 OK''
          else ''RTSP/1.0 405 Method Not Allowed'')"

definition cseq_of :: "string \<Rightarrow> int" where
  "cseq_of req_buf = (case parse_rtsp_request req_buf of None \<Rightarrow> 0 | Some req \<Rightarrow> rq_cseq req)"

definition body_of :: "string \<Rightarrow> string" where
  "body_of req_buf =
     (case parse_rtsp_request req_buf of
        None \<Rightarrow> []
      | Some req \<Rightarrow> if rq_method req = ''DESCRIBE'' then sdp_of (rq_url req) else [])"

text \<open>\<open>x\<close> is an answer to the request in \<open>req_buf\<close>: the status, then its \<open>CSeq\<close>, the body.\<close>

definition answers :: "string \<Rightarrow> response \<Rightarrow> bool" where
  "answers req_buf x \<longleftrightarrow>
     take 2 (fst x) = [status_of req_buf, ''CSeq: '' @ decimal_int (cseq_of req_buf)] \<and>
     snd x = body_of req_buf \<and> response_ok x"

section \<open>Lengths\<close>

lemma length_decimal_int: "- (2 ^ 31) \<le> i \<Longrightarrow> i < 2 ^ 31 \<Longrightarrow> length (decimal_int i) \<le> 11"
  using length_decimal_le [of "nat i" 10] length_decimal_le [of "nat (- i)" 10]
  by (cases "i < 0") (auto simp: decimal_int_def nat_less_iff)

lemma atoi_bounds: "- (2 ^ 31) \<le> atoi s \<and> atoi s < 2 ^ 31"
  using sint_greater_eq [of "word_of_int (strtol10 s) :: 32 word"] sint_less [of "word_of_int (strtol10 s) :: 32 word"]
  by (simp add: atoi_def)

lemma decimal_int_digits: "c \<in> set (decimal_int i) \<Longrightarrow> c \<noteq> CHR 0x0D"
  using decimal_digits [of "nat i"] decimal_digits [of "nat (- i)"]
  by (auto simp: decimal_int_def list_all_iff is_digit_def split: if_splits)

lemma scan_word_Some:
  "scan_word w s = Some (word, r) \<Longrightarrow>
     word \<noteq> [] \<and> length word \<le> w \<and> list_all (\<lambda>c. \<not> is_space c) word \<and> set word \<subseteq> set s"
  by (auto simp: scan_word_def Let_def list_all_iff dest!: in_set_takeD set_takeWhileD dest: set_dropWhileD
      split: if_splits)

lemma parse_rtsp_request_Some:
  assumes "parse_rtsp_request buf = Some req"
  shows "length (rq_url req) \<le> 255" and "CHR 0x0D \<notin> set (rq_url req)"
    and "- (2 ^ 31) \<le> rq_cseq req" and "rq_cseq req < 2 ^ 31"
proof -
  obtain m r1 u r2 where s: "scan_word 255 r1 = Some (u, r2)" and "rq_url req = u"
    using assms by (auto simp: parse_rtsp_request_def Let_def split: option.splits)
  moreover have "is_space (CHR 0x0D)" by (simp add: is_space_def)
  ultimately show "length (rq_url req) \<le> 255" "CHR 0x0D \<notin> set (rq_url req)"
    using scan_word_Some [OF s] by (auto simp: list_all_iff)
  show "- (2 ^ 31) \<le> rq_cseq req" "rq_cseq req < 2 ^ 31"
    using assms atoi_bounds by (auto simp: parse_rtsp_request_def Let_def split: option.splits)
qed

lemma parse_client_port_bounds: "0 \<le> parse_client_port buf \<and> parse_client_port buf \<le> 65535"
  by (auto simp: parse_client_port_def Let_def split: option.splits)

lemma length_sdp_of: "length (sdp_of url) = 150 + length url"
  by (simp add: sdp_of_def crlf_def)

lemma make_sdp_fits: "length url \<le> 255 \<Longrightarrow> make_sdp 1024 url = sdp_of url"
proof -
  assume u: "length url \<le> 255"
  have "decimal (unat RTP_PAYLOAD_TYPE) = ''96''"
    by code_simp
  then have "make_sdp 1024 url = snprintf 1024 (sdp_of url)"
    by (simp add: make_sdp_def sdp_of_def)
  then show ?thesis using u by (simp add: snprintf_def length_sdp_of)
qed

section \<open>The replies are sent\<close>

lemma reply_wrote:
  assumes "send_accepts S" and "length text < n"
  shows "wrote c text (snd (send_all S (snprintf n text) c))"
proof -
  from send_all_loop_prefix [OF _ send_accepts_sound [OF assms(1)], of 0 "text" c] send_all_loop_accepted [OF assms(1)]
  obtain k where "wrote c (take k text) (snd (send_all_loop S text 0 c))" "length text \<le> k" by auto
  then show ?thesis using assms(2) by (simp add: send_all_def snprintf_def)
qed

text \<open>\<open>replies buf c c'\<close>: from \<open>c\<close> to \<open>c'\<close> an answer to \<open>buf\<close> went out, complete.\<close>

definition replies :: "string \<Rightarrow> rtsp_conn \<Rightarrow> rtsp_conn \<Rightarrow> bool" where
  "replies buf c c' \<longleftrightarrow> (\<exists>x. answers buf x \<and> rc_out c' = rc_out c @ render x)"

lemma plain_reply:
  assumes "send_accepts S" and "ls = status_of buf # (''CSeq: '' @ decimal_int (cseq_of buf)) # ls'"
    and "list_all line_ok ls" and "content_length ls = 0" and "length (crlf_lines ls) + 2 < n" and "body_of buf = []"
  shows "replies buf c (snd (send_all S (snprintf n (crlf_lines (ls @ [[]]))) c))"
  using assms(2-) reply_wrote [OF assms(1), of "crlf_lines (ls @ [[]])" n c] unfolding replies_def
  by (intro exI [of _ "(ls, [])"]) (simp add: answers_def response_ok_def render_def wrote_def crlf_lines_append crlf_def)

lemma replies_mutex: "replies buf (with_mutex M f c) c' = replies buf c c'"
  by (simp add: replies_def with_mutex_def Let_def)

lemma replies_signals [simp]: "replies buf (c\<lparr>rc_signals := n\<rparr>) c' = replies buf c c'"
  by (simp add: replies_def)

lemma error_reply:
  assumes "send_accepts S" and "status_of buf = ''RTSP/1.0 '' @ decimal_int code @ '' '' @ reason"
    and "length (status_of buf) < 200" and "line_ok (status_of buf)" and "body_of buf = []"
    and "length (decimal_int (cseq_of buf)) \<le> 11"
  shows "replies buf c (send_error_response S (cseq_of buf) code reason c)"
proof -
  have "line_ok (''CSeq: '' @ decimal_int (cseq_of buf))"
    using decimal_int_digits by (auto simp: line_ok_def)
  with plain_reply [OF assms(1), of "[status_of buf, ''CSeq: '' @ decimal_int (cseq_of buf)]" buf "[]" 256 c]
    assms(2-6) show ?thesis
    by (simp add: send_error_response_def content_length_def crlf_def)
qed

lemma describe_reply:
  assumes S: "send_accepts S" and req: "parse_rtsp_request buf = Some req" and m: "rq_method req = ''DESCRIBE''"
  shows "replies buf c (send_describe_response S req c)"
proof -
  note r = parse_rtsp_request_Some [OF req]
  let ?sdp = "sdp_of (rq_url req)"
  let ?ls = "[''RTSP/1.0 200 OK'', ''CSeq: '' @ decimal_int (rq_cseq req), ''Content-Type: application/sdp'',
    ''Content-Length: '' @ decimal (length ?sdp)]"
  have "\<forall>c \<in> set (decimal n). c \<noteq> CHR 0x0D" for n
    using decimal_digits [of n] by (auto simp: list_all_iff is_digit_def)
  then have "list_all line_ok ?ls" using decimal_int_digits by (auto simp: line_ok_def)
  moreover have "content_length ?ls = length ?sdp"
    by (simp add: content_length_def number_of_decimal)
  ultimately have "answers buf (?ls, ?sdp)"
    by (simp add: answers_def response_ok_def status_of_def cseq_of_def body_of_def req m)
  moreover have "length (decimal (length ?sdp)) \<le> 4"
    using r(1) by (intro length_decimal_le) (simp_all add: length_sdp_of)
  then have "length (render (?ls, ?sdp)) < 2048"
    using length_decimal_int [OF r(3,4)] r(1) by (simp add: render_def crlf_def length_sdp_of)
  then have "wrote c (render (?ls, ?sdp)) (send_describe_response S req c)"
    using reply_wrote [OF S, of "render (?ls, ?sdp)" 2048 c]
    by (simp add: send_describe_response_def make_sdp_fits [OF r(1)] render_def Let_def)
  ultimately show ?thesis unfolding replies_def wrote_def by blast
qed

lemma setup_reply:
  assumes S: "send_accepts S" and req: "parse_rtsp_request buf = Some req"
    and m: "rq_method req = ''SETUP''" and p: "parse_client_port buf \<noteq> 0"
  shows "replies buf c (send_setup_response S (rq_cseq req) (parse_client_port buf) c)"
proof -
  note r = parse_rtsp_request_Some [OF req]
  let ?p = "parse_client_port buf"
  let ?tr = "''Transport: RTP/AVP/UDP;unicast;client_port='' @ decimal_int ?p @ ''-'' @
    decimal_int (?p + 1) @ '';server_port='' @ decimal_int RTP_SERVER_PORT @ ''-'' @ decimal_int RTCP_SERVER_PORT"
  have len: "length (decimal_int i) \<le> 11" if "0 \<le> i" "i \<le> 65536" for i
    using length_decimal_int [of i] that by simp
  have "line_ok ?tr" "line_ok (''CSeq: '' @ decimal_int (rq_cseq req))" "line_ok (''Session: '' @ RTSP_SESSION_ID)"
    using decimal_int_digits by (auto simp: line_ok_def RTSP_SESSION_ID_def)
  moreover have "length (decimal_int ?p) \<le> 11" "length (decimal_int (?p + 1)) \<le> 11"
    "length (decimal_int RTP_SERVER_PORT) \<le> 11" "length (decimal_int RTCP_SERVER_PORT) \<le> 11"
    "length (decimal_int (rq_cseq req)) \<le> 11"
    using parse_client_port_bounds [of buf] length_decimal_int [OF r(3,4)]
    by (auto intro!: len simp: RTP_SERVER_PORT_def RTCP_SERVER_PORT_def)
  ultimately show ?thesis
    using plain_reply [OF S, of "[''RTSP/1.0 200 OK'', ''CSeq: '' @ decimal_int (rq_cseq req), ?tr,
        ''Session: '' @ RTSP_SESSION_ID]" buf _ 512 c] req m p
    by (simp add: send_setup_response_def status_of_def body_of_def cseq_of_def line_ok_def
        content_length_def crlf_def RTSP_SESSION_ID_def)
qed

text \<open>The responses that carry nothing but the CSeq.\<close>

lemma cseq_line:
  assumes "parse_rtsp_request buf = Some req"
  shows "line_ok (''CSeq: '' @ decimal_int (rq_cseq req))" and "length (decimal_int (rq_cseq req)) \<le> 11"
    and "cseq_of buf = rq_cseq req"
  using parse_rtsp_request_Some [OF assms] length_decimal_int decimal_int_digits assms
  by (auto simp: line_ok_def cseq_of_def)

lemma options_reply:
  assumes "send_accepts S" and "parse_rtsp_request buf = Some req" and "rq_method req = ''OPTIONS''"
  shows "replies buf c (send_options_response S (rq_cseq req) c)"
  using plain_reply [OF assms(1), of "[''RTSP/1.0 200 OK'', ''CSeq: '' @ decimal_int (rq_cseq req),
        ''Public: OPTIONS, DESCRIBE, SETUP, PLAY, TEARDOWN'']" buf _ 512 c] assms(2,3) cseq_line [OF assms(2)]
  by (simp add: send_options_response_def status_of_def body_of_def line_ok_def content_length_def crlf_def)

lemma play_reply:
  assumes "send_accepts S" and "parse_rtsp_request buf = Some req" and "rq_method req = ''PLAY''"
  shows "replies buf c (send_play_response S (rq_cseq req) c)"
  using plain_reply [OF assms(1), of "[''RTSP/1.0 200 OK'', ''CSeq: '' @ decimal_int (rq_cseq req),
        ''Session: '' @ RTSP_SESSION_ID, ''Range: npt=0.000-'']" buf _ 512 c] assms(2,3) cseq_line [OF assms(2)]
  by (simp add: send_play_response_def status_of_def body_of_def line_ok_def content_length_def crlf_def
      RTSP_SESSION_ID_def)

lemma teardown_reply:
  assumes "send_accepts S" and "parse_rtsp_request buf = Some req" and "rq_method req = ''TEARDOWN''"
  shows "replies buf c (send_teardown_response S (rq_cseq req) c)"
  using plain_reply [OF assms(1), of "[''RTSP/1.0 200 OK'', ''CSeq: '' @ decimal_int (rq_cseq req),
        ''Session: '' @ RTSP_SESSION_ID]" buf _ 256 c] assms(2,3) cseq_line [OF assms(2)]
  by (simp add: send_teardown_response_def status_of_def body_of_def line_ok_def content_length_def crlf_def
      RTSP_SESSION_ID_def)

lemma handle_request_replies:
  assumes S: "send_accepts S"
  shows "replies buf c (snd (handle_request S M cli buf c))"
proof (cases "parse_rtsp_request buf")
  case None
  have "decimal 400 = ''400''" "decimal 0 = ''0''" by code_simp+
  with None error_reply [OF S, of buf 400 "''Bad Request''" c] show ?thesis
    by (simp add: handle_request_def decimal_int_def status_of_def cseq_of_def body_of_def line_ok_def)
next
  case (Some req)
  note line = cseq_line [OF Some]
  have d: "decimal 461 = ''461''" "decimal 405 = ''405''" by code_simp+
  let ?set_up = "with_mutex M (session_setup cli (parse_client_port buf)) c"
    and ?play = "(with_mutex M session_play c)\<lparr>rc_signals := rc_signals (with_mutex M session_play c) + 1\<rparr>"
    and ?stop = "with_mutex M session_stop c"
  consider "rq_method req = ''OPTIONS''" | "rq_method req = ''DESCRIBE''"
    | "rq_method req = ''SETUP''" "parse_client_port buf = 0" | "rq_method req = ''SETUP''" "parse_client_port buf \<noteq> 0"
    | "rq_method req = ''PLAY''" | "rq_method req = ''TEARDOWN''"
    | "rq_method req \<notin> {''OPTIONS'', ''DESCRIBE'', ''SETUP'', ''PLAY'', ''TEARDOWN''}" by blast
  then show ?thesis
  proof cases
    case 1
    with options_reply [OF S Some] Some show ?thesis by (simp add: handle_request_def)
  next
    case 2
    with describe_reply [OF S Some] Some show ?thesis by (simp add: handle_request_def)
  next
    case 3
    with error_reply [OF S, of buf 461 "''Unsupported Transport''" c] Some d line show ?thesis
      by (simp add: handle_request_def decimal_int_def status_of_def body_of_def line_ok_def)
  next
    case 4
    with setup_reply [OF S Some 4, of ?set_up] Some show ?thesis
      by (simp add: handle_request_def Let_def replies_mutex)
  next
    case 5
    with play_reply [OF S Some, of ?play] Some show ?thesis by (simp add: handle_request_def Let_def replies_mutex)
  next
    case 6
    with teardown_reply [OF S Some, of ?stop] Some show ?thesis by (simp add: handle_request_def replies_mutex)
  next
    case 7
    with error_reply [OF S, of buf 405 "''Method Not Allowed''" c] Some d line show ?thesis
      by (simp add: handle_request_def decimal_int_def status_of_def body_of_def line_ok_def)
  qed
qed

section \<open>The session\<close>

text \<open>What one client may do to the session, and what the sender thread does to it in between.\<close>

inductive client_step :: "sockaddr_in \<Rightarrow> session \<Rightarrow> session \<Rightarrow> bool" for cli :: sockaddr_in where
  client_setup: "0 < port \<Longrightarrow> port \<le> 65535 \<Longrightarrow> client_step cli g (session_setup cli port g)"
| client_play: "client_step cli g (session_play g)"
| client_stop: "client_step cli g (session_stop g)"
| sender_clears: "client_step cli g (g\<lparr>se_need_parameter_sets := False\<rparr>)"

inductive_cases client_stepE: "client_step cli g g'"

definition sender_only :: "rtsp_env \<Rightarrow> bool" where
  "sender_only M \<longleftrightarrow> (\<forall>t g. M t g = g \<or> M t g = g\<lparr>se_need_parameter_sets := False\<rparr>)"

definition conn_session :: "rtsp_conn \<Rightarrow> session" where
  "conn_session c = sh_session (rc_shared c)"

lemma session_play_sender: "sender_only M \<Longrightarrow> session_play (M t g) = session_play g"
  unfolding sender_only_def session_play_def by (erule allE [of _ t], erule allE [of _ g]) auto

lemma conn_session_with_mutex:
  "conn_session (with_mutex M f c) = f (M (sh_locks (rc_shared c)) (conn_session c))"
  by (simp add: conn_session_def with_mutex_def lock_mutex_def Let_def)

lemma send_all_loop_frame:
  "rc_shared (snd (send_all_loop S data sent c)) = rc_shared c \<and> rc_signals (snd (send_all_loop S data sent c)) = rc_signals c"
proof (induction S data sent c rule: send_all_loop.induct)
  case (1 S data sent c)
  then show ?case
    by (subst (1 2) send_all_loop.simps) (auto simp: send_def Let_def)
qed

lemma send_all_frame [simp]:
  "rc_shared (snd (send_all S t c)) = rc_shared c" "rc_signals (snd (send_all S t c)) = rc_signals c"
  using send_all_loop_frame by (simp_all add: send_all_def)

lemmas response_defs = send_options_response_def send_describe_response_def send_setup_response_def
  send_play_response_def send_teardown_response_def send_error_response_def

lemma response_session [simp]:
  "conn_session (send_options_response S q c) = conn_session c"
  "conn_session (send_describe_response S req c) = conn_session c"
  "conn_session (send_setup_response S q p c) = conn_session c"
  "conn_session (send_play_response S q c) = conn_session c"
  "conn_session (send_teardown_response S q c) = conn_session c"
  "conn_session (send_error_response S q code reason c) = conn_session c"
  by (simp_all add: conn_session_def response_defs Let_def)

lemma response_signals [simp]:
  "rc_signals (send_setup_response S q p c) = rc_signals c"
  "rc_signals (send_play_response S q c) = rc_signals c"
  by (simp_all add: response_defs)

lemma conn_session_signals [simp]: "conn_session (c\<lparr>rc_signals := n\<rparr>) = conn_session c"
  by (simp add: conn_session_def)

text \<open>A critical section that does a step of the client.\<close>

lemma with_mutex_steps:
  assumes "sender_only M" and "\<And>g. client_step cli g (f g)"
  shows "(client_step cli)\<^sup>*\<^sup>* (conn_session c) (conn_session (with_mutex M f c))"
proof -
  let ?g = "M (sh_locks (rc_shared c)) (conn_session c)"
  have "(client_step cli)\<^sup>*\<^sup>* (conn_session c) ?g"
    using assms(1) sender_clears [of cli "conn_session c"] unfolding sender_only_def
    by (metis r_into_rtranclp rtranclp.rtrancl_refl)
  then show ?thesis unfolding conn_session_with_mutex using assms(2) [of ?g] by (rule rtranclp.rtrancl_into_rtrancl)
qed

lemma handle_request_steps:
  assumes "sender_only M"
  shows "(client_step cli)\<^sup>*\<^sup>* (conn_session c) (conn_session (snd (handle_request S M cli buf c)))"
proof (cases "parse_rtsp_request buf")
  case (Some req)
  have "(client_step cli)\<^sup>*\<^sup>* (conn_session c)
      (conn_session (with_mutex M (session_setup cli (parse_client_port buf)) c))" if "parse_client_port buf \<noteq> 0"
    using that parse_client_port_bounds [of buf] by (intro with_mutex_steps [OF assms] client_setup) auto
  with Some show ?thesis
    by (auto simp: handle_request_def Let_def intro: with_mutex_steps [OF assms] client_play client_stop)
qed (simp add: handle_request_def)

lemma handle_rtsp_loop_steps:
  assumes "sender_only M"
  shows "(client_step cli)\<^sup>*\<^sup>* (conn_session c) (conn_session (handle_rtsp_loop S M cli segs c))"
  using assms
proof (induction S M cli segs c rule: handle_rtsp_loop.induct)
  case (1 S M cli segs c)
  obtain buf rest where r: "recv 2047 segs = (buf, rest)" by (cases "recv 2047 segs")
  obtain stop c1 where h: "handle_request S M cli (c_string buf) c = (stop, c1)"
    by (cases "handle_request S M cli (c_string buf) c")
  show ?case
  proof (cases "buf = []")
    case True
    with r show ?thesis by (subst handle_rtsp_loop.simps) simp
  next
    case False
    have a: "(client_step cli)\<^sup>*\<^sup>* (conn_session c) (conn_session c1)"
      using handle_request_steps [OF 1(2), of cli c S "c_string buf"] h by simp
    show ?thesis
    proof (cases stop)
      case True
      with a r h False show ?thesis by (subst handle_rtsp_loop.simps) simp
    next
      case nstop: False
      from 1(1) [OF r [symmetric] False h [symmetric] nstop 1(2)] a r h False nstop show ?thesis
        by (subst handle_rtsp_loop.simps) simp
    qed
  qed
qed

lemma client_steps_addr:
  assumes "(client_step cli)\<^sup>*\<^sup>* g g'"
  shows "se_client_addr g' = se_client_addr g \<and> se_client_addr_set g' = se_client_addr_set g \<or>
    se_client_addr_set g' \<and> sin_addr (se_client_addr g') = sin_addr cli \<and>
    sin_family (se_client_addr g') = sin_family cli"
  using assms
  by (induction rule: rtranclp_induct)
    (auto elim!: client_stepE simp: session_setup_def session_play_def session_stop_def)

lemma client_step_inv: "client_step cli g g' \<Longrightarrow> session_inv g \<Longrightarrow> session_inv g'"
  by (erule client_stepE) (auto intro: session_step_inv step_setup step_play step_stop, simp add: session_inv_def)

lemma client_steps_inv:
  "(client_step cli)\<^sup>*\<^sup>* g g' \<Longrightarrow> session_inv g \<Longrightarrow> session_inv g'"
  by (induction rule: rtranclp_induct) (blast dest: client_step_inv)+

lemma handle_rtsp_client_session:
  assumes "sender_only M" and "session_inv (conn_session c)"
  shows "let g = conn_session c; g' = conn_session (handle_rtsp_client S M cli segs c)
    in (client_step cli)\<^sup>*\<^sup>* g g' \<and> \<not> se_play g' \<and> session_inv g' \<and>
       (se_client_addr g' = se_client_addr g \<or> sin_addr (se_client_addr g') = sin_addr cli)"
proof -
  let ?g = "conn_session c" and ?g' = "conn_session (handle_rtsp_client S M cli segs c)"
  have "(client_step cli)\<^sup>*\<^sup>* (conn_session (handle_rtsp_loop S M cli segs c)) ?g'"
    unfolding handle_rtsp_client_def by (rule with_mutex_steps [OF assms(1) client_stop])
  with handle_rtsp_loop_steps [OF assms(1)] have steps: "(client_step cli)\<^sup>*\<^sup>* ?g ?g'" by (rule rtranclp_trans)
  moreover have "\<not> se_play ?g'"
    by (simp add: handle_rtsp_client_def conn_session_with_mutex session_stop_def)
  ultimately show ?thesis using client_steps_addr [OF steps] client_steps_inv [OF steps assms(2)] by (simp add: Let_def) blast
qed

section \<open>The requests of a connection\<close>

definition is_teardown :: "string \<Rightarrow> bool" where
  "is_teardown buf \<longleftrightarrow> (case parse_rtsp_request buf of None \<Rightarrow> False | Some req \<Rightarrow> rq_method req = ''TEARDOWN'')"

lemma handle_request_stop: "fst (handle_request S M cli buf c) = is_teardown buf"
  by (auto simp: handle_request_def is_teardown_def Let_def split: option.splits)

text \<open>What the handler takes as requests: the texts that \<open>recv\<close> delivers, up to a TEARDOWN.\<close>

function requests_served :: "string list \<Rightarrow> string list" where
  "requests_served segs =
     (case recv 2047 segs of
        (buf, rest) \<Rightarrow>
          if buf = [] then []
          else c_string buf # (if is_teardown (c_string buf) then [] else requests_served rest))"
  by pat_completeness auto
termination
  by (relation "measure (\<lambda>segs. sum_list (map length segs))") (auto dest: recv_measure [OF sym])

declare requests_served.simps [simp del]

lemma handle_rtsp_loop_replies:
  assumes "send_accepts S"
  shows "\<exists>rs. rc_out (handle_rtsp_loop S M cli segs c) = rc_out c @ concat (map render rs) \<and>
    list_all2 answers (requests_served segs) rs"
  using assms
proof (induction S M cli segs c rule: handle_rtsp_loop.induct)
  case (1 S M cli segs c)
  obtain buf rest where r: "recv 2047 segs = (buf, rest)" by (cases "recv 2047 segs")
  obtain stop c1 where h: "handle_request S M cli (c_string buf) c = (stop, c1)"
    by (cases "handle_request S M cli (c_string buf) c")
  then have t: "stop = is_teardown (c_string buf)" using handle_request_stop [of S M cli "c_string buf" c] by simp
  show ?case
  proof (cases "buf = []")
    case True
    with r show ?thesis by (subst handle_rtsp_loop.simps, subst requests_served.simps) (auto intro: exI [of _ "[]"])
  next
    case False
    obtain x where x: "answers (c_string buf) x" "rc_out c1 = rc_out c @ render x"
      using handle_request_replies [OF 1(2), of "c_string buf" c M cli] h by (auto simp: replies_def)
    show ?thesis
    proof (cases stop)
      case True
      with r h False t x show ?thesis
        by (subst handle_rtsp_loop.simps, subst requests_served.simps) (auto intro!: exI [of _ "[x]"])
    next
      case nstop: False
      from 1(1) [OF r [symmetric] False h [symmetric] nstop 1(2)] obtain rs
        where "rc_out (handle_rtsp_loop S M cli rest c1) = rc_out c1 @ concat (map render rs)"
          "list_all2 answers (requests_served rest) rs" by blast
      with r h False t x nstop show ?thesis
        by (subst handle_rtsp_loop.simps, subst requests_served.simps) (auto intro!: exI [of _ "x # rs"])
    qed
  qed
qed

section \<open>Well-formed requests\<close>

definition word_ok :: "nat \<Rightarrow> string \<Rightarrow> bool" where
  "word_ok w s \<longleftrightarrow> s \<noteq> [] \<and> length s \<le> w \<and> list_all (\<lambda>c. \<not> is_space c \<and> c \<noteq> CHR 0x00) s"

definition request_line :: "string \<Rightarrow> string \<Rightarrow> string" where
  "request_line method url = method @ '' '' @ url @ '' RTSP/1.0''"

definition request_text :: "string \<Rightarrow> string \<Rightarrow> nat \<Rightarrow> string list \<Rightarrow> string" where
  "request_text method url cseq headers =
     crlf_lines (request_line method url # (''CSeq: '' @ decimal cseq) # headers) @ crlf"

lemma strstr_app:
  assumes "\<not> sublist needle pre" and "needle \<noteq> []" and "hd needle \<notin> set (tl needle)"
  shows "strstr (pre @ needle @ s) needle = Some (needle @ s)"
  using assms(1)
proof (induction pre)
  case Nil
  then show ?case using assms(2) by (cases needle) simp_all
next
  case (Cons c cs)
  have "\<not> prefix needle (c # cs @ needle @ s)"
  proof
    assume "prefix needle (c # cs @ needle @ s)"
    then have "prefix needle ((c # cs) @ needle @ s)" by simp
    then consider "prefix needle (c # cs)" | us where "needle = (c # cs) @ us" "prefix us (needle @ s)"
      unfolding prefix_append by blast
    then show False
    proof cases
      case 1
      then show False using Cons.prems by (metis prefix_imp_sublist)
    next
      case (2 us)
      have "us \<noteq> []" using 2(1) Cons.prems by auto
      then have "hd us = hd needle" using assms(2) 2(2) by (cases us; cases needle) auto
      moreover have "hd us \<in> set (tl needle)" using 2(1) \<open>us \<noteq> []\<close> by simp
      ultimately show False using assms(3) by simp
    qed
  qed
  moreover have "\<not> sublist needle cs" using Cons.prems by (auto simp: sublist_Cons_right)
  ultimately show ?case using Cons.IH by simp
qed

lemma sublist_split:
  assumes "c \<notin> set needle"
  shows "sublist needle (a @ c # b) \<longleftrightarrow> sublist needle a \<or> sublist needle b"
  using assms
  by (auto simp: sublist_append sublist_Cons_right prefix_Cons suffix_def dest: set_mono_sublist)

lemma scan_word_app:
  assumes "word_ok w word" and "list_all is_space sp" and "rest = [] \<or> is_space (hd rest)"
  shows "scan_word w (sp @ word @ rest) = Some (word, rest)"
proof -
  have "dropWhile is_space (sp @ word @ rest) = word @ rest"
    using assms(1,2) by (cases word) (auto simp: word_ok_def dropWhile_append2 list_all_iff)
  moreover have "takeWhile (\<lambda>c. \<not> is_space c) (word @ rest) = word"
    using assms(1,3) by (cases rest) (auto simp: word_ok_def list_all_iff takeWhile_append2)
  ultimately show ?thesis using assms(1) by (cases w) (auto simp: scan_word_def word_ok_def)
qed

text \<open>A word without \<open>CSeq:\<close>, and without \<open>client_port=\<close>, inside.\<close>

definition no_keyword :: "string \<Rightarrow> bool" where
  "no_keyword s \<longleftrightarrow> \<not> sublist ''CSeq:'' s \<and> \<not> sublist ''client_port='' s"

lemma no_keyword_split:
  "no_keyword (a @ CHR '' '' # b) = (no_keyword a \<and> no_keyword b)"
  "no_keyword (a @ CHR 0x0D # b) = (no_keyword a \<and> no_keyword b)"
  by (auto simp: no_keyword_def sublist_split)

lemma no_keyword_decimal: "no_keyword (decimal n)"
proof -
  have "c \<notin> set (decimal n)" if "\<not> is_digit c" for c
    using that decimal_digits [of n] by (auto simp: list_all_iff)
  then have "CHR ''C'' \<notin> set (decimal n)" "CHR ''c'' \<notin> set (decimal n)" by (simp_all add: is_digit_def)
  then show ?thesis by (auto simp: no_keyword_def dest!: set_mono_sublist)
qed

lemma request_text_eq:
  "request_text method url cseq headers =
     (method @ CHR '' '' # url @ CHR '' '' # ''RTSP/1.0'' @ crlf) @ ''CSeq:'' @
     ('' '' @ decimal cseq @ crlf @ crlf_lines headers @ crlf)"
  by (simp add: request_text_def request_line_def)

lemma cseq_found:
  assumes "no_keyword method" and "no_keyword url"
  shows "strstr (request_text method url n hs) ''CSeq:'' =
    Some (''CSeq:'' @ '' '' @ decimal n @ crlf @ crlf_lines hs @ crlf)"
proof -
  have "no_keyword ''RTSP/1.0''" "no_keyword [CHR 0x0A]" by (simp_all add: no_keyword_def sublist_Cons_right)
  with assms have "no_keyword (method @ CHR '' '' # url @ CHR '' '' # ''RTSP/1.0'' @ crlf)"
    using no_keyword_split(2) [of "''RTSP/1.0''" "[CHR 0x0A]"] by (simp add: no_keyword_split crlf_def)
  then show ?thesis unfolding request_text_eq by (intro strstr_app) (simp_all add: no_keyword_def)
qed

text \<open>A well-formed request is understood: the parser gives back exactly its method, URL and number.\<close>

lemma parse_request_text:
  assumes "word_ok 31 method" and "word_ok 255 url" and "no_keyword method" and "no_keyword url" and "n < 2 ^ 31"
  shows "parse_rtsp_request (request_text method url n hs) = Some \<lparr>rq_method = method, rq_url = url, rq_cseq = int n\<rparr>"
proof -
  have sp: "is_space (CHR '' '')" by (simp add: is_space_def)
  let ?rest = "''RTSP/1.0'' @ crlf @ ''CSeq:'' @ '' '' @ decimal n @ crlf @ crlf_lines hs @ crlf"
  have "scan_word 31 (request_text method url n hs) = Some (method, CHR '' '' # url @ CHR '' '' # ?rest)"
    using scan_word_app [OF assms(1), of "[]" "CHR '' '' # url @ CHR '' '' # ?rest"] sp
    by (simp add: request_text_eq)
  moreover have "scan_word 255 (CHR '' '' # url @ CHR '' '' # ?rest) = Some (url, CHR '' '' # ?rest)"
    using scan_word_app [OF assms(2), of "[CHR '' '']" "CHR '' '' # ?rest"] sp by simp
  moreover have "atoi ('' '' @ decimal n @ crlf @ crlf_lines hs @ crlf) = int n"
    using sp by (intro atoi_decimal assms(5)) (simp_all add: crlf_def is_digit_def)
  ultimately show ?thesis
    by (simp add: parse_rtsp_request_def cseq_found [OF assms(3,4)] Let_def)
qed

definition setup_request :: "string \<Rightarrow> nat \<Rightarrow> nat \<Rightarrow> string" where
  "setup_request url cseq port = request_text ''SETUP'' url cseq
     [''Transport: RTP/AVP;unicast;client_port='' @ decimal port @ ''-'' @ decimal (port + 1)]"

definition play_request :: "string \<Rightarrow> nat \<Rightarrow> string" where
  "play_request url cseq = request_text ''PLAY'' url cseq [''Session: '' @ RTSP_SESSION_ID]"

lemma parse_setup_port:
  assumes "no_keyword url" and "0 < port" and "port \<le> 65535"
  shows "parse_client_port (setup_request url n port) = int port"
proof -
  let ?tail = "decimal port @ ''-'' @ decimal (port + 1) @ crlf @ crlf"
  let ?pre = "''SETUP'' @ CHR '' '' # url @ CHR '' '' # (''RTSP/1.0'' @ CHR 0x0D # (CHR 0x0A # ''CSeq'' @ '':'') @ CHR '' '' #
      decimal n @ CHR 0x0D # (CHR 0x0A # ''Transport:'') @ CHR '' '' # ''RTP/AVP;unicast;'')"
  have *: "setup_request url n port = ?pre @ ''client_port='' @ ?tail"
    by (simp add: setup_request_def request_text_def request_line_def crlf_def)
  have space: "sublist ''client_port='' (a @ CHR '' '' # b) \<longleftrightarrow> sublist ''client_port='' a \<or> sublist ''client_port='' b"
    and cr: "sublist ''client_port='' (a @ CHR 0x0D # b) \<longleftrightarrow> sublist ''client_port='' a \<or> sublist ''client_port='' b"
    for a b by (simp_all add: sublist_split)
  have "\<not> sublist ''client_port='' (decimal n)" using no_keyword_decimal [of n] by (simp add: no_keyword_def)
  then have "\<not> sublist ''client_port='' ?pre"
    using assms(1) unfolding no_keyword_def by (simp only: space cr) (simp add: sublist_Cons_right)
  then have "strstr (setup_request url n port) ''client_port='' = Some (''client_port='' @ ?tail)"
    unfolding * by (intro strstr_app) simp_all
  moreover have "atoi ([] @ ?tail) = int port"
    using assms(3) by (intro atoi_decimal) (simp_all add: is_digit_def)
  ultimately show ?thesis using assms(2,3) by (simp add: parse_client_port_def Let_def)
qed

lemma request_text_string:
  assumes "list_all (\<lambda>c. c \<noteq> CHR 0x00) (method @ url @ concat hs)"
  shows "c_string (request_text method url n hs) = request_text method url n hs"
proof -
  have "CHR 0x00 \<notin> set (decimal n)" using decimal_digits [of n] by (auto simp: list_all_iff is_digit_def)
  moreover have "CHR 0x00 \<notin> set (crlf_lines hs)" using assms by (induction hs) (auto simp: list_all_iff crlf_def)
  ultimately have "CHR 0x00 \<notin> set (request_text method url n hs)"
    using assms by (auto simp: request_text_def request_line_def list_all_iff crlf_def)
  then show ?thesis unfolding c_string_def by (intro takeWhile_eq_all_conv [THEN iffD2]) auto
qed

lemma decimal_no_nul: "list_all (\<lambda>c. c \<noteq> CHR 0x00) (decimal n)"
  using decimal_digits [of n] by (auto simp: list_all_iff is_digit_def)

lemma word_ok_no_nul: "word_ok w s \<Longrightarrow> list_all (\<lambda>c. c \<noteq> CHR 0x00) s"
  by (auto simp: word_ok_def list_all_iff)

lemma setup_request_fits:
  assumes "word_ok 255 url" and "n < 2 ^ 31" and "port \<le> 65535"
  shows "c_string (setup_request url n port) = setup_request url n port" and "length (setup_request url n port) \<le> 2047"
    and "setup_request url n port \<noteq> []"
proof -
  show "c_string (setup_request url n port) = setup_request url n port" unfolding setup_request_def
    by (rule request_text_string) (use decimal_no_nul word_ok_no_nul [OF assms(1)] in simp)
  show "length (setup_request url n port) \<le> 2047"
    using assms length_decimal_le [of n 10] length_decimal_le [of port 5] length_decimal_le [of "Suc port" 5]
    by (simp add: setup_request_def request_text_def request_line_def crlf_def word_ok_def)
qed (simp add: setup_request_def request_text_def request_line_def)

lemma play_request_fits:
  assumes "word_ok 255 url" and "n < 2 ^ 31"
  shows "c_string (play_request url n) = play_request url n" and "length (play_request url n) \<le> 2047"
    and "play_request url n \<noteq> []"
proof -
  show "c_string (play_request url n) = play_request url n" unfolding play_request_def
    by (rule request_text_string) (use word_ok_no_nul [OF assms(1)] in \<open>simp add: RTSP_SESSION_ID_def\<close>)
  show "length (play_request url n) \<le> 2047"
    using assms length_decimal_le [of n 10]
    by (simp add: play_request_def request_text_def request_line_def crlf_def word_ok_def RTSP_SESSION_ID_def)
qed (simp add: play_request_def request_text_def request_line_def)

lemma handle_setup:
  assumes "word_ok 255 url" and "no_keyword url" and "n < 2 ^ 31" and "0 < port" and "port \<le> 65535"
  shows "\<exists>c1. handle_request S M cli (setup_request url n port) c = (False, c1) \<and> rc_signals c1 = rc_signals c \<and>
    conn_session c1 = session_setup cli (int port) (M (sh_locks (rc_shared c)) (conn_session c))"
proof -
  have p: "parse_rtsp_request (setup_request url n port) = Some \<lparr>rq_method = ''SETUP'', rq_url = url, rq_cseq = int n\<rparr>"
    unfolding setup_request_def by (rule parse_request_text)
      (use assms in \<open>simp_all add: word_ok_def is_space_def no_keyword_def sublist_Cons_right\<close>)
  show ?thesis using assms(4)
    by (simp add: handle_request_def p parse_setup_port [OF assms(2,4,5)] Let_def conn_session_with_mutex)
      (simp add: with_mutex_def Let_def)
qed

lemma parse_play:
  assumes "word_ok 255 url" and "no_keyword url" and "n < 2 ^ 31"
  shows "parse_rtsp_request (play_request url n) = Some \<lparr>rq_method = ''PLAY'', rq_url = url, rq_cseq = int n\<rparr>"
  unfolding play_request_def
  by (rule parse_request_text) (use assms in \<open>simp_all add: word_ok_def is_space_def no_keyword_def sublist_Cons_right\<close>)

lemma handle_play:
  assumes "word_ok 255 url" and "no_keyword url" and "n < 2 ^ 31"
  shows "\<exists>c1. handle_request S M cli (play_request url n) c = (False, c1) \<and> rc_signals c1 = rc_signals c + 1 \<and>
    conn_session c1 = session_play (M (sh_locks (rc_shared c)) (conn_session c))"
  by (simp add: handle_request_def parse_play [OF assms] Let_def conn_session_with_mutex)
    (simp add: with_mutex_def Let_def)

lemma handle_rtsp_loop_Cons:
  assumes "length seg \<le> 2047" and "seg \<noteq> []" and "handle_request S M cli (c_string seg) c = (False, c1)"
  shows "handle_rtsp_loop S M cli (seg # segs) c = handle_rtsp_loop S M cli segs c1"
  using assms by (subst handle_rtsp_loop.simps) simp

lemma handle_rtsp_loop_Nil: "handle_rtsp_loop S M cli [] c = c"
  by (subst handle_rtsp_loop.simps) simp

lemma handle_setup_play:
  assumes "sender_only M" and "word_ok 255 url" and "no_keyword url" and "n < 2 ^ 31" and "m < 2 ^ 31"
    and "0 < port" and "port \<le> 65535"
  shows "let c' = handle_rtsp_loop S M cli [setup_request url n port, play_request url m] c
    in target_ready (rc_shared c') \<and> se_client_addr (conn_session c') = cli\<lparr>sin_port := htons (of_nat port)\<rparr> \<and>
       se_need_parameter_sets (conn_session c') \<and> rc_signals c' = rc_signals c + 1"
proof -
  obtain c1 where c1: "handle_request S M cli (setup_request url n port) c = (False, c1)" "rc_signals c1 = rc_signals c"
    "conn_session c1 = session_setup cli (int port) (M (sh_locks (rc_shared c)) (conn_session c))"
    using handle_setup [OF assms(2,3,4,6,7)] by blast
  obtain c2 where c2: "handle_request S M cli (play_request url m) c1 = (False, c2)" "rc_signals c2 = rc_signals c1 + 1"
    "conn_session c2 = session_play (M (sh_locks (rc_shared c1)) (conn_session c1))"
    using handle_play [OF assms(2,3,5)] by blast
  note fits = setup_request_fits [OF assms(2,4,7)] play_request_fits [OF assms(2,5)]
  have "handle_rtsp_loop S M cli [setup_request url n port, play_request url m] c = c2"
    using handle_rtsp_loop_Cons [OF fits(2,3), of S M cli c c1] handle_rtsp_loop_Cons [OF fits(5,6), of S M cli c1 c2]
      c1(1) c2(1) by (simp add: fits(1,4) handle_rtsp_loop_Nil)
  moreover have "conn_session c2 = session_play (session_setup cli (int port) (M (sh_locks (rc_shared c)) (conn_session c)))"
    unfolding c2(3) c1(3) by (rule session_play_sender [OF assms(1)])
  ultimately show ?thesis using c1(2) c2(2)
    by (simp add: Let_def target_ready_def conn_session_def session_play_def session_setup_def)
qed

section \<open>Properties\<close>

text \<open>
  C9: Every request gets exactly one response, in the order of the requests, as long as the client
  takes what is sent (in pieces of any size): a reader that splits what the client received at the
  empty lines and the content lengths finds the responses to the requests, each with the status
  of the request and its \<open>CSeq\<close>, and the body of a DESCRIBE is the complete description of
  the stream. Nothing is cut off by the fixed buffers, for any request.
\<close>

theorem rtsp_client_replies:
  assumes "send_accepts S"
  shows "\<exists>out rs. rc_out (handle_rtsp_client S M cli segs c) = rc_out c @ out \<and> reads out rs \<and>
    list_all2 answers (requests_served segs) rs"
proof -
  obtain rs where rs: "rc_out (handle_rtsp_loop S M cli segs c) = rc_out c @ concat (map render rs)"
    "list_all2 answers (requests_served segs) rs"
    using handle_rtsp_loop_replies [OF assms] by blast
  have "list_all response_ok rs"
    using rs(2) by (auto simp: list_all_length list_all2_conv_all_nth answers_def)
  with rs show ?thesis
    by (intro exI [of _ "concat (map render rs)"] exI [of _ rs])
      (simp add: handle_rtsp_client_def with_mutex_def Let_def reads_render)
qed

theorem rtsp_client_replies_witness:
  "\<exists>out rs. rc_out (handle_rtsp_client (\<lambda>_ d. 1) (\<lambda>_ g. g) null_addr [''OPTIONS * RTSP/1.0'']
      \<lparr>rc_calls = 0, rc_out = [], rc_shared = \<lparr>sh_session = session_init, sh_locks = 0\<rparr>, rc_signals = 0\<rparr>) = out \<and>
    reads out rs \<and> length rs = 1"
proof -
  have S: "send_accepts (\<lambda>_ d. 1)" by (auto simp: send_accepts_def Suc_le_eq)
  have "requests_served [''OPTIONS * RTSP/1.0''] = [''OPTIONS * RTSP/1.0'']"
    by (subst requests_served.simps, subst requests_served.simps) (simp add: c_string_def)
  with rtsp_client_replies [OF S, of "\<lambda>_ g. g" null_addr "[''OPTIONS * RTSP/1.0'']"
      "\<lparr>rc_calls = 0, rc_out = [], rc_shared = \<lparr>sh_session = session_init, sh_locks = 0\<rparr>, rc_signals = 0\<rparr>"]
  obtain out rs where "rc_out (handle_rtsp_client (\<lambda>_ d. 1) (\<lambda>_ g. g) null_addr [''OPTIONS * RTSP/1.0'']
      \<lparr>rc_calls = 0, rc_out = [], rc_shared = \<lparr>sh_session = session_init, sh_locks = 0\<rparr>, rc_signals = 0\<rparr>) = out"
    "reads out rs" "length rs = 1" by (auto dest: list_all2_lengthD)
  then show ?thesis by blast
qed



text \<open>
  C12: A client that sends SETUP with its RTP port and then PLAY starts the stream: once both are
  handled, and whatever the sender thread does in between, the session is ready for the sender,
  with the client's IP address and the port of the SETUP in network order as the
  target, the parameter sets are asked for, and the sender was woken up once.
\<close>

theorem rtsp_setup_play_starts:
  assumes "sender_only M" and "word_ok 255 url" and "no_keyword url" and "n < 2 ^ 31" and "m < 2 ^ 31"
    and "0 < port" and "port \<le> 65535"
  shows "let c' = handle_rtsp_loop S M cli [setup_request url n port, play_request url m] c
    in target_ready (rc_shared c') \<and> se_client_addr (conn_session c') = cli\<lparr>sin_port := htons (of_nat port)\<rparr> \<and>
       se_need_parameter_sets (conn_session c') \<and> rc_signals c' = rc_signals c + 1"
  by (rule handle_setup_play [OF assms])

theorem rtsp_setup_play_starts_witness:
  "let c = \<lparr>rc_calls = 0, rc_out = [], rc_shared = \<lparr>sh_session = session_init, sh_locks = 0\<rparr>, rc_signals = 0\<rparr>;
       c' = handle_rtsp_loop (\<lambda>_ _. 1) (\<lambda>_ g. g) \<lparr>sin_family = 2, sin_port = 9, sin_addr = 7\<rparr>
              [setup_request ''rtsp://h/stream'' 3 5000, play_request ''rtsp://h/stream'' 4] c
   in target_ready (rc_shared c') \<and> sin_addr (se_client_addr (conn_session c')) = 7"
  using rtsp_setup_play_starts [of "\<lambda>_ g. g" "''rtsp://h/stream''" 3 4 5000 "\<lambda>_ _. 1"
      "\<lparr>sin_family = 2, sin_port = 9, sin_addr = 7\<rparr>"
      "\<lparr>rc_calls = 0, rc_out = [], rc_shared = \<lparr>sh_session = session_init, sh_locks = 0\<rparr>, rc_signals = 0\<rparr>"]
  by (simp add: sender_only_def word_ok_def is_space_def no_keyword_def sublist_Cons_right Let_def)

text \<open>
  C39: A defect: PLAY needs no SETUP on its own connection. After some client was set up, a PLAY of
  any other client is answered with 200 and starts the stream to the address of the former one.
\<close>

theorem rtsp_play_without_setup:
  assumes "sender_only M" and "se_client_addr_set (conn_session c)"
    and "word_ok 255 url" and "no_keyword url" and "n < 2 ^ 31"
  shows "let c' = handle_rtsp_loop S M cli [play_request url n] c
    in target_ready (rc_shared c') \<and> se_client_addr (conn_session c') = se_client_addr (conn_session c) \<and>
       status_of (play_request url n) = ''RTSP/1.0 200 OK''"
proof -
  obtain c1 where c1: "handle_request S M cli (play_request url n) c = (False, c1)"
    "conn_session c1 = session_play (M (sh_locks (rc_shared c)) (conn_session c))"
    using handle_play [OF assms(3-5)] by blast
  note fits = play_request_fits [OF assms(3,5)]
  have "handle_rtsp_loop S M cli [play_request url n] c = c1"
    using handle_rtsp_loop_Cons [OF fits(2,3), of S M cli c c1] c1(1) by (simp add: fits(1) handle_rtsp_loop_Nil)
  moreover have "conn_session c1 = session_play (conn_session c)"
    unfolding c1(2) by (rule session_play_sender [OF assms(1)])
  moreover have "parse_rtsp_request (play_request url n) = Some \<lparr>rq_method = ''PLAY'', rq_url = url, rq_cseq = int n\<rparr>"
    by (rule parse_play [OF assms(3-5)])
  ultimately show ?thesis using assms(2)
    by (simp add: Let_def target_ready_def conn_session_def session_play_def status_of_def)
qed

theorem rtsp_play_without_setup_witness:
  "target_ready (rc_shared (handle_rtsp_loop (\<lambda>_ _. 1) (\<lambda>_ g. g) \<lparr>sin_family = 2, sin_port = 9, sin_addr = 7\<rparr>
     [play_request ''*'' 1]
     \<lparr>rc_calls = 0, rc_out = [],
       rc_shared = \<lparr>sh_session = session_setup \<lparr>sin_family = 2, sin_port = 9, sin_addr = 8\<rparr> 5000 session_init, sh_locks = 0\<rparr>,
       rc_signals = 0\<rparr>))"
  using rtsp_play_without_setup [of "\<lambda>_ g. g" "\<lparr>rc_calls = 0, rc_out = [],
       rc_shared = \<lparr>sh_session = session_setup \<lparr>sin_family = 2, sin_port = 9, sin_addr = 8\<rparr> 5000 session_init, sh_locks = 0\<rparr>,
       rc_signals = 0\<rparr>" "''*''" 1 "\<lambda>_ _. 1" "\<lparr>sin_family = 2, sin_port = 9, sin_addr = 7\<rparr>"]
  by (simp add: sender_only_def word_ok_def is_space_def no_keyword_def sublist_Cons_right Let_def conn_session_def
      session_setup_def)

end
