(* ===== verification/Cli.thy ===== *)
theory Cli
  imports Nalu_Loader Text
begin

text \<open>
  The command line and the file source: \<open>parse_u64_arg\<close>, \<open>load_file_source\<close>, \<open>parse_args\<close> of
  \<open>src/RTSP_Create.c\<close> and \<open>read_whole_file\<close> of \<open>src/file.c\<close>. The C library's \<open>strtoull\<close> is modelled;
  the stream functions and \<open>malloc\<close> answer as the environment \<open>F\<close> says.
\<close>

section \<open>strtoull with base 0\<close>

definition ULLONG_MAX :: nat where "ULLONG_MAX = 2 ^ 64 - 1"

text \<open>The value of a digit up to base 36, and 36 for any other character.\<close>

definition digit_value :: "char \<Rightarrow> nat" where
  "digit_value c =
     (if is_digit c then digit_val c
      else if 97 \<le> (of_char c :: nat) \<and> (of_char c :: nat) \<le> 122 then of_char c - 87
      else if 65 \<le> (of_char c :: nat) \<and> (of_char c :: nat) \<le> 90 then of_char c - 55
      else 36)"

definition base_number :: "nat \<Rightarrow> string \<Rightarrow> nat" where
  "base_number b ds = foldl (\<lambda>v c. v * b + digit_value c) 0 ds"

text \<open>The base and the digits that follow the sign: \<open>0x\<close> counts only when a hexadecimal digit follows.\<close>

definition number_base :: "string \<Rightarrow> nat \<times> string" where
  "number_base u =
     (if length u > 2 \<and> u ! 0 = CHR ''0'' \<and> (u ! 1 = CHR ''x'' \<or> u ! 1 = CHR ''X'') \<and> digit_value (u ! 2) < 16
      then (16, drop 2 u)
      else if u \<noteq> [] \<and> hd u = CHR ''0'' then (8, u)
      else (10, u))"

text \<open>The value and the rest of the text, or \<open>None\<close> when there is no number (\<open>end == text\<close>).\<close>

definition strtoull0 :: "string \<Rightarrow> (u64 \<times> string) option" where
  "strtoull0 s =
     (let t = dropWhile is_space s;
          neg = (t \<noteq> [] \<and> hd t = CHR ''-'');
          u = (if t \<noteq> [] \<and> (hd t = CHR ''-'' \<or> hd t = CHR ''+'') then tl t else t)
      in case number_base u of
           (b, v) \<Rightarrow>
             let ds = takeWhile (\<lambda>c. digit_value c < b) v; n = base_number b ds in
             if ds = [] then None
             else Some (if n > ULLONG_MAX then of_nat ULLONG_MAX else if neg then - of_nat n else of_nat n,
                        drop (length ds) v))"

definition parse_u64_arg :: "string option \<Rightarrow> u64" where
  "parse_u64_arg textp =
     (case textp of
        None \<Rightarrow> 0
      | Some t \<Rightarrow>
          if t = [] then 0
          else case strtoull0 t of
                 None \<Rightarrow> 0
               | Some (value, end) \<Rightarrow> if end \<noteq> [] then 0 else value)"

section \<open>Reading a file\<close>

record file_env =
  fe_fopen :: "string \<Rightarrow> bool"
  fe_fseek_end :: "string \<Rightarrow> int"
  fe_ftell :: "string \<Rightarrow> int"
  fe_fseek_set :: "string \<Rightarrow> int"
  fe_malloc :: "nat \<Rightarrow> bool"
  fe_fread :: "string \<Rightarrow> nat \<Rightarrow> bytes"

text \<open>Streams opened and blocks allocated, less those closed and freed.\<close>

record resources =
  rs_files :: int
  rs_blocks :: int

definition fclose :: "resources \<Rightarrow> resources" where
  "fclose r = r\<lparr>rs_files := rs_files r - 1\<rparr>"

definition free_mem :: "resources \<Rightarrow> resources" where
  "free_mem r = r\<lparr>rs_blocks := rs_blocks r - 1\<rparr>"

definition read_whole_file :: "file_env \<Rightarrow> string \<Rightarrow> resources \<Rightarrow> bytes option \<times> resources" where
  "read_whole_file F path r =
     (if \<not> fe_fopen F path then (None, r)
      else
        let r1 = r\<lparr>rs_files := rs_files r + 1\<rparr> in
        if fe_fseek_end F path \<noteq> 0 then (None, fclose r1)
        else
          let file_size = fe_ftell F path in
          if file_size \<le> 0 then (None, fclose r1)
          else if fe_fseek_set F path \<noteq> 0 then (None, fclose r1)
          else if \<not> fe_malloc F (nat file_size) then (None, fclose r1)
          else
            let r2 = r1\<lparr>rs_blocks := rs_blocks r1 + 1\<rparr>;
                buffer = fe_fread F path (nat file_size);
                r3 = fclose r2 in
            if length buffer \<noteq> nat file_size then (None, free_mem r3) else (Some buffer, r3))"

section \<open>The source of the stream\<close>

datatype stream_source = STREAM_SOURCE_FILE | STREAM_SOURCE_DATAFIFO

text \<open>\<open>NULL\<close> is \<open>None\<close>; the elements of the table are the bytes they denote.\<close>

record globals =
  g_source :: stream_source
  g_fifo_phy_addr :: u64
  g_file_buf :: "bytes option"
  g_nalus :: "bytes list option"
  g_nalu_count :: nat

definition globals_init :: globals where
  "globals_init = \<lparr>g_source = STREAM_SOURCE_FILE, g_fifo_phy_addr = 0, g_file_buf = None, g_nalus = None, g_nalu_count = 0\<rparr>"

text \<open>The table that \<open>load_annexb_nalus\<close> leaves is a block when it has a capacity.\<close>

definition load_file_source ::
    "file_env \<Rightarrow> alloc_env \<Rightarrow> string \<Rightarrow> globals \<Rightarrow> resources \<Rightarrow> int \<times> globals \<times> resources" where
  "load_file_source F A input_path g r =
     (case read_whole_file F input_path r of
        (None, r1) \<Rightarrow> (-1, g, r1)
      | (Some file_buf, r1) \<Rightarrow>
          (case snd (load_annexb_nalus A 0 file_buf) of
             None \<Rightarrow> (-1, g, free_mem r1)
           | Some (capacity, nalus) \<Rightarrow>
               let r2 = (if capacity = 0 then r1 else r1\<lparr>rs_blocks := rs_blocks r1 + 1\<rparr>) in
               if length nalus = 0 then (-1, g, free_mem r2)
               else (0, g\<lparr>g_file_buf := Some file_buf, g_nalus := Some nalus, g_nalu_count := length nalus\<rparr>, r2)))"

text \<open>The loop over \<open>argv[1], argv[2], ...\<close>; the path found so far is the second argument, the result
  \<open>None\<close> is the return with \<open>-1\<close>.\<close>

fun parse_args_loop :: "string list \<Rightarrow> string option \<Rightarrow> globals \<Rightarrow> string option option \<times> globals" where
  "parse_args_loop [] input_path g = (Some input_path, g)"
| "parse_args_loop (arg # args) input_path g =
     (if arg = ''--fifo'' then
        (case args of
           [] \<Rightarrow> (None, g)
         | addr # rest \<Rightarrow>
             let g1 = g\<lparr>g_source := STREAM_SOURCE_DATAFIFO, g_fifo_phy_addr := parse_u64_arg (Some addr)\<rparr> in
             if g_fifo_phy_addr g1 = 0 then (None, g1) else parse_args_loop rest input_path g1)
      else if arg \<noteq> [] \<and> hd arg = CHR ''-'' then (None, g)
      else if input_path \<noteq> None then (None, g)
      else parse_args_loop args (Some arg) g)"

definition parse_args ::
    "file_env \<Rightarrow> alloc_env \<Rightarrow> string list \<Rightarrow> globals \<Rightarrow> resources \<Rightarrow> int \<times> globals \<times> resources" where
  "parse_args F A argv g r =
     (case parse_args_loop (tl argv) None g of
        (None, g1) \<Rightarrow> (-1, g1, r)
      | (Some input_path, g1) \<Rightarrow>
          if g_source g1 = STREAM_SOURCE_DATAFIFO then (if input_path \<noteq> None then (-1, g1, r) else (0, g1, r))
          else (case input_path of
                  None \<Rightarrow> (-1, g1, r)
                | Some path \<Rightarrow> load_file_source F A path (g1\<lparr>g_source := STREAM_SOURCE_FILE\<rparr>) r))"

section \<open>Numbers\<close>

definition hex_digit :: "nat \<Rightarrow> char" where
  "hex_digit d = (if d < 10 then digit d else char_of (87 + d))"

fun hexadecimal :: "nat \<Rightarrow> string" where
  "hexadecimal n = (if n < 16 then [hex_digit n] else hexadecimal (n div 16) @ [hex_digit (n mod 16)])"

declare hexadecimal.simps [simp del]

lemma hex_digit_value: "d < 16 \<Longrightarrow> digit_value (hex_digit d) = d"
  using digit_simps [of d] by (auto simp: hex_digit_def digit_value_def is_digit_def)

lemma base_number_snoc: "base_number b (ds @ [c]) = base_number b ds * b + digit_value c"
  by (simp add: base_number_def)

lemma base_number_hexadecimal: "base_number 16 (hexadecimal n) = n"
proof (induction n rule: hexadecimal.induct)
  case (1 n)
  show ?case
  proof (cases "n < 16")
    case True
    then show ?thesis by (subst hexadecimal.simps) (simp add: base_number_def hex_digit_value)
  next
    case False
    with 1 show ?thesis by (subst hexadecimal.simps) (simp add: base_number_snoc hex_digit_value)
  qed
qed

lemma hexadecimal_digits: "list_all (\<lambda>c. digit_value c < 16) (hexadecimal n)"
proof (induction n rule: hexadecimal.induct)
  case (1 n)
  then show ?case by (subst hexadecimal.simps) (auto simp: hex_digit_value)
qed

lemma hexadecimal_neq_Nil [simp]: "hexadecimal n \<noteq> []"
  by (subst hexadecimal.simps) simp

lemma base_number_digits:
  "list_all is_digit ds \<Longrightarrow> base_number 10 ds = number_of ds"
  unfolding base_number_def number_of_def
  by (rule foldl_cong) (auto simp: list_all_iff digit_value_def)

lemma hd_decimal: "0 < n \<Longrightarrow> hd (decimal n) \<noteq> CHR ''0''"
proof (induction n rule: decimal.induct)
  case (1 n)
  show ?case
  proof (cases "n < 10")
    case True
    then have "n \<noteq> 0 \<Longrightarrow> digit n \<noteq> CHR ''0''"
      using digit_simps(2) [of n] by (auto simp: digit_val_def)
    with True 1(2) show ?thesis by (subst decimal.simps) simp
  next
    case False
    with 1 show ?thesis by (subst decimal.simps) (simp add: hd_append)
  qed
qed

lemma takeWhile_all: "list_all P xs \<Longrightarrow> takeWhile P xs = xs"
  by (simp add: list_all_iff takeWhile_eq_all_conv)

lemma parse_hexadecimal:
  "parse_u64_arg (Some (''0x'' @ hexadecimal n)) = (if n > ULLONG_MAX then of_nat ULLONG_MAX else of_nat n)"
proof -
  obtain c cs where h: "hexadecimal n = c # cs" by (cases "hexadecimal n") auto
  have c: "digit_value c < 16" using hexadecimal_digits [of n] by (simp add: h)
  have "number_base (''0x'' @ hexadecimal n) = (16, hexadecimal n)"
    using c by (simp add: number_base_def h)
  moreover have "dropWhile is_space (''0x'' @ hexadecimal n) = ''0x'' @ hexadecimal n"
    by (simp add: is_space_def)
  ultimately show ?thesis
    by (simp add: parse_u64_arg_def strtoull0_def Let_def takeWhile_all [OF hexadecimal_digits] base_number_hexadecimal)
qed

lemma parse_decimal:
  assumes "0 < n"
  shows "parse_u64_arg (Some (decimal n)) = (if n > ULLONG_MAX then of_nat ULLONG_MAX else of_nat n)"
proof -
  obtain c cs where d: "decimal n = c # cs" using decimal_neq_Nil [of n] by (cases "decimal n") auto
  have c: "is_digit c" "c \<noteq> CHR ''0''" using decimal_digits [of n] hd_decimal [OF assms] by (simp_all add: d)
  have "number_base (decimal n) = (10, decimal n)" using c(2) by (simp add: number_base_def d)
  moreover have "dropWhile is_space (decimal n) = decimal n" using digit_no_space [OF c(1)] by (simp add: d)
  moreover have "list_all (\<lambda>c. digit_value c < 10) (decimal n)"
    using decimal_digits [of n] by (auto simp: list_all_iff digit_value_def is_digit_def digit_val_def)
  then have "takeWhile (\<lambda>c. digit_value c < 10) (decimal n) = decimal n" by (rule takeWhile_all)
  moreover have "base_number 10 (decimal n) = n"
    using base_number_digits [OF decimal_digits [of n]] by simp
  ultimately show ?thesis using digit_no_space [OF c(1)] d
    by (simp add: parse_u64_arg_def strtoull0_def Let_def)
qed

section \<open>Resources\<close>

lemma read_whole_file_cases:
  assumes "read_whole_file F path r = (d, r')"
  shows "rs_files r' = rs_files r \<and> rs_blocks r' = rs_blocks r + (if d = None then 0 else 1) \<and>
    (\<forall>buf. d = Some buf \<longrightarrow> buf \<noteq> [] \<and> buf = fe_fread F path (nat (fe_ftell F path)) \<and>
       int (length buf) = fe_ftell F path)"
  using assms
  by (auto simp: read_whole_file_def Let_def fclose_def free_mem_def split: if_splits)

text \<open>The source is loaded completely or nothing is kept.\<close>

lemma load_file_source_cases:
  assumes "load_file_source F A path g r = (k, g', r')"
  shows "rs_files r' = rs_files r \<and>
    (if k = 0 then rs_blocks r' = rs_blocks r + 2 \<and>
       (\<exists>buf ns. ns \<noteq> [] \<and> ns = map fst (annexb_units buf 0) \<and>
          buf = fe_fread F path (nat (fe_ftell F path)) \<and> int (length buf) = fe_ftell F path \<and>
          g' = g\<lparr>g_file_buf := Some buf, g_nalus := Some ns, g_nalu_count := length ns\<rparr>)
     else k = -1 \<and> g' = g \<and> rs_blocks r' = rs_blocks r)"
proof -
  obtain d r1 where d: "read_whole_file F path r = (d, r1)" by (cases "read_whole_file F path r")
  note d' = read_whole_file_cases [OF d]
  show ?thesis
  proof (cases d)
    case None
    with assms d d' show ?thesis by (auto simp: load_file_source_def)
  next
    case (Some buf)
    show ?thesis
    proof (cases "snd (load_annexb_nalus A 0 buf)")
      case None
      with assms d d' Some show ?thesis by (auto simp: load_file_source_def free_mem_def)
    next
      case t: (Some x)
      obtain cap ns where x: "x = (cap, ns)" by (cases x)
      from load_annexb_table [OF t [unfolded x]] assms d d' Some t x show ?thesis
        by (auto simp: load_file_source_def free_mem_def table_ok_def Let_def split: if_splits)
    qed
  qed
qed

text \<open>A file that can be read.\<close>

definition file_holds :: "file_env \<Rightarrow> string \<Rightarrow> bytes \<Rightarrow> bool" where
  "file_holds F path data \<longleftrightarrow> fe_fopen F path \<and> fe_fseek_end F path = 0 \<and> fe_ftell F path = int (length data) \<and>
     fe_fseek_set F path = 0 \<and> fe_malloc F (length data) \<and> fe_fread F path (length data) = data"

lemma load_file_source_ok:
  assumes "file_holds F path data" and "\<forall>t n. A t n" and "annexb_units data 0 \<noteq> []"
  shows "fst (load_file_source F A path g r) = 0"
proof -
  have "annexb_units [] 0 = []" by code_simp
  then have ne: "data \<noteq> []" using assms(3) by auto
  have "snd (load_annexb_nalus A 0 data) \<noteq> None"
    using load_annexb_loop_None [of A data 0 0 0 "[]"] assms(2)
    by (cases "snd (load_annexb_nalus A 0 data)"; cases "load_annexb_nalus A 0 data") (simp_all add: load_annexb_nalus_def)
  then obtain cap ns where t: "snd (load_annexb_nalus A 0 data) = Some (cap, ns)" by fastforce
  from load_annexb_table [OF t] have "ns \<noteq> []" using assms(3) by simp
  with t ne assms(1) show ?thesis
    by (auto simp: load_file_source_def read_whole_file_def file_holds_def Let_def)
qed

section \<open>The command line\<close>

definition fifo_args :: "string list \<Rightarrow> string list" where
  "fifo_args addrs = concat (map (\<lambda>t. [''--fifo'', t]) addrs)"

definition addr_ok :: "string \<Rightarrow> bool" where
  "addr_ok t \<longleftrightarrow> parse_u64_arg (Some t) \<noteq> 0"

definition is_option :: "string \<Rightarrow> bool" where
  "is_option arg \<longleftrightarrow> arg \<noteq> [] \<and> hd arg = CHR ''-''"

definition set_fifo :: "string \<Rightarrow> globals \<Rightarrow> globals" where
  "set_fifo t g = g\<lparr>g_source := STREAM_SOURCE_DATAFIFO, g_fifo_phy_addr := parse_u64_arg (Some t)\<rparr>"

text \<open>What the loop accepts: any number of \<open>--fifo\<close> options and at most one path.\<close>

inductive accepted :: "string list \<Rightarrow> string option \<Rightarrow> string option \<Rightarrow> string list \<Rightarrow> bool" where
  acc_end: "accepted [] p p []"
| acc_fifo: "addr_ok t \<Longrightarrow> accepted args p q ts \<Longrightarrow> accepted (''--fifo'' # t # args) p q (t # ts)"
| acc_path: "\<not> is_option path \<Longrightarrow> accepted args (Some path) q ts \<Longrightarrow> accepted (path # args) None q ts"

inductive_cases accepted_NilE: "accepted [] p q ts"
inductive_cases accepted_ConsE: "accepted (a # args) p q ts"

lemma fifo_is_option [simp]: "is_option ''--fifo''"
  by (simp add: is_option_def)

lemma parse_args_loop_iff:
  "parse_args_loop args p g = (Some q, g') \<longleftrightarrow> (\<exists>ts. accepted args p q ts \<and> g' = fold set_fifo ts g)"
proof (induction args p g rule: parse_args_loop.induct)
  case (1 p g)
  then show ?case by (auto intro: acc_end elim: accepted_NilE)
next
  case (2 arg args p g)
  show ?case
  proof (cases "arg = ''--fifo''")
    case fifo: True
    show ?thesis
    proof (cases args)
      case Nil
      with fifo show ?thesis by (auto elim!: accepted_ConsE)
    next
      case (Cons t rest)
      show ?thesis
      proof (cases "addr_ok t")
        case False
        with fifo Cons show ?thesis by (auto simp: addr_ok_def elim!: accepted_ConsE)
      next
        case True
        have "parse_args_loop (arg # args) p g = parse_args_loop rest p (set_fifo t g)"
          using fifo Cons True by (simp add: addr_ok_def set_fifo_def Let_def)
        moreover have "accepted (arg # args) p q ts' \<longleftrightarrow> (\<exists>ts. ts' = t # ts \<and> accepted rest p q ts)" for ts'
          using fifo Cons True by (auto intro: acc_fifo elim: accepted_ConsE)
        ultimately show ?thesis
          using 2(1) [OF fifo Cons refl] True by (auto simp: addr_ok_def set_fifo_def)
      qed
    qed
  next
    case nf: False
    show ?thesis
    proof (cases "is_option arg \<or> p \<noteq> None")
      case True
      with nf show ?thesis by (auto simp: is_option_def elim!: accepted_ConsE)
    next
      case False
      then have "accepted (arg # args) p q ts \<longleftrightarrow> accepted args (Some arg) q ts" for ts
        using nf by (auto intro: acc_path elim: accepted_ConsE)
      with 2(2) nf False show ?thesis by (auto simp: is_option_def)
    qed
  qed
qed

lemma accepted_Some: "accepted args p q ts \<Longrightarrow> p = Some x \<Longrightarrow> q = Some x \<and> args = fifo_args ts \<and> (\<forall>t \<in> set ts. addr_ok t)"
  by (induction rule: accepted.induct) (auto simp: fifo_args_def)

lemma accepted_None:
  "accepted args p q ts \<Longrightarrow> p = None \<Longrightarrow> q = None \<Longrightarrow> args = fifo_args ts \<and> (\<forall>t \<in> set ts. addr_ok t)"
  by (induction rule: accepted.induct) (auto simp: fifo_args_def dest: accepted_Some)

lemma accepted_fifo_args: "\<forall>t \<in> set ts. addr_ok t \<Longrightarrow> accepted (fifo_args ts) p p ts"
  by (induction ts) (auto simp: fifo_args_def intro: accepted.intros)

lemma accepted_path:
  "accepted args p q ts \<Longrightarrow> p = None \<Longrightarrow> q = Some path \<Longrightarrow> ts = [] \<Longrightarrow> args = [path] \<and> \<not> is_option path"
  by (induction rule: accepted.induct) (auto dest: accepted_Some simp: fifo_args_def)

lemma fold_set_fifo:
  "ts \<noteq> [] \<Longrightarrow> fold set_fifo ts g = set_fifo (last ts) g"
  by (induction ts arbitrary: g) (auto simp: set_fifo_def)

lemma parse_args_accepted:
  assumes "parse_args F A argv globals_init r = (0, g', r')"
  shows "(\<exists>ts. ts \<noteq> [] \<and> tl argv = fifo_args ts \<and> (\<forall>t \<in> set ts. addr_ok t) \<and> g' = set_fifo (last ts) globals_init \<and> r' = r) \<or>
     (\<exists>path. tl argv = [path] \<and> \<not> is_option path \<and> load_file_source F A path globals_init r = (0, g', r'))"
    (is "?fifo \<or> ?file")
proof -
  obtain x g1 where x: "parse_args_loop (tl argv) None globals_init = (x, g1)"
    by (cases "parse_args_loop (tl argv) None globals_init")
  with assms obtain q where q: "x = Some q" by (auto simp: parse_args_def split: option.splits)
  with x obtain ts where acc: "accepted (tl argv) None q ts" and g1: "g1 = fold set_fifo ts globals_init"
    using parse_args_loop_iff by blast
  show ?thesis
  proof (cases "ts = []")
    case True
    then have g: "g1 = globals_init" using g1 by simp
    obtain path where "q = Some path"
      using assms x q g by (cases q) (auto simp: parse_args_def globals_init_def)
    with accepted_path [OF acc refl _ True] assms x q g have ?file
      by (simp add: parse_args_def globals_init_def)
    then show ?thesis ..
  next
    case False
    then have "g1 = set_fifo (last ts) globals_init" using g1 fold_set_fifo by simp
    with assms x q have "q = None \<and> g' = set_fifo (last ts) globals_init \<and> r' = r"
      by (auto simp: parse_args_def set_fifo_def split: if_splits)
    with accepted_None [OF acc refl] False have ?fifo by auto
    then show ?thesis ..
  qed
qed

lemma parse_args_fifo:
  assumes "ts \<noteq> []" and "tl argv = fifo_args ts" and "\<forall>t \<in> set ts. addr_ok t"
  shows "fst (parse_args F A argv globals_init r) = 0"
proof -
  have "parse_args_loop (tl argv) None globals_init = (Some None, set_fifo (last ts) globals_init)"
    using accepted_fifo_args [OF assms(3), of None] fold_set_fifo [OF assms(1)] assms(2)
    by (auto simp: parse_args_loop_iff intro!: exI [of _ ts])
  then show ?thesis by (simp add: parse_args_def set_fifo_def)
qed

lemma parse_args_file:
  assumes "tl argv = [path]" and "\<not> is_option path"
  shows "parse_args F A argv globals_init r = load_file_source F A path globals_init r"
proof -
  have "accepted [path] None (Some path) []" by (intro acc_path acc_end assms)
  then have "parse_args_loop (tl argv) None globals_init = (Some (Some path), globals_init)"
    unfolding assms(1) parse_args_loop_iff by (intro exI [of _ "[]"]) simp
  then show ?thesis by (simp add: parse_args_def globals_init_def)
qed

section \<open>Properties\<close>

text \<open>
  C31: The address option is read back as it is written, in decimal or with \<open>0x\<close> in hexadecimal, for every
  address of 64 bits; a number that is too large is not refused but taken as \<open>2 ^ 64 - 1\<close>.
\<close>

theorem parse_u64_arg_roundtrip:
  assumes "0 < n"
  shows "parse_u64_arg (Some (decimal n)) = (if n < 2 ^ 64 then of_nat n else 2 ^ 64 - 1) \<and>
    parse_u64_arg (Some (''0x'' @ hexadecimal n)) = (if n < 2 ^ 64 then of_nat n else 2 ^ 64 - 1)"
proof -
  have "n > ULLONG_MAX \<longleftrightarrow> \<not> n < 2 ^ 64" by (auto simp: ULLONG_MAX_def)
  moreover have "(of_nat ULLONG_MAX :: u64) = 2 ^ 64 - 1" by (simp add: ULLONG_MAX_def)
  ultimately show ?thesis unfolding parse_decimal [OF assms] parse_hexadecimal by simp
qed

theorem parse_u64_arg_roundtrip_witness: "parse_u64_arg (Some (''0x'' @ hexadecimal 0x12ffa000)) = 0x12ffa000"
  using parse_u64_arg_roundtrip [of "0x12ffa000"] by simp

text \<open>
  C30: The file source is loaded completely or not at all, whatever the C library answers: on success the
  buffer is what \<open>fread\<close> delivered, as long as \<open>ftell\<close> said, and the table holds its NALUs, at least one;
  exactly the two blocks of these are allocated. On failure nothing is changed and nothing is
  kept. The stream is closed in both cases. A readable file with a NALU is always loaded.
\<close>

theorem load_file_source_correct:
  "case load_file_source F A path g r of (k, g', r') \<Rightarrow>
     rs_files r' = rs_files r \<and>
     (if k = 0 then rs_blocks r' = rs_blocks r + 2 \<and>
        (\<exists>buf ns. ns \<noteq> [] \<and> ns = map fst (annexb_units buf 0) \<and>
           buf = fe_fread F path (nat (fe_ftell F path)) \<and> int (length buf) = fe_ftell F path \<and>
           g' = g\<lparr>g_file_buf := Some buf, g_nalus := Some ns, g_nalu_count := length ns\<rparr>)
      else k = -1 \<and> g' = g \<and> rs_blocks r' = rs_blocks r \<and>
        \<not> (file_holds F path (fe_fread F path (nat (fe_ftell F path))) \<and> (\<forall>t n. A t n) \<and>
            annexb_units (fe_fread F path (nat (fe_ftell F path))) 0 \<noteq> []))"
proof -
  obtain k g' r' where x: "load_file_source F A path g r = (k, g', r')" by (metis prod_cases3)
  from load_file_source_cases [OF x] load_file_source_ok [of F path "fe_fread F path (nat (fe_ftell F path))" A g r] x show ?thesis
    by (auto split: if_splits)
qed


definition demo_files :: file_env where
  "demo_files = \<lparr>fe_fopen = (\<lambda>p. p = ''a.h265''), fe_fseek_end = (\<lambda>_. 0), fe_ftell = (\<lambda>_. 6), fe_fseek_set = (\<lambda>_. 0),
     fe_malloc = (\<lambda>_. True), fe_fread = (\<lambda>_ n. take n [0, 0, 0, 1, 64, 1])\<rparr>"


end
