(* ===== verification/Usage.thy ===== *)
theory Usage
  imports Cli Ipc_Message
begin

text \<open>
  The usage text of \<open>src/RTSP_Create.c\<close> and of the earlier version, as the lines that are printed, and what
  it promises: the commands it shows as examples are accepted by \<open>parse_args\<close>.
\<close>

definition print_usage :: "string \<Rightarrow> string list" where
  "print_usage prog =
     [''Usage:'',
      ''  '' @ prog @ '' input.h265'',
      ''  '' @ prog @ '' --fifo <datafifo_phy_addr>'',
      [],
      ''Example:'',
      ''  '' @ prog @ '' girlshy.h265'',
      ''  '' @ prog @ '' --fifo 0x12ffa000'',
      [],
      ''DATAFIFO snapshot: set mpp_nalu_ipc_msg.reserved bit0 (0x'' @
        hexadecimal (unat MPP_NALU_IPC_FLAG_SNAPSHOT) @ '').'']"

definition little_print_usage :: "string \<Rightarrow> string list" where
  "little_print_usage prog =
     [''Usage:'',
      ''  '' @ prog @ '' input.h265'',
      ''  '' @ prog @ '' --fifo <datafifo_phy_addr>'',
      [],
      ''Example:'',
      ''  '' @ prog @ '' girlshy.h265'',
      ''  '' @ prog @ '' --fifo 0x12ffa000'']"

text \<open>A command as it is typed.\<close>

fun command_line :: "string list \<Rightarrow> string" where
  "command_line [] = []"
| "command_line (w # ws) = w @ (if ws = [] then [] else '' '' @ command_line ws)"

definition shows_command :: "string list \<Rightarrow> string list \<Rightarrow> bool" where
  "shows_command text argv \<longleftrightarrow> ''  '' @ command_line argv \<in> set text"

lemma usage_examples:
  assumes "argv = [prog, ''girlshy.h265''] \<or> argv = [prog, ''--fifo'', ''0x12ffa000'']"
  shows "shows_command (print_usage prog) argv" and "shows_command (little_print_usage prog) argv"
  using assms by (auto simp: shows_command_def print_usage_def little_print_usage_def)

text \<open>The example with a DATAFIFO starts the program in DATAFIFO mode at that address.\<close>

lemma usage_fifo_example:
  "parse_args F A [prog, ''--fifo'', ''0x12ffa000''] globals_init r =
     (0, globals_init\<lparr>g_source := STREAM_SOURCE_DATAFIFO, g_fifo_phy_addr := 0x12ffa000\<rparr>, r)"
proof -
  have "hexadecimal 0x12ffa000 = ''12ffa000''" by (simp add: hexadecimal.simps hex_digit_def digit_def char_of_def bit_iff_odd)
  with parse_hexadecimal [of "0x12ffa000"] have "parse_u64_arg (Some ''0x12ffa000'') = 0x12ffa000"
    by (simp add: ULLONG_MAX_def)
  then show ?thesis by (simp add: parse_args_def Let_def)
qed

text \<open>The example with a file is a request to load this file.\<close>

lemma usage_file_example:
  "parse_args F A [prog, ''girlshy.h265''] globals_init r = load_file_source F A ''girlshy.h265'' globals_init r"
  by (simp add: parse_args_def globals_init_def)

text \<open>The bit that the text names is the one that the sender tests.\<close>

lemma usage_names_flag:
  "last (print_usage prog) = ''DATAFIFO snapshot: set mpp_nalu_ipc_msg.reserved bit0 (0x1).''"
proof -
  have "hexadecimal 1 = ''1''" by code_simp
  then show ?thesis by (simp add: print_usage_def MPP_NALU_IPC_FLAG_SNAPSHOT_def)
qed

end
