(* ===== verification/Server.thy ===== *)
theory Server
  imports Cli Sockets Rtsp Sender File_Sender
begin

text \<open>
  The process: \<open>main\<close>, \<open>rtp_sender_thread\<close> and \<open>cleanup_resources\<close> of \<open>src/RTSP_Create.c\<close>, which compose the
  command line, the sockets, the two threads and the snapshot writer, with \<open>snapshot_writer_deinit\<close> of
  \<open>src/snapshot_writer.c\<close> as a whole.
\<close>

section \<open>State\<close>

text \<open>
  \<open>pr_params\<close> are the three parameter-set caches, \<open>pr_sender\<close> says that the sender thread exists;
  \<open>pr_closed\<close> are the connections closed, in order.
\<close>

record process =
  pr_globals :: globals
  pr_resources :: resources
  pr_snapshot_ready :: bool
  pr_writer :: writer
  pr_cache :: h265_snapshot_cache
  pr_params :: "param_kind \<Rightarrow> bytes option"
  pr_sender :: bool
  pr_sockets :: "sock_call list"
  pr_conn :: rtsp_conn
  pr_closed :: "int list"

record main_env =
  me_files :: file_env
  me_alloc :: alloc_env
  me_os :: os_env
  me_sock :: sock_env
  me_writer_thread :: bool
  me_sender_thread :: bool
  me_sender_acts :: "process \<Rightarrow> process"

section \<open>Shutdown\<close>

text \<open>
  \<open>pthread_join\<close>: the writer thread finishes the job that it works on and leaves its loop, which
  takes one iteration for each job in the queue; \<open>None\<close> when it never does.
\<close>

definition pthread_join_writer :: "os_env \<Rightarrow> writer \<Rightarrow> writer option" where
  "pthread_join_writer S w =
     (case wr_thread w of
        Working job \<Rightarrow>
          (case snapshot_writer_work S job w of
             None \<Rightarrow> None
           | Some w1 \<Rightarrow> snapshot_writer_loop S (wr_count w1 + 1) w1)
      | _ \<Rightarrow> snapshot_writer_loop S (wr_count w + 1) w)"

definition snapshot_writer_deinit :: "os_env \<Rightarrow> writer \<Rightarrow> writer option" where
  "snapshot_writer_deinit S w =
     (case snapshot_writer_deinit_begin w of
        None \<Rightarrow> Some w
      | Some w1 \<Rightarrow> map_option snapshot_writer_deinit_end (pthread_join_writer S w1))"

text \<open>\<open>free\<close> of a pointer that may be null.\<close>

definition free_opt :: "'a option \<Rightarrow> resources \<Rightarrow> resources" where
  "free_opt p r = (case p of None \<Rightarrow> r | Some _ \<Rightarrow> free_mem r)"

definition cleanup_resources :: "os_env \<Rightarrow> process \<Rightarrow> process option" where
  "cleanup_resources S p =
     (case (if pr_snapshot_ready p
            then map_option (\<lambda>w. p\<lparr>pr_writer := w, pr_snapshot_ready := False\<rparr>) (snapshot_writer_deinit S (pr_writer p))
            else Some p) of
        None \<Rightarrow> None
      | Some p1 \<Rightarrow>
          let p2 = p1\<lparr>pr_cache := cache_zero\<rparr>;
              r1 = free_opt (pr_params p2 PPS) (free_opt (pr_params p2 SPS) (free_opt (pr_params p2 VPS) (pr_resources p2)));
              p3 = p2\<lparr>pr_params := (\<lambda>_. None)\<rparr>;
              r2 = free_opt (g_file_buf (pr_globals p3)) (free_opt (g_nalus (pr_globals p3)) r1)
          in Some (p3\<lparr>pr_globals := (pr_globals p3)\<lparr>g_nalus := None, g_file_buf := None\<rparr>, pr_resources := r2\<rparr>))"

section \<open>main\<close>

text \<open>
  Up to the loop: the descriptor that is listened on, or \<open>-1\<close> when \<open>main\<close> returns. The sender thread
  runs from \<open>pthread_create\<close> on; what it did until the server was started is
  \<open>me_sender_acts\<close>. \<open>None\<close>: the shutdown never ends.
\<close>

definition main_start :: "main_env \<Rightarrow> string list \<Rightarrow> process \<Rightarrow> (int \<times> process) option" where
  "main_start E argv p =
     (case parse_args (me_files E) (me_alloc E) argv (pr_globals p) (pr_resources p) of
        (k, g, r) \<Rightarrow>
          let p1 = p\<lparr>pr_globals := g, pr_resources := r\<rparr> in
          if k \<noteq> 0 then Some (-1, p1)
          else
            let p2 = (if g_source g = STREAM_SOURCE_DATAFIFO then
                        (case snapshot_writer_init (me_os E) (me_writer_thread E) (Some SNAPSHOT_DEFAULT_DIR) (pr_writer p1) of
                           (ret, w) \<Rightarrow>
                             if ret = 0 then p1\<lparr>pr_writer := w, pr_snapshot_ready := True\<rparr> else p1\<lparr>pr_writer := w\<rparr>)
                      else p1) in
            if \<not> me_sender_thread E then map_option (\<lambda>p3. (-1, p3)) (cleanup_resources (me_os E) p2)
            else
              let p3 = me_sender_acts E (p2\<lparr>pr_sender := True\<rparr>) in
              case start_rtsp_server (me_sock E) (pr_sockets p3) of
                (listen_fd, tr) \<Rightarrow>
                  let p4 = p3\<lparr>pr_sockets := tr\<rparr> in
                  if listen_fd < 0 then map_option (\<lambda>p5. (-1, p5)) (cleanup_resources (me_os E) p4)
                  else Some (listen_fd, p4))"

text \<open>
  The loop of \<open>main\<close>, for the results of the first calls of \<open>accept\<close>: the descriptor, which is
  negative when the call failed, the address of the client and what it sends. \<open>S i\<close> and
  \<open>M i\<close> are the environments of the \<open>i\<close>-th connection.
\<close>

type_synonym accepted_client = "int \<times> sockaddr_in \<times> string list"

fun main_loop ::
    "(nat \<Rightarrow> send_env) \<Rightarrow> (nat \<Rightarrow> rtsp_env) \<Rightarrow> nat \<Rightarrow> accepted_client list \<Rightarrow> process \<Rightarrow> process" where
  "main_loop S M i [] p = p"
| "main_loop S M i ((client_fd, cli_addr, segs) # cs) p =
     (if client_fd < 0 then main_loop S M (i + 1) cs p
      else main_loop S M (i + 1) cs
             (p\<lparr>pr_conn := handle_rtsp_client (S i) (M i) cli_addr segs ((pr_conn p)\<lparr>rc_calls := 0, rc_out := []\<rparr>),
                pr_closed := pr_closed p @ [client_fd]\<rparr>))"

section \<open>The sender thread\<close>

text \<open>Where the thread is after \<open>n\<close> iterations of its loop; \<open>Blocked\<close>: it waits for a client for ever.\<close>

datatype sender_thread = Ended | Running_datafifo sender | Running_file file_sender | Blocked

definition rtp_sender_thread ::
    "sock_env \<Rightarrow> globals \<Rightarrow> sender_env \<Rightarrow> sender \<Rightarrow> rtsp_env \<Rightarrow> net_env \<Rightarrow> udp \<Rightarrow> shared \<Rightarrow> nat \<Rightarrow>
      sock_call list \<Rightarrow> sender_thread \<times> sock_call list" where
  "rtp_sender_thread K g V s R N u sh n tr =
     (case create_udp_socket_only K tr of
        (sock, tr1) \<Rightarrow>
          if sock < 0 then (Ended, tr1)
          else if g_source g = STREAM_SOURCE_DATAFIFO then
            (case datafifo_rtp_sender_loop V n (g_fifo_phy_addr g) s of
               None \<Rightarrow> (Ended, tr1 @ [Close sock])
             | Some s' \<Rightarrow> (Running_datafifo s', tr1))
          else
            (case file_rtp_sender_loop R N (case g_nalus g of None \<Rightarrow> [] | Some ns \<Rightarrow> ns) n (file_sender_init u sh) of
               None \<Rightarrow> (Blocked, tr1)
             | Some s' \<Rightarrow> (Running_file s', tr1)))"

section \<open>What the process owns\<close>

definition owned_ptr :: "'a option \<Rightarrow> int" where
  "owned_ptr p = (if p = None then 0 else 1)"

definition owned :: "process \<Rightarrow> int" where
  "owned p = owned_ptr (g_file_buf (pr_globals p)) + owned_ptr (g_nalus (pr_globals p)) +
     owned_ptr (pr_params p VPS) + owned_ptr (pr_params p SPS) + owned_ptr (pr_params p PPS)"

text \<open>Every block of the process is reachable from its pointers, and the writer runs when it is in use.\<close>

definition process_ok :: "process \<Rightarrow> bool" where
  "process_ok p \<longleftrightarrow> rs_blocks (pr_resources p) = owned p \<and> ring_ok (pr_writer p) \<and>
     (pr_snapshot_ready p \<longleftrightarrow> wr_started (pr_writer p))"

definition os_live :: "os_env \<Rightarrow> bool" where
  "os_live S \<longleftrightarrow> (\<forall>t n. \<exists>t' \<ge> t. os_write S t' n \<noteq> Write_EINTR)"

lemma free_opt_frame [simp]:
  "rs_files (free_opt p r) = rs_files r" "rs_blocks (free_opt p r) = rs_blocks r - owned_ptr p"
  by (simp_all add: free_opt_def free_mem_def owned_ptr_def split: option.split)

lemma pthread_join_total:
  assumes "os_live S" and "ring_ok w" and "wr_stop w"
  shows "\<exists>w'. pthread_join_writer S w = Some w' \<and> wr_thread w' = Exited \<and> wr_count w' = 0"
proof (cases "\<exists>job. wr_thread w = Working job")
  case True
  then obtain job where job: "wr_thread w = Working job" ..
  obtain w1 where w1: "snapshot_writer_work S job w = Some w1" "wr_stop w1 = wr_stop w"
    "wr_queue w1 = wr_queue w" "wr_head w1 = wr_head w" "wr_tail w1 = wr_tail w" "wr_count w1 = wr_count w"
    using work_live [OF assms(1) [unfolded os_live_def], of job w] by metis
  have "ring_ok w1" using assms(2) w1(3-6) by (simp add: ring_ok_def)
  with writer_loop_drains [OF assms(1) [unfolded os_live_def], of w1] w1(1,2) assms(3) job show ?thesis
    by (auto simp: pthread_join_writer_def)
next
  case False
  with writer_loop_drains [OF assms(1) [unfolded os_live_def] assms(2,3)] show ?thesis
    by (auto simp: pthread_join_writer_def split: writer_thread.split)
qed

lemma free_slots_queue:
  "length (wr_queue (free_slots is w)) = length (wr_queue w) \<and>
   (\<forall>i < length (wr_queue w). i \<in> set is \<or> wr_queue w ! i = zero_job \<longrightarrow> wr_queue (free_slots is w) ! i = zero_job)"
proof (induction "is" arbitrary: w)
  case (Cons k "is")
  obtain w1 where w1: "snapshot_free_job (wr_queue w ! k) w = (zero_job, w1)" and q: "wr_queue w1 = wr_queue w"
    by (cases "jb_data (wr_queue w ! k)") (auto simp: snapshot_free_job_def free_block_def)
  have "(wr_queue w)[k := zero_job] ! i = zero_job" if "i = k \<or> wr_queue w ! i = zero_job" "i < length (wr_queue w)" for i
    using that by (cases "i = k") simp_all
  with Cons [of "w1\<lparr>wr_queue := (wr_queue w1)[k := zero_job]\<rparr>"] show ?case by (simp add: w1 q)
qed simp

lemma deinit_end_ok:
  assumes "length (wr_queue w) = 4"
  shows "ring_ok (snapshot_writer_deinit_end w)" and "\<not> wr_started (snapshot_writer_deinit_end w)"
  using assms free_slots_queue [of "[0..<SNAPSHOT_QUEUE_DEPTH]" w]
  by (auto simp: snapshot_writer_deinit_end_def ring_ok_def SNAPSHOT_QUEUE_DEPTH_def)

lemma work_queue_length:
  "snapshot_writer_work S job w = Some w' \<Longrightarrow> wr_queue w' = wr_queue w"
  by (auto simp: snapshot_writer_work_def snapshot_free_job_def free_block_def split: option.splits if_splits)

lemma loop_queue_length:
  "snapshot_writer_loop S n w = Some w' \<Longrightarrow> length (wr_queue w') = length (wr_queue w)"
proof (induction S n w rule: snapshot_writer_loop.induct)
  case (2 S n w)
  obtain w1 where t: "snapshot_writer_take w = Some w1" using 2(2) by (auto split: option.splits)
  then have len: "length (wr_queue w1) = length (wr_queue w)"
    by (auto simp: snapshot_writer_take_def snapshot_pop_job_def split: if_splits option.splits)
  show ?case
  proof (cases "wr_thread w1")
    case (Working j)
    then obtain w2 where w2: "snapshot_writer_work S j w1 = Some w2" using 2(2) t by (auto split: option.splits)
    with 2 t Working len work_queue_length [OF w2] show ?thesis by auto
  qed (use 2(2) t len in auto)
qed simp

lemma snapshot_writer_deinit_total:
  assumes "os_live S" and "ring_ok w"
  shows "\<exists>w'. snapshot_writer_deinit S w = Some w' \<and> ring_ok w' \<and> \<not> wr_started w'"
proof (cases "wr_started w")
  case True
  let ?w1 = "w\<lparr>wr_stop := True\<rparr>"
  have "ring_ok ?w1" using assms(2) by (simp add: ring_ok_def)
  from pthread_join_total [OF assms(1) this] obtain w2 where w2: "pthread_join_writer S ?w1 = Some w2" by auto
  have "length (wr_queue w2) = 4"
    using w2 assms(2)
    by (auto simp: pthread_join_writer_def ring_ok_def split: writer_thread.splits option.splits
        dest!: loop_queue_length work_queue_length simp del: snapshot_writer_loop.simps)
  from deinit_end_ok [OF this] True w2 show ?thesis
    by (simp add: snapshot_writer_deinit_def snapshot_writer_deinit_begin_def)
next
  case False
  with assms(2) show ?thesis by (simp add: snapshot_writer_deinit_def snapshot_writer_deinit_begin_def)
qed

text \<open>The shutdown ends and gives everything back.\<close>

lemma cleanup_resources_total:
  assumes "os_live (S :: os_env)" and "process_ok p"
  shows "\<exists>p'. cleanup_resources S p = Some p' \<and> process_ok p' \<and> rs_blocks (pr_resources p') = 0 \<and>
    rs_files (pr_resources p') = rs_files (pr_resources p) \<and> \<not> wr_started (pr_writer p') \<and>
    pr_sockets p' = pr_sockets p \<and> pr_cache p' = cache_zero \<and> g_nalu_count (pr_globals p') = g_nalu_count (pr_globals p)"
proof -
  obtain w where w: "snapshot_writer_deinit S (pr_writer p) = Some w" "ring_ok w" "\<not> wr_started w"
    using snapshot_writer_deinit_total [OF assms(1)] assms(2) by (auto simp: process_ok_def)
  obtain p1 where p1: "(if pr_snapshot_ready p
        then map_option (\<lambda>w. p\<lparr>pr_writer := w, pr_snapshot_ready := False\<rparr>) (snapshot_writer_deinit S (pr_writer p))
        else Some p) = Some p1"
    and f: "ring_ok (pr_writer p1)" "\<not> wr_started (pr_writer p1)" "\<not> pr_snapshot_ready p1" "pr_params p1 = pr_params p"
      "pr_globals p1 = pr_globals p" "pr_resources p1 = pr_resources p" "pr_sockets p1 = pr_sockets p"
    using w assms(2) by (cases "pr_snapshot_ready p") (auto simp: process_ok_def)
  define r where "r = free_opt (g_file_buf (pr_globals p)) (free_opt (g_nalus (pr_globals p))
      (free_opt (pr_params p PPS) (free_opt (pr_params p SPS) (free_opt (pr_params p VPS) (pr_resources p)))))"
  have "rs_blocks r = 0" "rs_files r = rs_files (pr_resources p)"
    using assms(2) by (simp_all add: r_def process_ok_def owned_def)
  moreover have "cleanup_resources S p = Some (p1\<lparr>pr_cache := cache_zero, pr_params := (\<lambda>_. None),
      pr_globals := (pr_globals p1)\<lparr>g_nalus := None, g_file_buf := None\<rparr>, pr_resources := r\<rparr>)"
    unfolding cleanup_resources_def p1 by (simp add: Let_def r_def f)
  ultimately show ?thesis using f by (simp add: process_ok_def owned_def owned_ptr_def)
qed

section \<open>Starting\<close>

lemma snapshot_writer_init_ok:
  assumes "snapshot_writer_init S created d w = (ret, w')" and "ring_ok w" and "\<not> wr_started w"
    and "wr_count w = 0" and "\<forall>i < 4. wr_queue w ! i = zero_job"
  shows "ring_ok w' \<and> (ret = 0 \<longleftrightarrow> wr_started w')"
  using assms
  by (auto simp: snapshot_writer_init_def ring_ok_def Let_def split: prod.splits if_splits)

lemma parse_args_loop_frame:
  "parse_args_loop args p g = (x, g') \<Longrightarrow>
     g_file_buf g' = g_file_buf g \<and> g_nalus g' = g_nalus g \<and> g_nalu_count g' = g_nalu_count g"
proof (induction args p g rule: parse_args_loop.induct)
  case (2 arg args p g)
  show ?case
  proof (cases "arg = ''--fifo''")
    case fifo: True
    show ?thesis
    proof (cases args)
      case (Cons t rest)
      let ?g = "g\<lparr>g_source := STREAM_SOURCE_DATAFIFO, g_fifo_phy_addr := parse_u64_arg (Some t)\<rparr>"
      have e: "parse_args_loop (arg # args) p g =
          (if parse_u64_arg (Some t) = 0 then (None, ?g) else parse_args_loop rest p ?g)"
        using fifo Cons by (simp add: Let_def)
      show ?thesis
        using 2(1) [OF fifo Cons refl] 2(3) unfolding e by (cases "parse_u64_arg (Some t) = 0") auto
    qed (use 2(3) fifo in simp)
  next
    case False
    with 2(2) [OF False] 2(3) show ?thesis
      by (cases "arg \<noteq> [] \<and> hd arg = CHR ''-''"; cases "p = None") auto
  qed
qed simp

text \<open>The source is there.\<close>

definition source_ok :: "globals \<Rightarrow> bool" where
  "source_ok g \<longleftrightarrow>
     (case g_source g of
        STREAM_SOURCE_DATAFIFO \<Rightarrow> g_fifo_phy_addr g \<noteq> 0 \<and> g_file_buf g = None \<and> g_nalus g = None
      | STREAM_SOURCE_FILE \<Rightarrow> (\<exists>buf ns. g_file_buf g = Some buf \<and> g_nalus g = Some ns \<and> ns \<noteq> [] \<and>
          ns = map fst (annexb_units buf 0) \<and> g_nalu_count g = length ns))"

lemma parse_args_cases:
  assumes "parse_args F A argv globals_init r = (k, g', r')"
  shows "rs_files r' = rs_files r \<and>
    (if k = 0 then source_ok g' else k = -1 \<and> g_file_buf g' = None \<and> g_nalus g' = None) \<and>
    rs_blocks r' = rs_blocks r + owned_ptr (g_file_buf g') + owned_ptr (g_nalus g')"
proof -
  obtain x g1 where x: "parse_args_loop (tl argv) None globals_init = (x, g1)"
    by (cases "parse_args_loop (tl argv) None globals_init")
  have g1: "g_file_buf g1 = None" "g_nalus g1 = None"
    using parse_args_loop_frame [OF x] by (simp_all add: globals_init_def)
  show ?thesis
  proof (cases "x = None \<or> g_source g1 = STREAM_SOURCE_DATAFIFO \<or> x = Some None")
    case True
    have "g_fifo_phy_addr g1 \<noteq> 0" if some: "x = Some None" and src: "g_source g1 = STREAM_SOURCE_DATAFIFO"
    proof -
      obtain ts where ts: "accepted (tl argv) None None ts" "g1 = fold set_fifo ts globals_init"
        using x some parse_args_loop_iff by blast
      have "ts \<noteq> []" using ts(2) src by (auto simp: globals_init_def)
      with accepted_None [OF ts(1)] ts(2) fold_set_fifo show ?thesis by (auto simp: set_fifo_def addr_ok_def)
    qed
    with True assms x g1 show ?thesis
      by (auto simp: parse_args_def source_ok_def owned_ptr_def split: option.splits if_splits)
  next
    case False
    then obtain path where path: "x = Some (Some path)" by (metis not_None_eq)
    have "load_file_source F A path (g1\<lparr>g_source := STREAM_SOURCE_FILE\<rparr>) r = (k, g', r')"
      using False path assms x by (simp add: parse_args_def)
    from load_file_source_cases [OF this] g1 show ?thesis
      by (auto simp: source_ok_def owned_ptr_def split: if_splits)
  qed
qed

text \<open>What the sender thread may have done meanwhile, as far as \<open>main\<close> depends on it.\<close>

definition sender_acts_ok :: "main_env \<Rightarrow> bool" where
  "sender_acts_ok E \<longleftrightarrow> (\<forall>p. process_ok p \<longrightarrow> process_ok (me_sender_acts E p) \<and>
     pr_globals (me_sender_acts E p) = pr_globals p \<and> rs_files (pr_resources (me_sender_acts E p)) = rs_files (pr_resources p) \<and>
     pr_sender (me_sender_acts E p) = pr_sender p)"

definition process_init :: "fs \<Rightarrow> session \<Rightarrow> process" where
  "process_init f g = \<lparr>pr_globals = globals_init, pr_resources = \<lparr>rs_files = 0, rs_blocks = 0\<rparr>, pr_snapshot_ready = False,
     pr_writer = writer_zero f, pr_cache = cache_zero, pr_params = (\<lambda>_. None), pr_sender = False, pr_sockets = [],
     pr_conn = \<lparr>rc_calls = 0, rc_out = [], rc_shared = \<lparr>sh_session = g, sh_locks = 0\<rparr>, rc_signals = 0\<rparr>, pr_closed = []\<rparr>"

lemma start_rtsp_server_ret:
  "start_rtsp_server K tr = (fd, tr') \<Longrightarrow> (fd < 0 \<longrightarrow> fd = -1) \<and> (0 \<le> fd \<longrightarrow> (\<exists>tr0. tr' = tr0 @ [Listen fd 5]))"
  by (auto simp: start_rtsp_server_def Let_def split: if_splits)

text \<open>\<open>main\<close> after the command line: the snapshot writer, then the thread and the server.\<close>

definition with_writer :: "main_env \<Rightarrow> process \<Rightarrow> process" where
  "with_writer E p =
     (if g_source (pr_globals p) = STREAM_SOURCE_DATAFIFO then
        (case snapshot_writer_init (me_os E) (me_writer_thread E) (Some SNAPSHOT_DEFAULT_DIR) (pr_writer p) of
           (ret, w) \<Rightarrow> if ret = 0 then p\<lparr>pr_writer := w, pr_snapshot_ready := True\<rparr> else p\<lparr>pr_writer := w\<rparr>)
      else p)"

definition start_serving :: "main_env \<Rightarrow> process \<Rightarrow> (int \<times> process) option" where
  "start_serving E p =
     (case start_rtsp_server (me_sock E) (pr_sockets p) of
        (listen_fd, tr) \<Rightarrow>
          if listen_fd < 0 then map_option (\<lambda>p'. (-1, p')) (cleanup_resources (me_os E) (p\<lparr>pr_sockets := tr\<rparr>))
          else Some (listen_fd, p\<lparr>pr_sockets := tr\<rparr>))"

lemma main_start_stages:
  "main_start E argv p =
     (case parse_args (me_files E) (me_alloc E) argv (pr_globals p) (pr_resources p) of
        (k, g, r) \<Rightarrow>
          let p1 = p\<lparr>pr_globals := g, pr_resources := r\<rparr> in
          if k \<noteq> 0 then Some (-1, p1)
          else if \<not> me_sender_thread E then map_option (\<lambda>p'. (-1, p')) (cleanup_resources (me_os E) (with_writer E p1))
          else start_serving E (me_sender_acts E ((with_writer E p1)\<lparr>pr_sender := True\<rparr>)))"
  by (simp add: main_start_def with_writer_def start_serving_def Let_def split: prod.split)

lemma with_writer_ok:
  assumes "process_ok p" and "pr_writer p = writer_zero f" and "\<not> pr_snapshot_ready p"
  shows "process_ok (with_writer E p) \<and> pr_globals (with_writer E p) = pr_globals p \<and>
    pr_resources (with_writer E p) = pr_resources p"
proof -
  have w0: "ring_ok (writer_zero f)" "\<not> wr_started (writer_zero f)" "wr_count (writer_zero f) = 0"
    "\<forall>i < 4. wr_queue (writer_zero f) ! i = zero_job"
    by (simp_all add: writer_zero_def ring_ok_def)
  obtain ret w where wi: "snapshot_writer_init (me_os E) (me_writer_thread E) (Some SNAPSHOT_DEFAULT_DIR) (writer_zero f) = (ret, w)"
    by (metis surj_pair)
  from snapshot_writer_init_ok [OF wi w0] wi assms w0 show ?thesis
    by (auto simp: with_writer_def process_ok_def owned_def)
qed

lemma start_serving_ok:
  assumes "os_live (me_os E)" and "process_ok p" and "rs_files (pr_resources p) = 0"
  shows "\<exists>rc p'. start_serving E p = Some (rc, p') \<and> rs_files (pr_resources p') = 0 \<and>
    (if rc < 0 then rc = -1 \<and> rs_blocks (pr_resources p') = 0 \<and> \<not> wr_started (pr_writer p')
     else pr_sender p' = pr_sender p \<and> pr_globals p' = pr_globals p \<and> process_ok p' \<and>
       (\<exists>tr. pr_sockets p' = tr @ [Listen rc 5]))"
proof -
  obtain fd tr where ss: "start_rtsp_server (me_sock E) (pr_sockets p) = (fd, tr)" by (metis surj_pair)
  note ret = start_rtsp_server_ret [OF ss]
  have ok: "process_ok (p\<lparr>pr_sockets := tr\<rparr>)" using assms(2) by (simp add: process_ok_def owned_def)
  show ?thesis
  proof (cases "fd < 0")
    case True
    with cleanup_resources_total [OF assms(1) ok] ss assms(3) show ?thesis by (auto simp: start_serving_def)
  next
    case False
    with ss ret ok assms(3) show ?thesis by (simp add: start_serving_def)
  qed
qed

lemma main_start_cases:
  assumes live: "os_live (me_os E)" and acts: "sender_acts_ok E"
  shows "\<exists>rc p'. main_start E argv (process_init f g) = Some (rc, p') \<and> rs_files (pr_resources p') = 0 \<and>
    (if rc < 0 then rc = -1 \<and> rs_blocks (pr_resources p') = 0 \<and> \<not> wr_started (pr_writer p')
     else pr_sender p' \<and> source_ok (pr_globals p') \<and> process_ok p' \<and> (\<exists>tr. pr_sockets p' = tr @ [Listen rc 5]))"
proof -
  let ?p = "process_init f g"
  obtain k g1 r1 where pa: "parse_args (me_files E) (me_alloc E) argv globals_init \<lparr>rs_files = 0, rs_blocks = 0\<rparr> = (k, g1, r1)"
    by (metis prod_cases3)
  note pc = parse_args_cases [OF pa]
  let ?p1 = "?p\<lparr>pr_globals := g1, pr_resources := r1\<rparr>"
  let ?p2 = "with_writer E ?p1"
  have st: "main_start E argv ?p =
      (if k \<noteq> 0 then Some (-1, ?p1)
       else if \<not> me_sender_thread E then map_option (\<lambda>p'. (-1, p')) (cleanup_resources (me_os E) ?p2)
       else start_serving E (me_sender_acts E (?p2\<lparr>pr_sender := True\<rparr>)))"
    using pa by (simp add: main_start_stages process_init_def Let_def)
  show ?thesis
  proof (cases "k = 0")
    case False
    with pc st show ?thesis by (simp add: process_init_def owned_ptr_def writer_zero_def)
  next
    case True
    have "process_ok ?p1" using pc True
      by (auto simp: process_ok_def owned_def process_init_def owned_ptr_def writer_zero_def ring_ok_def)
    with with_writer_ok [of ?p1 f E] pc True
    have p2: "process_ok ?p2" "pr_globals ?p2 = g1" "rs_files (pr_resources ?p2) = 0" "source_ok g1"
      by (auto simp: process_init_def)
    have "process_ok (?p2\<lparr>pr_sender := True\<rparr>)" using p2(1) by (simp add: process_ok_def owned_def)
    with acts p2 have p3: "process_ok (me_sender_acts E (?p2\<lparr>pr_sender := True\<rparr>))"
      "pr_globals (me_sender_acts E (?p2\<lparr>pr_sender := True\<rparr>)) = g1"
      "rs_files (pr_resources (me_sender_acts E (?p2\<lparr>pr_sender := True\<rparr>))) = 0"
      "pr_sender (me_sender_acts E (?p2\<lparr>pr_sender := True\<rparr>))"
      by (auto simp: sender_acts_ok_def)
    show ?thesis
    proof (cases "me_sender_thread E")
      case False
      with st True cleanup_resources_total [OF live p2(1)] p2(3) show ?thesis by auto
    next
      case thread: True
      with st True have "main_start E argv ?p = start_serving E (me_sender_acts E (?p2\<lparr>pr_sender := True\<rparr>))" by simp
      with start_serving_ok [OF live p3(1,3)] p3(2,4) p2(4) show ?thesis by fastforce
    qed
  qed
qed

section \<open>Serving\<close>

lemma main_loop_serves:
  assumes "\<forall>i. sender_only (M i)"
  shows "session_inv (conn_session (pr_conn p)) \<Longrightarrow>
    (let p' = main_loop S M i cs p; g = conn_session (pr_conn p); g' = conn_session (pr_conn p')
     in pr_closed p' = pr_closed p @ filter (\<lambda>fd. 0 \<le> fd) (map fst cs) \<and> session_inv g' \<and>
        (se_client_addr g' = se_client_addr g \<or>
         (\<exists>(fd, cli, segs) \<in> set cs. 0 \<le> fd \<and> sin_addr (se_client_addr g') = sin_addr cli)) \<and>
        (se_play g' \<longrightarrow> se_play g \<and> (\<forall>fd \<in> fst ` set cs. fd < 0)))"
proof (induction cs arbitrary: p i)
  case (Cons c cs)
  obtain fd cli segs where c: "c = (fd, cli, segs)" by (metis prod_cases3)
  show ?case
  proof (cases "fd < 0")
    case True
    with Cons.IH [OF Cons.prems, of "i + 1"] show ?thesis by (fastforce simp: c Let_def)
  next
    case False
    let ?c0 = "(pr_conn p)\<lparr>rc_calls := 0, rc_out := []\<rparr>"
    let ?p = "p\<lparr>pr_conn := handle_rtsp_client (S i) (M i) cli segs ?c0, pr_closed := pr_closed p @ [fd]\<rparr>"
    have g0: "conn_session ?c0 = conn_session (pr_conn p)" by (simp add: conn_session_def)
    have one: "session_inv (conn_session (pr_conn ?p))" "\<not> se_play (conn_session (pr_conn ?p))"
      "se_client_addr (conn_session (pr_conn ?p)) = se_client_addr (conn_session (pr_conn p)) \<or>
       sin_addr (se_client_addr (conn_session (pr_conn ?p))) = sin_addr cli"
      using handle_rtsp_client_session [of "M i" ?c0 "S i" cli segs] assms Cons.prems by (simp_all add: g0 Let_def)
    have step: "main_loop S M i (c # cs) p = main_loop S M (i + 1) cs ?p" using False by (simp add: c)
    from Cons.IH [OF one(1), of "i + 1"] one(2,3) False show ?thesis
      unfolding step by (fastforce simp: c Let_def)
  qed
qed (simp add: Let_def)

section \<open>Properties\<close>


definition demo_main :: main_env where
  "demo_main = \<lparr>me_files = demo_files, me_alloc = (\<lambda>_ _. True), me_os = demo_os,
     me_sock = \<lparr>sk_socket = (\<lambda>_. 3), sk_bind = (\<lambda>_ _. 0), sk_listen = (\<lambda>_. -1)\<rparr>,
     me_writer_thread = True, me_sender_thread = True, me_sender_acts = (\<lambda>p. p)\<rparr>"


text \<open>
  C14: Serving: whatever clients connect, send and interrupt, and however the sender thread interferes,
  \<open>main\<close> closes every accepted connection, once and in their order; after a connection nothing
  is played; and the media target is the one of before or the IP address of one of the
  clients that connected, always well-formed.
\<close>

theorem main_loop_safe:
  assumes "\<forall>i. sender_only (M i)" and "session_inv (conn_session (pr_conn p))"
  shows "let p' = main_loop S M i cs p; g = conn_session (pr_conn p); g' = conn_session (pr_conn p')
     in pr_closed p' = pr_closed p @ filter (\<lambda>fd. 0 \<le> fd) (map fst cs) \<and> session_inv g' \<and>
        (se_client_addr g' = se_client_addr g \<or>
         (\<exists>(fd, cli, segs) \<in> set cs. 0 \<le> fd \<and> sin_addr (se_client_addr g') = sin_addr cli)) \<and>
        (se_play g' \<longrightarrow> se_play g \<and> (\<forall>fd \<in> fst ` set cs. fd < 0))"
  by (rule main_loop_serves [OF assms])

theorem main_loop_safe_witness:
  "pr_closed (main_loop (\<lambda>_ _ _. 1) (\<lambda>_ _ g. g) 0 [(5, null_addr, [''PLAY x'']), (-1, null_addr, []), (6, null_addr, [])]
     (process_init demo_fs session_init)) = [5, 6]"
  using main_loop_safe [of "\<lambda>_ _ g. g" "process_init demo_fs session_init" "\<lambda>_ _ _. 1" 0
      "[(5, null_addr, [''PLAY x'']), (-1, null_addr, []), (6, null_addr, [])]"]
  by (simp add: sender_only_def process_init_def conn_session_def session_init_def session_inv_def Let_def)

text \<open>The socket of the sender thread, when it is closed again.\<close>

lemma udp_socket_opened:
  assumes "fresh_socket K SOCK_DGRAM (open_sockets K tr m)" and "create_udp_socket_only K tr = (sock, tr1)"
  shows "open_sockets K tr1 m =
      (if sock < 0 then open_sockets K tr m else (open_sockets K tr m)(sock \<mapsto> Some (local_address 5004)))"
    and "\<not> sock < 0 \<Longrightarrow> open_sockets K (tr1 @ [Close sock]) m = open_sockets K tr m"
proof -
  from create_udp_socket_only_opens [OF assms] show o: "open_sockets K tr1 m =
      (if sock < 0 then open_sockets K tr m else (open_sockets K tr m)(sock \<mapsto> Some (local_address 5004)))"
    by (simp add: RTP_SERVER_PORT_def)
  assume "\<not> sock < 0"
  moreover from this have "sock \<notin> dom (open_sockets K tr m)"
    using assms by (auto simp: fresh_socket_def create_udp_socket_only_def Let_def split: if_splits)
  ultimately show "open_sockets K (tr1 @ [Close sock]) m = open_sockets K tr m"
    using o by (auto simp: open_sockets_append fun_eq_iff domIff)
qed

text \<open>
  The sender thread and its socket: whatever the system answers, when the thread ends the open
  descriptors are those of before, and while it runs or waits it has exactly one more,
  bound to the RTP port.
\<close>

theorem rtp_sender_thread_socket:
  assumes "fresh_socket K SOCK_DGRAM (open_sockets K tr m)"
  shows "case rtp_sender_thread K g V s R N u sh n tr of (st, tr') \<Rightarrow>
    (if st = Ended then open_sockets K tr' m = open_sockets K tr m
     else \<exists>fd \<ge> 0. open_sockets K tr' m = (open_sockets K tr m)(fd \<mapsto> Some (local_address 5004)))"
proof -
  obtain sock tr1 where c: "create_udp_socket_only K tr = (sock, tr1)" by (metis surj_pair)
  note o = udp_socket_opened [OF assms c]
  show ?thesis using c o
    by (cases "sock < 0") (auto simp: rtp_sender_thread_def not_less split: option.split)
qed

theorem rtp_sender_thread_socket_witness:
  "let K = \<lparr>sk_socket = (\<lambda>_. -1), sk_bind = (\<lambda>_ _. 0), sk_listen = (\<lambda>_. 0)\<rparr>
   in open_sockets K (snd (rtp_sender_thread K globals_init demo_sender_env (demo_sender 0) (\<lambda>_ g. g) (\<lambda>_ _. 1)
        \<lparr>udp_calls = 0, udp_sent = []\<rparr> \<lparr>sh_session = session_init, sh_locks = 0\<rparr> 3 [])) Map.empty = Map.empty"
  using rtp_sender_thread_socket [of "\<lparr>sk_socket = (\<lambda>_. -1), sk_bind = (\<lambda>_ _. 0), sk_listen = (\<lambda>_. 0)\<rparr>" "[]" Map.empty
      globals_init demo_sender_env "demo_sender 0" "\<lambda>_ g. g" "\<lambda>_ _. 1" "\<lparr>udp_calls = 0, udp_sent = []\<rparr>"
      "\<lparr>sh_session = session_init, sh_locks = 0\<rparr>" 3]
  by (simp add: fresh_socket_def rtp_sender_thread_def create_udp_socket_only_def Let_def)

end
