(* ===== verification/System.thy ===== *)
theory System
  imports Server Live_Path
begin

unbundle bit_operations_syntax

text \<open>
  The running process in DATAFIFO mode: the RTSP thread, the sender thread and the snapshot writer, each
  with its own steps, interleaved in every way. It is shown that what each thread assumes of the others is
  what they do, and which invariants the process keeps from its start on.
\<close>

section \<open>What the threads guarantee each other\<close>

text \<open>The effect of a connection on the session, whatever the sender does in between, are steps of the machine.\<close>

lemma client_step_machine: "client_step cli g g' \<Longrightarrow> session_machine g g'"
  by (erule client_stepE)
    (auto intro: machine_rtsp step_setup step_play step_stop machine_sender)

lemma client_steps_machine: "(client_step cli)\<^sup>*\<^sup>* g g' \<Longrightarrow> session_machine\<^sup>*\<^sup>* g g'"
  by (induction rule: rtranclp_induct) (auto intro: rtranclp.rtrancl_into_rtrancl client_step_machine)

lemma handle_rtsp_client_machine:
  assumes "sender_only M"
  shows "session_machine\<^sup>*\<^sup>* (conn_session c) (conn_session (handle_rtsp_client S M cli segs c))"
proof -
  have "(client_step cli)\<^sup>*\<^sup>* (conn_session c) (conn_session (handle_rtsp_client S M cli segs c))"
    unfolding handle_rtsp_client_def
    by (rule rtranclp_trans [OF handle_rtsp_loop_steps [OF assms] with_mutex_steps [OF assms client_stop]])
  then show ?thesis by (rule client_steps_machine)
qed

definition at_session :: "session \<Rightarrow> sender \<Rightarrow> sender" where
  "at_session g s = s\<lparr>sd_player := (sd_player s)\<lparr>pl_shared := (pl_shared (sd_player s))\<lparr>sh_session := g\<rparr>\<rparr>\<rparr>"

lemma at_session_simps [simp]:
  "pl_session (sd_player (at_session g s)) = g" "sd_writer (at_session g s) = sd_writer s"
  "sd_reader (at_session g s) = sd_reader s" "sd_fifo (at_session g s) = sd_fifo s"
  "sd_cache (at_session g s) = sd_cache s" "pl_cache (sd_player (at_session g s)) = pl_cache (sd_player s)"
  "pl_mem (sd_player (at_session g s)) = pl_mem (sd_player s)" "pl_seq (sd_player (at_session g s)) = pl_seq (sd_player s)"
  "pl_udp (sd_player (at_session g s)) = pl_udp (sd_player s)"
  by (simp_all add: at_session_def)

text \<open>The RTSP thread as the sender finds it, and the sender as the RTSP thread finds it.\<close>

definition rtsp_thread :: "send_env \<Rightarrow> rtsp_env \<Rightarrow> (nat \<Rightarrow> sockaddr_in \<times> string list) \<Rightarrow> rtsp_conn \<Rightarrow> rtsp_env" where
  "rtsp_thread S M client c t g =
     conn_session (handle_rtsp_client S M (fst (client t)) (snd (client t)) (c\<lparr>rc_shared := \<lparr>sh_session = g, sh_locks = 0\<rparr>\<rparr>))"

definition sender_thread :: "(nat \<Rightarrow> sender_env) \<Rightarrow> (nat \<Rightarrow> nat) \<Rightarrow> (nat \<Rightarrow> sender) \<Rightarrow> rtsp_env" where
  "sender_thread V iterations st t g =
     pl_session (sd_player (datafifo_sender_run (V t) (iterations t) (at_session g (st t))))"

section \<open>The writer thread and the sender\<close>

text \<open>The steps of the queue that are not the sender's.\<close>

inductive writer_alone :: "os_env \<Rightarrow> writer \<Rightarrow> writer \<Rightarrow> bool" for S :: os_env where
  wa_take: "wr_thread w = Waiting \<Longrightarrow> snapshot_writer_take w = Some w' \<Longrightarrow> writer_alone S w w'"
| wa_work: "wr_thread w = Working j \<Longrightarrow> snapshot_writer_work S j w = Some w' \<Longrightarrow> writer_alone S w w'"
| wa_stop: "snapshot_writer_deinit_begin w = Some w' \<Longrightarrow> writer_alone S w w'"
| wa_join: "wr_stop w \<Longrightarrow> wr_thread w = Exited \<Longrightarrow> writer_alone S w (snapshot_writer_deinit_end w)"

lemma writer_alone_step: "writer_alone S w w' \<Longrightarrow> writer_step S (gs, acc, w) (gs, acc, w')"
  by (induction rule: writer_alone.induct) (auto intro: writer_step.intros)

lemma writer_alone_steps: "(writer_alone S)\<^sup>*\<^sup>* w w' \<Longrightarrow> (writer_step S)\<^sup>*\<^sup>* (gs, acc, w) (gs, acc, w')"
  by (induction rule: rtranclp_induct) (auto intro: rtranclp.rtrancl_into_rtrancl writer_alone_step)

text \<open>
  \<open>writer_reaches S a bs w w'\<close>: from \<open>w\<close>, while the blocks handed over are among \<open>bs\<close>, the two-thread machine
  of the queue gets to \<open>w'\<close>, handing over at most the block \<open>a\<close>.
\<close>

definition writer_reaches :: "os_env \<Rightarrow> nat \<Rightarrow> writer \<Rightarrow> writer \<Rightarrow> bool" where
  "writer_reaches S a w w' \<longleftrightarrow> (\<forall>gs acc. a \<notin> set gs \<longrightarrow>
     (\<exists>gs' acc'. (writer_step S)\<^sup>*\<^sup>* (gs, acc, w) (gs', acc', w') \<and> set gs' \<subseteq> insert a (set gs)))"

lemma writer_reaches_refl: "writer_reaches S a w w"
  by (auto simp: writer_reaches_def)

lemma snapshot_process_writer:
  assumes p: "datafifo_snapshot_process A E a (Some msg) ready st = (r, st')"
    and w: "(writer_alone S)\<^sup>*\<^sup>* w (ss_writer st)"
  shows "writer_reaches S a w (ss_writer st')"
proof -
  have same: "writer_reaches S a w (ss_writer st)"
    using writer_alone_steps [OF w] unfolding writer_reaches_def by blast
  show ?thesis
  proof (cases "msg_reserved msg AND MPP_NALU_IPC_FLAG_SNAPSHOT = 0")
    case True
    with p same show ?thesis by (simp add: datafifo_snapshot_process_def)
  next
    case False
    then show ?thesis
    proof (rule process_cases [OF _ p refl])
      fix out used
      assume e: "snapshot_writer_enqueue_h265_take (Some (a, bb_bytes out))
             (if used then sc_current_gop_pts (ss_cache st') else msg_frame_pts msg)
             (Some (if used then ''datafifo-cached-gop'' else ''datafifo-irap'')) (ss_writer st) = (r, ss_writer st')"
      show ?thesis unfolding writer_reaches_def
      proof (intro allI impI)
        fix gs acc
        assume "a \<notin> set gs"
        note enq = ws_enqueue [OF this e, of S acc]
        have "(writer_step S)\<^sup>*\<^sup>* (gs, acc, w) (gs, acc, ss_writer st)" by (rule writer_alone_steps [OF w])
        then have "(writer_step S)\<^sup>*\<^sup>* (gs, acc, w) (gs @ [a], if r = 0 then acc @ [make_job (a, bb_bytes out)
             (if used then sc_current_gop_pts (ss_cache st') else msg_frame_pts msg)
             (Some (if used then ''datafifo-cached-gop'' else ''datafifo-irap''))] else acc, ss_writer st')"
          using enq by (rule rtranclp.rtrancl_into_rtrancl)
        then show "\<exists>gs' acc'. (writer_step S)\<^sup>*\<^sup>* (gs, acc, w) (gs', acc', ss_writer st') \<and> set gs' \<subseteq> insert a (set gs)"
          by (intro exI conjI) (assumption, simp)
      qed
    qed (use same in simp_all)
  qed
qed

definition writer_only :: "os_env \<Rightarrow> (nat \<Rightarrow> writer \<Rightarrow> writer) \<Rightarrow> bool" where
  "writer_only S ev \<longleftrightarrow> (\<forall>t w. (writer_alone S)\<^sup>*\<^sup>* w (ev t w))"

lemma sender_message_writer:
  assumes "writer_only S (ev_writer V)"
  shows "writer_reaches S (ev_block V (sd_snapshots s)) (sd_writer s) (sd_writer (sender_message V msg dest c need s))"
proof (cases "sd_last_read_seq s \<noteq> 0 \<and> msg_seq msg \<le> sd_last_read_seq s")
  case True
  then show ?thesis by (simp add: sender_message_def writer_reaches_refl)
next
  case False
  then show ?thesis
  proof (rule message_fresh [where V = V and c = c and dest = dest and need = need])
    fix ret s2 ms s3
    assume a: "(if msg_reserved msg AND MPP_NALU_IPC_FLAG_SNAPSHOT \<noteq> 0
        then sender_snapshot V msg (s\<lparr>sd_last_read_seq := msg_seq msg\<rparr>)
        else (0, s\<lparr>sd_last_read_seq := msg_seq msg\<rparr>)) = (ret, s2)"
      and b: "(if c then clock_ms V s2 else (0, s2)) = (ms, s3)"
      and m: "sd_writer (sender_message V msg dest c need s) = sd_writer s3"
    have "(writer_alone S)\<^sup>*\<^sup>* (sd_writer s) (ev_writer V (sd_snapshots s) (sd_writer s))"
      using assms by (simp add: writer_only_def)
    then have "writer_reaches S (ev_block V (sd_snapshots s)) (sd_writer s) (sd_writer s2)"
      using a snapshot_process_writer [where w = "sd_writer s" and S = S]
      by (fastforce simp: sender_snapshot_def writer_reaches_refl split: if_splits prod.splits)
    moreover have "sd_writer s3 = sd_writer s2" using b clock_ms_frame [of V s2 ms s3] by (auto split: if_splits)
    ultimately show ?thesis using m by simp
  qed
qed

lemma sender_step_writer:
  assumes "writer_only S (ev_writer V)"
  shows "writer_reaches S (ev_block V (sd_snapshots s)) (sd_writer s) (sd_writer (datafifo_sender_step V s))"
proof (rule step_cases [of V s])
  assume "sd_writer (datafifo_sender_step V s) = sd_writer s"
  then show ?thesis by (simp add: writer_reaches_refl)
next
  fix msg dest playing valid need s4 s5 f'
  assume s4: "sd_writer s4 = sd_writer s" "sd_snapshots s4 = sd_snapshots s"
    and s5: "s5 = (if nalu_datafifo_validate_msg (Some msg) = 0
             then sender_message V msg dest (playing \<and> valid) need s4 else s4)"
    and st: "datafifo_sender_step V s = s5\<lparr>sd_fifo := f'\<rparr>"
  from sender_message_writer [OF assms, of s4] s4 s5 st show ?thesis
    by (simp add: writer_reaches_refl)
qed

section \<open>The process\<close>

text \<open>
  The state: the sender with everything it shares, and the addresses that \<open>malloc\<close> gave for the blocks of
  snapshots. An iteration of the sender comes with an environment of its own, which says what the other threads did
  at each of its critical sections; the machine of the memory \<open>E\<close> is the same throughout.
\<close>

type_synonym system = "sender \<times> nat list"

definition admissible :: "os_env \<Rightarrow> mmap_env \<Rightarrow> sender_env \<Rightarrow> bool" where
  "admissible S E V \<longleftrightarrow> w_mmap (ev_world V) = E \<and> machine_only (w_rtsp (ev_world V)) \<and> writer_only S (ev_writer V)"

inductive system_step :: "os_env \<Rightarrow> mmap_env \<Rightarrow> system \<Rightarrow> system \<Rightarrow> bool" for S :: os_env and E :: mmap_env where
  sys_rtsp: "session_step (pl_session (sd_player s)) g \<Longrightarrow> system_step S E (s, bs) (at_session g s, bs)"
| sys_writer: "writer_alone S (sd_writer s) w \<Longrightarrow> system_step S E (s, bs) (s\<lparr>sd_writer := w\<rparr>, bs)"
| sys_sender: "admissible S E V \<Longrightarrow> ev_block V (sd_snapshots s) \<notin> set bs \<Longrightarrow>
    system_step S E (s, bs) (datafifo_sender_step V s, ev_block V (sd_snapshots s) # bs)"

definition system_ok :: "system \<Rightarrow> bool" where
  "system_ok c \<longleftrightarrow> (case c of (s, bs) \<Rightarrow>
     session_inv (pl_session (sd_player s)) \<and>
     rd_opened (sd_reader s) \<and> pending_items (sd_fifo s) = [] \<and>
     mm_maps (pl_mem (sd_player s)) = [] \<and>
     cache_inv (pl_cache (sd_player s)) \<and> snapshot_cache_ok (sd_cache s) \<and>
     wire_ok SENDER_SSRC 0 (udp_sent (pl_udp (sd_player s))) \<and>
     pl_seq (sd_player s) = of_nat (length (udp_sent (pl_udp (sd_player s)))) \<and>
     (\<exists>gs acc. writer_inv (gs, acc, sd_writer s) \<and> set gs \<subseteq> set bs))"

lemma writer_steps_inv: "(writer_step S)\<^sup>*\<^sup>* c c' \<Longrightarrow> writer_inv c \<Longrightarrow> writer_inv c'"
  by (induction rule: rtranclp_induct) (auto intro: writer_step_inv)

lemma sender_step_ok:
  assumes E: "page_size_ok E" "munmap_accepts E" "maps_fresh E no_maps"
    and adm: "admissible S E V" and new: "ev_block V (sd_snapshots s) \<notin> set bs" and ok: "system_ok (s, bs)"
  shows "system_ok (datafifo_sender_step V s, ev_block V (sd_snapshots s) # bs)"
proof -
  let ?s = "datafifo_sender_step V s" and ?a = "ev_block V (sd_snapshots s)"
  note ok = ok [unfolded system_ok_def prod.case]
  have W: "w_mmap (ev_world V) = E" "machine_only (w_rtsp (ev_world V))" "writer_only S (ev_writer V)"
    using adm by (simp_all add: admissible_def)
  have "maps_fresh E (pl_mem (sd_player s))" by (rule maps_fresh_cong [OF _ E(3)]) (use ok in \<open>simp add: no_maps_def\<close>)
  with step_safe [of V s] E(1,2) W(1) ok
  have mem: "snapshot_cache_ok (sd_cache ?s)" "mm_maps (pl_mem (sd_player ?s)) = []" by auto
  have "rd_opened (sd_reader ?s)" "pending_items (sd_fifo ?s) = []"
    using step_events [of s V] ok by (auto simp: pending_items_def pending_after_append)
  moreover have "session_inv (pl_session (sd_player ?s))"
    using machine.step_rel [OF refl refl, where V = V and s = s] W(2) ok by (blast intro: session_machine_inv)
  moreover have "cache_inv (pl_cache (sd_player ?s))" using params.step_rel [OF refl refl, where V = V and s = s] ok by blast
  moreover obtain ds where ds: "udp_sent (pl_udp (sd_player ?s)) = udp_sent (pl_udp (sd_player s)) @ ds"
    "wire_ok SENDER_SSRC (pl_seq (sd_player s)) ds" "pl_seq (sd_player ?s) = pl_seq (sd_player s) + of_nat (length ds)"
    using wire.step_rel [OF refl refl, where V = V and s = s] by (auto simp: on_wire_def)
  moreover have "wire_ok SENDER_SSRC 0 (udp_sent (pl_udp (sd_player s)) @ ds)"
    using ok ds(2) by (intro wire_ok_append) simp_all
  moreover obtain gs acc where inv: "writer_inv (gs, acc, sd_writer s)" "set gs \<subseteq> set bs" using ok by blast
  obtain gs' acc' where "(writer_step S)\<^sup>*\<^sup>* (gs, acc, sd_writer s) (gs', acc', sd_writer ?s)" "set gs' \<subseteq> insert ?a (set gs)"
    using sender_step_writer [OF W(3), of s] inv(2) new unfolding writer_reaches_def by blast
  then have "writer_inv (gs', acc', sd_writer ?s)" "set gs' \<subseteq> set (?a # bs)"
    using writer_steps_inv inv by auto
  ultimately show ?thesis using mem ok unfolding system_ok_def prod.case by auto
qed

lemma system_step_ok:
  assumes "page_size_ok E" "munmap_accepts E" "maps_fresh E no_maps"
  shows "system_step S E c c' \<Longrightarrow> system_ok c \<Longrightarrow> system_ok c'"
proof (induction rule: system_step.induct)
  case (sys_rtsp s g bs)
  then show ?case by (auto simp: system_ok_def dest: session_step_inv)
next
  case (sys_writer s w bs)
  then show ?case by (fastforce simp: system_ok_def dest: writer_alone_step writer_step_inv)
next
  case (sys_sender V s bs)
  with sender_step_ok [OF assms] show ?case by blast
qed

lemma system_steps_ok:
  assumes "page_size_ok E" "munmap_accepts E" "maps_fresh E no_maps"
  shows "(system_step S E)\<^sup>*\<^sup>* c c' \<Longrightarrow> system_ok c \<Longrightarrow> system_ok c'"
  by (induction rule: rtranclp_induct) (auto intro: system_step_ok [OF assms])

section \<open>The start\<close>

text \<open>
  The sender when \<open>main\<close> creates its thread: the static variables are zero, the writer is the one that
  \<open>main\<close> has started (or could not start).
\<close>

definition sender_zero :: "writer \<Rightarrow> bool \<Rightarrow> sender" where
  "sender_zero w ready = \<lparr>sd_fifo = \<lparr>ff_calls = 0, ff_clock = 0, ff_last_idle_log_ms = 0, ff_idle_poll_count = 0, ff_events = []\<rparr>,
     sd_reader = \<lparr>rd_handle = 0, rd_opened = False\<rparr>,
     sd_player = \<lparr>pl_cache = (\<lambda>_. None), pl_missing_log_count = 0, pl_mallocs = 0,
       pl_shared = \<lparr>sh_session = session_init, sh_locks = 0\<rparr>, pl_wait_for_idr = False, pl_seq = 0,
       pl_udp = \<lparr>udp_calls = 0, udp_sent = []\<rparr>, pl_mem = no_maps\<rparr>,
     sd_cache = cache_zero, sd_writer = w, sd_snapshot_ready = ready, sd_snapshots = 0,
     sd_timestamp = 0, sd_last_sent_seq = 0, sd_last_read_seq = 0, sd_last_item_seq = 0, sd_last_item_ms = 0,
     sd_frame_count = 0, sd_idle_loops = 0, sd_last_idle_log_ms = 0, sd_stats = []\<rparr>"

lemma cache_zero_ok: "snapshot_cache_ok cache_zero"
  using demo_cache_inv by (simp add: cache_inv_snapshot_def demo_snapshot_state_def)

lemma sender_thread_start:
  assumes "datafifo_rtp_sender_loop V 0 addr (sender_zero w ready) = Some s" and "writer_inv ([], [], w)"
  shows "system_ok (s, [])"
proof -
  have "sd_player s = sd_player (sender_zero w ready)" "sd_cache s = cache_zero" "sd_writer s = w" "rd_opened (sd_reader s)"
    "\<exists>h. ff_events (sd_fifo s) = [Opened h]"
    using assms(1)
    by (auto simp: datafifo_rtp_sender_loop_def clock_ms_def nalu_datafifo_open_def sender_zero_def Let_def
        split: prod.splits if_splits)
  with assms(2) show ?thesis
    by (auto simp: system_ok_def sender_zero_def session_inv_def session_init_def no_maps_def cache_inv_def
        cache_zero_ok pending_items_def)
qed

lemma writer_inv_freed:
  assumes "writer_inv (gs, acc, w)"
  shows "distinct (wr_freed w) \<and> set (wr_freed w) \<subseteq> set gs"
proof -
  have "mset (wr_freed w) \<subseteq># mset gs" and d: "distinct gs" using assms by (auto simp: writer_inv_def)
  then obtain xs where "mset gs = mset (wr_freed w @ xs)" by (metis mset_append mset_subset_eq_exists_conv ex_mset)
  with d show ?thesis by (metis distinct_append mset_eq_imp_distinct_iff mset_eq_setD set_append Un_upper1)
qed

section \<open>Properties\<close>

text \<open>
  C3: The process in DATAFIFO mode, from the start of its sender thread on, under every
  interleaving of RTSP requests, sender iterations, writer steps and shutdown, and whatever the network, the
  memory, the FIFO and the file system answer: the session has a usable target or none; between two iterations
  no FIFO item is held and no memory is mapped; the parameter sets and the snapshot cache are
  well-formed; everything sent since the start is one RTP stream numbered from 0 without a gap; and no block of a
  snapshot was freed twice.
\<close>

theorem system_well_formed:
  assumes "page_size_ok E" and "munmap_accepts E" and "maps_fresh E no_maps"
    and "snapshot_writer_init S created d (writer_zero f) = (ret, w)"
    and "datafifo_rtp_sender_loop V 0 addr (sender_zero w ready) = Some s"
    and "(system_step S E)\<^sup>*\<^sup>* (s, []) (s', bs)"
  shows "session_inv (pl_session (sd_player s')) \<and> pending_items (sd_fifo s') = [] \<and>
    mm_maps (pl_mem (sd_player s')) = [] \<and> cache_inv (pl_cache (sd_player s')) \<and> snapshot_cache_ok (sd_cache s') \<and>
    wire_ok SENDER_SSRC 0 (udp_sent (pl_udp (sd_player s'))) \<and>
    ring_ok (sd_writer s') \<and> distinct (wr_freed (sd_writer s')) \<and> set (wr_freed (sd_writer s')) \<subseteq> set bs"
proof -
  have "writer_inv ([], [], w)" using init_inv [OF writer_zero_inv assms(4)] .
  from system_steps_ok [OF assms(1-3,6) sender_thread_start [OF assms(5) this]]
  have ok: "system_ok (s', bs)" .
  then obtain gs acc where "writer_inv (gs, acc, sd_writer s')" "set gs \<subseteq> set bs" by (auto simp: system_ok_def)
  with writer_inv_freed have "distinct (wr_freed (sd_writer s')) \<and> set (wr_freed (sd_writer s')) \<subseteq> set bs \<and> ring_ok (sd_writer s')"
    by (fastforce simp: writer_inv_def)
  with ok show ?thesis by (simp add: system_ok_def)
qed

definition demo_start :: "sender option" where
  "demo_start = datafifo_rtp_sender_loop demo_sender_env 0 7 (sender_zero (writer_zero demo_fs) False)"

theorem system_well_formed_witness:
  "\<exists>s. demo_start = Some s \<and> pending_items (sd_fifo (datafifo_sender_step demo_sender_env (at_session (session_play session_init) s))) = []"
proof -
  obtain s where s: "datafifo_rtp_sender_loop demo_sender_env 0 7 (sender_zero (writer_zero demo_fs) False) = Some s"
    by (simp add: datafifo_rtp_sender_loop_def clock_ms_def monotonic_ms_def demo_sender_env_def demo_kd_def
        nalu_datafifo_open_def sender_zero_def Let_def)
  let ?E = "w_mmap (ev_world demo_sender_env)" and ?g = "at_session (session_play session_init) s"
  have E: "page_size_ok ?E" "munmap_accepts ?E" "maps_fresh ?E no_maps"
    using demo_device demo_sender_ok(2) by (simp_all add: device_ok_def demo_sender_def demo_player_def)
  have "snapshot_writer_init demo_os False (Some (replicate 4096 CHR ''x'')) (writer_zero demo_fs) = (-1, writer_zero demo_fs)"
    by (simp add: snapshot_writer_init_def SNAPSHOT_PATH_MAX_def)
  note init = this
  have "pl_session (sd_player s) = session_init"
    using s by (auto simp: datafifo_rtp_sender_loop_def clock_ms_def nalu_datafifo_open_def sender_zero_def Let_def
        split: prod.splits if_splits)
  then have "system_step demo_os ?E (s, []) (?g, [])"
    by (intro sys_rtsp) (simp add: step_play)
  moreover have "machine_only (w_rtsp (ev_world demo_sender_env))"
    by (simp add: machine_only_def demo_sender_env_def demo_world_def)
  then have "system_step demo_os ?E (?g, []) (datafifo_sender_step demo_sender_env ?g, [ev_block demo_sender_env (sd_snapshots ?g)])"
    by (intro sys_sender) (simp_all add: admissible_def writer_only_def demo_sender_env_def)
  ultimately have "(system_step demo_os ?E)\<^sup>*\<^sup>* (s, []) (datafifo_sender_step demo_sender_env ?g, [ev_block demo_sender_env (sd_snapshots ?g)])"
    by (meson converse_rtranclp_into_rtranclp r_into_rtranclp)
  from system_well_formed [OF E init s this] s show ?thesis by (auto simp: demo_start_def)
qed

text \<open>
  C11: The threads are what they assume of each other: a run of the sender, between two steps of the RTSP thread,
  leaves the session alone or clears the request for parameter sets, and nothing else, whatever
  the FIFO delivers and the network answers; and a connection, while the sender does no more than that, changes the
  session only by SETUP, PLAY and stopping, and by what the sender did. These are the
  hypotheses \<open>sender_only\<close> of the theorems on the RTSP thread and \<open>machine_only\<close> of the theorem above.
\<close>

theorem threads_admissible:
  assumes "\<forall>t. quiet (w_rtsp (ev_world (V t)))" and "sender_only M"
  shows "sender_only (sender_thread V iterations st) \<and> machine_only (rtsp_thread S M client c)"
proof
  show "sender_only (sender_thread V iterations st)"
    unfolding sender_only_def sender_thread_def
  proof (intro allI)
    fix t g
    from clears.run_rel [OF refl refl, where V = "V t" and n = "iterations t" and s = "at_session g (st t)"] assms(1)
    show "pl_session (sd_player (datafifo_sender_run (V t) (iterations t) (at_session g (st t)))) = g \<or>
        pl_session (sd_player (datafifo_sender_run (V t) (iterations t) (at_session g (st t)))) =
          g\<lparr>se_need_parameter_sets := False\<rparr>" by simp
  qed
  show "machine_only (rtsp_thread S M client c)"
    unfolding machine_only_def rtsp_thread_def
  proof (intro allI)
    fix t g
    from handle_rtsp_client_machine [OF assms(2), where c = "c\<lparr>rc_shared := \<lparr>sh_session = g, sh_locks = 0\<rparr>\<rparr>"]
    show "session_machine\<^sup>*\<^sup>* g (conn_session (handle_rtsp_client S M (fst (client t)) (snd (client t))
        (c\<lparr>rc_shared := \<lparr>sh_session = g, sh_locks = 0\<rparr>\<rparr>)))" by (simp add: conn_session_def)
  qed
qed

theorem threads_admissible_witness:
  "sender_only (sender_thread (\<lambda>_. demo_sender_env) (\<lambda>_. 3) (\<lambda>_. demo_sender 0)) \<and>
   machine_only (rtsp_thread (\<lambda>_ _. 1) (\<lambda>_ g. g\<lparr>se_need_parameter_sets := False\<rparr>) (\<lambda>_. (null_addr, [''PLAY x'']))
     (pr_conn (process_init demo_fs session_init)))"
proof (rule threads_admissible)
  show "\<forall>t. quiet (w_rtsp (ev_world demo_sender_env))" by (simp add: quiet_def demo_sender_env_def demo_world_def)
  show "sender_only (\<lambda>_ g. g\<lparr>se_need_parameter_sets := False\<rparr>)" by (simp add: sender_only_def)
qed

text \<open>
  C8: The wire: whatever messages arrive, whichever packets the network refuses, and whatever the other threads do, a
  run of the sender puts RTP packets of version 2, payload type 96 and its SSRC on the wire, none longer than
  1212 bytes, with sequence numbers that go up by one from packet to packet, modulo \<open>2 ^ 16\<close>, across NALUs, frames
  and targets.
\<close>

theorem sender_wire_format:
  "let st = sd_player s; st' = sd_player (datafifo_sender_run V n s) in
   \<exists>ds. udp_sent (pl_udp st') = udp_sent (pl_udp st) @ ds \<and> pl_seq st' = pl_seq st + of_nat (length ds) \<and>
     (\<forall>i < length ds. length (dg_bytes (ds ! i)) \<le> 1212 \<and>
       (\<exists>p. rtp_parse (dg_bytes (ds ! i)) = Some p \<and> rv_version p = 2 \<and> rv_payload_type p = 96 \<and>
         rv_seq p = pl_seq st + of_nat i \<and> rv_ssrc p = SENDER_SSRC))"
  using wire.run_rel [OF refl refl, where V = V and n = n and s = s]
  by (auto simp: on_wire_def wire_ok_def Let_def)

theorem sender_wire_format_witness:
  "\<exists>ds. udp_sent (pl_udp (sd_player (datafifo_sender_run demo_sender_env 2 (demo_sender 0)))) = ds \<and>
     (\<forall>i < length ds. length (dg_bytes (ds ! i)) \<le> 1212)"
proof -
  have "udp_sent (pl_udp (sd_player (demo_sender 0))) = []" by (simp add: demo_sender_def demo_player_def)
  with sender_wire_format [of "demo_sender 0" demo_sender_env 2] show ?thesis by (auto simp: Let_def)
qed

end
