(* ===== verification/Little_Rtp.thy ===== *)
theory Little_Rtp
  imports Rtp_Buffer Sockets
begin

unbundle bit_operations_syntax

text \<open>
  \<open>src/little_app/src/rtp.c\<close>, which the earlier version of the application is built with: a file of its own,
  whose functions are translated here one by one, over the same sockets, allocator and constants of \<open>rtp.h\<close>
  (\<open>VIDEO_FPS\<close> apart, which only the sender threads use). The collection \<open>little_same\<close> holds, for each of
  them, that it computes what the function of that name in the later version computes, so that the lemmas of
  \<open>Annexb\<close>, \<open>Nalu_Loader\<close>, \<open>Rtp\<close> and \<open>Rtp_Buffer\<close> hold of both programs.
\<close>

section \<open>The socket\<close>

definition little_create_udp_socket_only :: "sock_env \<Rightarrow> sock_call list \<Rightarrow> int \<times> sock_call list" where
  "little_create_udp_socket_only K tr =
     (let sock = sk_socket K SOCK_DGRAM; tr1 = tr @ [Socket AF_INET SOCK_DGRAM] in
      if sock < 0 then (-1, tr1)
      else
        let tr2 = tr1 @ [Setsockopt_reuseaddr sock];
            local_addr = local_address (of_int RTP_SERVER_PORT);
            tr3 = tr2 @ [Bind sock local_addr] in
        if sk_bind K sock local_addr < 0 then (-1, tr3 @ [Close sock])
        else (sock, tr3))"

lemma little_create_udp_socket_only_same [little_same]: "little_create_udp_socket_only = create_udp_socket_only"
  by (intro ext) (simp only: little_create_udp_socket_only_def create_udp_socket_only_def)

section \<open>Start codes\<close>

function little_find_start_code :: "bytes \<Rightarrow> nat \<Rightarrow> (nat \<times> nat) option" where
  "little_find_start_code buf i =
     (if i + 3 \<le> length buf then
        if i + 3 \<le> length buf \<and> buf ! i = 0 \<and> buf ! (i + 1) = 0 \<and> buf ! (i + 2) = 1
        then Some (i, 3)
        else if i + 4 \<le> length buf \<and> buf ! i = 0 \<and> buf ! (i + 1) = 0 \<and>
                buf ! (i + 2) = 0 \<and> buf ! (i + 3) = 1
        then Some (i, 4)
        else little_find_start_code buf (i + 1)
      else None)"
  by pat_completeness auto
termination
  by (relation "measure (\<lambda>(buf, i). length buf - i)") auto

declare little_find_start_code.simps [simp del]

definition little_buffer_starts_with_start_code :: "bytes option \<Rightarrow> nat option" where
  "little_buffer_starts_with_start_code bufp =
     (case bufp of
        None \<Rightarrow> None
      | Some buf \<Rightarrow>
          if length buf < 3 then None
          else if buf ! 0 = 0 \<and> buf ! 1 = 0 \<and> buf ! 2 = 1 then Some 3
          else if length buf \<ge> 4 \<and> buf ! 0 = 0 \<and> buf ! 1 = 0 \<and> buf ! 2 = 0 \<and> buf ! 3 = 1
          then Some 4
          else None)"

lemma little_find_start_code_same [little_same]: "little_find_start_code = find_start_code"
proof (intro ext)
  show "little_find_start_code buf i = find_start_code buf i" for buf i
  proof (induction buf i rule: little_find_start_code.induct)
    case (1 buf i)
    then show ?case
      unfolding little_find_start_code.simps [of buf i] find_start_code.simps [of buf i] by (simp cong: if_cong)
  qed
qed

lemma little_buffer_starts_with_start_code_same [little_same]:
  "little_buffer_starts_with_start_code = buffer_starts_with_start_code"
  by (intro ext) (simp only: little_buffer_starts_with_start_code_def buffer_starts_with_start_code_def)

text \<open>The scanner keeps the contract of a scanner, which bounds the loops that use it.\<close>

interpretation little_scan: start_code_scanner little_find_start_code "\<lambda>_. True"
  unfolding little_same by (rule rtp_scan.start_code_scanner_axioms)

lemmas little_next_nalu_Some = little_scan.next_nalu_Some [OF TrueI]

section \<open>The loader\<close>

definition little_push_nalu ::
    "alloc_env \<Rightarrow> nat \<Rightarrow> nat \<Rightarrow> bytes list \<Rightarrow> bytes \<Rightarrow> nat \<times> (nat \<times> bytes list) option" where
  "little_push_nalu A t capacity nalus nalu =
     (if length nalus = capacity then
        let new_capacity = (if capacity = 0 then 128 else capacity * 2) in
        if \<not> A t (new_capacity * SIZEOF_NALU_T) then (t + 1, None)
        else (t + 1, Some (new_capacity, nalus @ [nalu]))
      else (t, Some (capacity, nalus @ [nalu])))"

function little_load_annexb_loop ::
    "alloc_env \<Rightarrow> bytes \<Rightarrow> nat \<Rightarrow> nat \<Rightarrow> nat \<Rightarrow> bytes list \<Rightarrow> nat \<times> (nat \<times> bytes list) option" where
  "little_load_annexb_loop A buf search_offset t capacity nalus =
     (case next_nalu little_find_start_code buf search_offset of
        None \<Rightarrow> (t, Some (capacity, nalus))
      | Some (nalu_start, nalu_end, next_sc_pos) \<Rightarrow>
          case (if nalu_end > nalu_start
                then little_push_nalu A t capacity nalus (bslice buf nalu_start nalu_end)
                else (t, Some (capacity, nalus))) of
            (t', None) \<Rightarrow> (t', None)
          | (t', Some (capacity', nalus')) \<Rightarrow>
              (case next_sc_pos of
                 None \<Rightarrow> (t', Some (capacity', nalus'))
               | Some q \<Rightarrow> little_load_annexb_loop A buf q t' capacity' nalus'))"
  by pat_completeness auto
termination
  by (relation "measure (\<lambda>(A, buf, off, _). length buf - off)")
    (use little_next_nalu_Some(5) in \<open>fastforce+\<close>)

declare little_load_annexb_loop.simps [simp del]

definition little_load_annexb_nalus ::
    "alloc_env \<Rightarrow> nat \<Rightarrow> bytes \<Rightarrow> nat \<times> (nat \<times> bytes list) option" where
  "little_load_annexb_nalus A t buf = little_load_annexb_loop A buf 0 t 0 []"

lemma little_load_annexb_loop_same [little_same]: "little_load_annexb_loop = load_annexb_loop"
proof (intro ext)
  have push: "little_push_nalu = push_nalu" by (intro ext) (simp only: little_push_nalu_def push_nalu_def)
  show "little_load_annexb_loop A buf off t cap ns = load_annexb_loop A buf off t cap ns" for A buf off t cap ns
  proof (induction A buf off t cap ns rule: little_load_annexb_loop.induct)
    case (1 A buf off t cap ns)
    then show ?case
      by (subst little_load_annexb_loop.simps, subst load_annexb_loop.simps)
        (auto simp: little_same push split: option.split prod.split)
  qed
qed

lemma little_load_annexb_nalus_same [little_same]: "little_load_annexb_nalus = load_annexb_nalus"
  by (intro ext) (simp only: little_load_annexb_nalus_def load_annexb_nalus_def little_same)

section \<open>Packets\<close>

definition little_build_rtp_header :: "u16 \<Rightarrow> u32 \<Rightarrow> u32 \<Rightarrow> u8 \<Rightarrow> bytes" where
  "little_build_rtp_header seq timestamp ssrc marker =
     [0x80,
      (if marker \<noteq> 0 then 0x80 else 0x00) OR (RTP_PAYLOAD_TYPE AND 0x7f),
      ucast (drop_bit 8 seq AND 0xff), ucast (seq AND 0xff),
      ucast (drop_bit 24 timestamp AND 0xff), ucast (drop_bit 16 timestamp AND 0xff),
      ucast (drop_bit 8 timestamp AND 0xff), ucast (timestamp AND 0xff),
      ucast (drop_bit 24 ssrc AND 0xff), ucast (drop_bit 16 ssrc AND 0xff),
      ucast (drop_bit 8 ssrc AND 0xff), ucast (ssrc AND 0xff)]"

definition little_h265_nalu_type :: "bytes \<Rightarrow> int" where
  "little_h265_nalu_type nalu = (if length nalu < 2 then -1 else uint (drop_bit 1 (nalu ! 0) AND 0x3f))"

definition little_send_rtp_packet ::
    "net_env \<Rightarrow> sockaddr_in \<Rightarrow> u32 \<Rightarrow> u32 \<Rightarrow> bytes \<Rightarrow> u8 \<Rightarrow> u16 \<Rightarrow> udp \<Rightarrow> int \<times> u16 \<times> udp" where
  "little_send_rtp_packet N dest timestamp ssrc payload marker seq u =
     (if RTP_HEADER_SIZE + length payload > RTP_PACKET_MAX_SIZE then (-1, seq, u)
      else case sendto N dest (little_build_rtp_header seq timestamp ssrc marker @ payload) u of
        (sent_len, u') \<Rightarrow>
          if sent_len < 0 then (-1, seq, u')
          else (0, seq + 1, u'))"

function little_send_fu_loop ::
    "net_env \<Rightarrow> sockaddr_in \<Rightarrow> u32 \<Rightarrow> u32 \<Rightarrow> bytes \<Rightarrow> int \<Rightarrow> u8 \<Rightarrow> nat \<Rightarrow> bool \<Rightarrow> u16 \<Rightarrow> udp
     \<Rightarrow> int \<times> u16 \<times> udp" where
  "little_send_fu_loop N dest timestamp ssrc nalu nal_type marker offset first seq u =
     (if offset < length nalu then
        let max_fragment_data = RTP_MAX_PAYLOAD - H265_FU_HEADER_SIZE;
            remaining = length nalu - offset;
            fragment_size = (if remaining > max_fragment_data then max_fragment_data else remaining);
            lst = (offset + fragment_size \<ge> length nalu);
            fu_payload = [(nalu ! 0 AND 0x81) OR push_bit 1 H265_FU_TYPE,
                          nalu ! 1,
                          (if first then 0x80 else 0x00) OR (if lst then 0x40 else 0x00) OR
                            (of_int nal_type AND 0x3f)]
                         @ bslice nalu offset (offset + fragment_size)
        in case little_send_rtp_packet N dest timestamp ssrc fu_payload (if lst then marker else 0) seq u of
             (r, seq', u') \<Rightarrow>
               if r \<noteq> 0 then (-1, seq', u')
               else little_send_fu_loop N dest timestamp ssrc nalu nal_type marker
                      (offset + fragment_size) False seq' u'
      else (0, seq, u))"
  by pat_completeness auto
termination
  by (relation "measure (\<lambda>(N, dest, ts, ssrc, nalu, nt, m, offset, _). length nalu - offset)")
    (auto simp: RTP_MAX_PAYLOAD_def H265_FU_HEADER_SIZE_def)

declare little_send_fu_loop.simps [simp del]

definition little_send_h265_nalu_rtp ::
    "net_env \<Rightarrow> sockaddr_in \<Rightarrow> u32 \<Rightarrow> u32 \<Rightarrow> bytes option \<Rightarrow> u8 \<Rightarrow> u16 \<Rightarrow> udp \<Rightarrow> int \<times> u16 \<times> udp" where
  "little_send_h265_nalu_rtp N dest timestamp ssrc nalup marker seq u =
     (case nalup of
        None \<Rightarrow> (-1, seq, u)
      | Some nalu \<Rightarrow>
          if length nalu < 2 then (-1, seq, u)
          else if length nalu \<le> RTP_MAX_PAYLOAD
          then little_send_rtp_packet N dest timestamp ssrc nalu marker seq u
          else little_send_fu_loop N dest timestamp ssrc nalu (little_h265_nalu_type nalu) marker 2 True seq u)"

lemma little_h265_nalu_type_same [little_same]: "little_h265_nalu_type = h265_nalu_type"
  by (intro ext) (simp only: little_h265_nalu_type_def h265_nalu_type_def)

lemma little_send_rtp_packet_same [little_same]: "little_send_rtp_packet = send_rtp_packet"
  by (intro ext) (simp only: little_send_rtp_packet_def send_rtp_packet_def little_build_rtp_header_def build_rtp_header_def)

lemma little_send_fu_loop_same [little_same]: "little_send_fu_loop = send_fu_loop"
proof (intro ext)
  show "little_send_fu_loop N dest ts ssrc n nt m off first q u = send_fu_loop N dest ts ssrc n nt m off first q u"
    for N dest ts ssrc n nt m off first q u
  proof (induction "length n - off" arbitrary: off first q u rule: less_induct)
    case less
    have rec: "little_send_fu_loop N dest ts ssrc n nt m (off + s) False q' u' =
        send_fu_loop N dest ts ssrc n nt m (off + s) False q' u'" if "off < length n" and "0 < s" for s q' u'
      by (rule less.hyps) (use that in simp)
    show ?case
      unfolding little_send_fu_loop.simps [of N dest ts ssrc n nt m off] send_fu_loop.simps [of N dest ts ssrc n nt m off]
        Let_def little_same
      by (intro if_cong prod.case_cong refl rec) (simp_all add: RTP_MAX_PAYLOAD_def H265_FU_HEADER_SIZE_def)
  qed
qed

lemma little_send_h265_nalu_rtp_same [little_same]: "little_send_h265_nalu_rtp = send_h265_nalu_rtp"
  by (intro ext) (simp only: little_send_h265_nalu_rtp_def send_h265_nalu_rtp_def little_same)

section \<open>Buffers\<close>

function little_send_buffer_loop ::
    "net_env \<Rightarrow> sockaddr_in \<Rightarrow> u32 \<Rightarrow> u32 \<Rightarrow> bytes \<Rightarrow> u8 \<Rightarrow> nat \<Rightarrow> nat \<Rightarrow> u16 \<Rightarrow> udp \<Rightarrow> int \<times> u16 \<times> udp" where
  "little_send_buffer_loop N dest timestamp ssrc buf last_marker search_offset sent_count seq u =
     (case next_nalu little_find_start_code buf search_offset of
        None \<Rightarrow> (if sent_count > 0 then 0 else -1, seq, u)
      | Some (nalu_start, nalu_end, next_sc_pos) \<Rightarrow>
          if nalu_end > nalu_start then
            case little_send_h265_nalu_rtp N dest timestamp ssrc (Some (bslice buf nalu_start nalu_end))
                   (if next_sc_pos = None then last_marker else 0) seq u of
              (r, seq', u') \<Rightarrow>
                if r \<noteq> 0 then (-1, seq', u')
                else (case next_sc_pos of
                        None \<Rightarrow> (if sent_count + 1 > 0 then 0 else -1, seq', u')
                      | Some q \<Rightarrow> little_send_buffer_loop N dest timestamp ssrc buf last_marker q (sent_count + 1) seq' u')
          else (case next_sc_pos of
                  None \<Rightarrow> (if sent_count > 0 then 0 else -1, seq, u)
                | Some q \<Rightarrow> little_send_buffer_loop N dest timestamp ssrc buf last_marker q sent_count seq u))"
  by pat_completeness auto
termination
  by (relation "measure (\<lambda>(N, dest, ts, ssrc, buf, m, off, _). length buf - off)")
    (use little_next_nalu_Some(5) in \<open>fastforce+\<close>)

declare little_send_buffer_loop.simps [simp del]

definition little_send_h265_buffer_rtp ::
    "net_env \<Rightarrow> sockaddr_in \<Rightarrow> u32 \<Rightarrow> u32 \<Rightarrow> bytes option \<Rightarrow> u8 \<Rightarrow> u16 \<Rightarrow> udp \<Rightarrow> int \<times> u16 \<times> udp" where
  "little_send_h265_buffer_rtp N dest timestamp ssrc bufp last_marker seq u =
     (case bufp of
        None \<Rightarrow> (-1, seq, u)
      | Some buf \<Rightarrow>
          if length buf < 2 then (-1, seq, u)
          else if little_buffer_starts_with_start_code (Some buf) = None
          then little_send_h265_nalu_rtp N dest timestamp ssrc (Some buf) last_marker seq u
          else little_send_buffer_loop N dest timestamp ssrc buf last_marker 0 0 seq u)"

lemma little_send_buffer_loop_same [little_same]: "little_send_buffer_loop = send_buffer_loop"
proof (intro ext)
  show "little_send_buffer_loop N dest ts ssrc buf m off k q u = send_buffer_loop N dest ts ssrc buf m off k q u"
    for N dest ts ssrc buf m off k q u
  proof (induction N dest ts ssrc buf m off k q u rule: little_send_buffer_loop.induct)
    case (1 N dest ts ssrc buf m off k q u)
    then show ?case
      by (subst little_send_buffer_loop.simps, subst send_buffer_loop.simps)
        (auto simp: little_same split: option.split prod.split)
  qed
qed

lemma little_send_h265_buffer_rtp_same [little_same]: "little_send_h265_buffer_rtp = send_h265_buffer_rtp"
  by (intro ext) (simp only: little_send_h265_buffer_rtp_def send_h265_buffer_rtp_def little_same)

text \<open>The earlier sending routines keep the contract of a sender, with the same plans.\<close>

interpretation little_nalu: live_rtp_sender "little_send_h265_nalu_rtp N dest ts ssrc" nalu_plan dest ts ssrc
    "\<lambda>nalup. \<exists>n. nalup = Some n \<and> 2 \<le> length n" "net_accepts N"
  for N dest ts ssrc
  unfolding little_same by (rule nalu.live_rtp_sender_axioms)

interpretation little_buffer: live_rtp_sender "little_send_h265_buffer_rtp N dest ts ssrc" buffer_plan dest ts ssrc
    sendable_buffer "net_accepts N"
  for N dest ts ssrc
  unfolding little_same by (rule buffer.live_rtp_sender_axioms)

end
