(* ===== verification/Little_Datafifo.thy ===== *)
theory Little_Datafifo
  imports Rtp_Buffer Datafifo_Reader
begin

unbundle bit_operations_syntax

text \<open>
  \<open>src/little_app/src/nalu_datafifo.c\<close> and its header: the messages of the earlier version, which have no
  submission time and whose lengths are not looked at, the memory mapping (branch without
  \<open>USE_RT_SMART\<close>), and the reader, which opens the FIFO with 15 entries and writes no log lines of its own.
  The mapping computes what the later one computes (collection \<open>little_same\<close>); the reader keeps the
  contract \<open>item_source\<close>.
\<close>

section \<open>Messages\<close>

record little_ipc_msg =
  lm_magic :: u32
  lm_version :: u32
  lm_chn :: u32
  lm_pack_cnt :: u32
  lm_seq :: u64
  lm_frame_pts :: u64
  lm_total_len :: u32
  lm_reserved :: u32
  lm_packs :: "ipc_pack list"

definition little_msg_of_item :: "bytes \<Rightarrow> little_ipc_msg" where
  "little_msg_of_item bs =
     \<lparr>lm_magic = le32 bs 0, lm_version = le32 bs 4, lm_chn = le32 bs 8, lm_pack_cnt = le32 bs 12,
      lm_seq = le64 bs 16, lm_frame_pts = le64 bs 24, lm_total_len = le32 bs 32, lm_reserved = le32 bs 36,
      lm_packs = map (\<lambda>k. pack_at bs (40 + 24 * k)) [0..<8]\<rparr>"

definition little_pack_ok :: "ipc_pack \<Rightarrow> bool" where
  "little_pack_ok p \<longleftrightarrow> \<not> (pk_phys_addr p = 0 \<or> pk_len p = 0)"

definition little_nalu_datafifo_validate_msg :: "little_ipc_msg option \<Rightarrow> int" where
  "little_nalu_datafifo_validate_msg msgp =
     (case msgp of
        None \<Rightarrow> -1
      | Some msg \<Rightarrow>
          if lm_magic msg \<noteq> MPP_NALU_IPC_MAGIC then -1
          else if lm_version msg \<noteq> MPP_NALU_IPC_VERSION then -1
          else if lm_pack_cnt msg = 0 \<or> lm_pack_cnt msg > MPP_NALU_IPC_MAX_PACKS then -1
          else if list_all little_pack_ok (take (unat (lm_pack_cnt msg)) (lm_packs msg)) then 0 else -1)"

section \<open>Mapping memory\<close>

definition little_app_sys_mmap :: "mmap_env \<Rightarrow> u64 \<Rightarrow> u32 \<Rightarrow> mmap_state \<Rightarrow> u64 option \<times> mmap_state" where
  "little_app_sys_mmap E phys_addr len s =
     (if len = 0 then (None, s)
      else if me_page_size E \<le> 0 then (None, s)
      else
        let pg_mask = of_int (me_page_size E) - 1;
            pg_offset = phys_addr AND pg_mask;
            sz = (ucast len + pg_offset + pg_mask) AND NOT pg_mask;
            offset = phys_addr AND NOT pg_mask;
            s1 = (if mm_fd s < 0 then s\<lparr>mm_fd := me_open E (mm_calls s), mm_calls := mm_calls s + 1\<rparr> else s)
        in if mm_fd s1 < 0 then (None, s1)
           else case me_mmap E (mm_calls s1) sz offset of
             None \<Rightarrow> (None, s1\<lparr>mm_calls := mm_calls s1 + 1\<rparr>)
           | Some mmap_addr \<Rightarrow>
               (Some (mmap_addr + pg_offset),
                s1\<lparr>mm_calls := mm_calls s1 + 1,
                   mm_maps := \<lparr>map_addr = mmap_addr, map_size = sz, map_phys = offset\<rparr> # mm_maps s1\<rparr>))"

definition little_app_sys_munmap :: "mmap_env \<Rightarrow> u64 \<Rightarrow> u64 \<Rightarrow> u32 \<Rightarrow> mmap_state \<Rightarrow> int \<times> mmap_state" where
  "little_app_sys_munmap E phys_addr virt_addr len s =
     (if virt_addr = 0 \<or> len = 0 then (-1, s)
      else if me_page_size E \<le> 0 then (-1, s)
      else
        let pg_mask = of_int (me_page_size E) - 1;
            pg_offset = phys_addr AND pg_mask;
            sz = (ucast len + pg_offset + pg_mask) AND NOT pg_mask;
            mmap_addr = virt_addr - pg_offset;
            s1 = s\<lparr>mm_calls := mm_calls s + 1\<rparr>
        in if me_munmap E (mm_calls s) mmap_addr sz \<noteq> 0 then (-1, s1)
           else (0, s1\<lparr>mm_maps := unmap_region mmap_addr sz (mm_maps s1)\<rparr>))"

definition little_app_sys_close_mmap_fd :: "mmap_state \<Rightarrow> mmap_state" where
  "little_app_sys_close_mmap_fd s = (if mm_fd s \<ge> 0 then s\<lparr>mm_fd := -1\<rparr> else s)"

definition little_nalu_datafifo_mmap_pack ::
    "mmap_env \<Rightarrow> ipc_pack option \<Rightarrow> mmap_state \<Rightarrow> u64 option \<times> mmap_state" where
  "little_nalu_datafifo_mmap_pack E packp s =
     (case packp of
        None \<Rightarrow> (None, s)
      | Some pack \<Rightarrow>
          if pk_phys_addr pack = 0 \<or> pk_len pack = 0 then (None, s)
          else case little_app_sys_mmap E (pk_phys_addr pack) (pk_len pack) s of
            (None, s') \<Rightarrow> (None, s')
          | (Some virt_addr, s') \<Rightarrow> (if virt_addr = 0 then None else Some virt_addr, s'))"

definition little_nalu_datafifo_munmap_pack ::
    "mmap_env \<Rightarrow> ipc_pack option \<Rightarrow> u64 \<Rightarrow> mmap_state \<Rightarrow> int \<times> mmap_state" where
  "little_nalu_datafifo_munmap_pack E packp virt_addr s =
     (case packp of
        None \<Rightarrow> (-1, s)
      | Some pack \<Rightarrow>
          if virt_addr = 0 \<or> pk_len pack = 0 then (-1, s)
          else case little_app_sys_munmap E (pk_phys_addr pack) virt_addr (pk_len pack) s of
            (ret, s') \<Rightarrow> (if ret \<noteq> 0 then -1 else 0, s'))"

lemma little_nalu_datafifo_mmap_pack_same [little_same]: "little_nalu_datafifo_mmap_pack = nalu_datafifo_mmap_pack"
  by (intro ext) (simp only: little_nalu_datafifo_mmap_pack_def nalu_datafifo_mmap_pack_def little_app_sys_mmap_def
      little_sys_mmap_def page_mask_def page_offset_def mmap_size_def ensure_mem_fd_def Let_def)

lemma little_nalu_datafifo_munmap_pack_same [little_same]: "little_nalu_datafifo_munmap_pack = nalu_datafifo_munmap_pack"
  by (intro ext) (simp only: little_nalu_datafifo_munmap_pack_def nalu_datafifo_munmap_pack_def little_app_sys_munmap_def
      little_sys_munmap_def page_mask_def page_offset_def mmap_size_def Let_def)

interpretation little_devmem: pack_mapper "little_nalu_datafifo_mmap_pack E" "little_nalu_datafifo_munmap_pack E"
    "vm_bytes E" mm_maps "phys_bytes E" "page_size_ok E" "maps_fresh E"
  for E
  unfolding little_same by (rule devmem.pack_mapper_axioms)

section \<open>The reader\<close>

definition LITTLE_FIFO_ENTRIES :: u32 where "LITTLE_FIFO_ENTRIES = 15"

definition little_nalu_datafifo_open ::
    "kd_env \<Rightarrow> nalu_datafifo_reader option \<Rightarrow> u64 \<Rightarrow> fifo_state \<Rightarrow> int \<times> nalu_datafifo_reader option \<times> fifo_state" where
  "little_nalu_datafifo_open K readerp fifo_phy_addr s =
     (if readerp = None \<or> fifo_phy_addr = 0 then (-1, readerp, s)
      else
        let params = \<lparr>dp_entries_num = LITTLE_FIFO_ENTRIES, dp_cache_line_size = MPP_NALU_IPC_ITEM_SIZE,
                      dp_data_release_by_writer = True, dp_open_mode = DATAFIFO_READER\<rparr> in
        case kd_open_by_addr K (ff_calls s) params fifo_phy_addr of
        (ret, handle) \<Rightarrow>
          let s1 = s\<lparr>ff_calls := ff_calls s + 1\<rparr> in
          if ret \<noteq> 0 then (-1, Some \<lparr>rd_handle = kd_invalid_handle K, rd_opened = False\<rparr>, s1)
          else (0, Some \<lparr>rd_handle = handle, rd_opened = True\<rparr>,
                s1\<lparr>ff_events := ff_events s1 @ [Opened handle]\<rparr>))"

text \<open>The second component says whether \<open>little_app_sys_close_mmap_fd\<close> is called.\<close>

definition little_nalu_datafifo_close ::
    "kd_env \<Rightarrow> nalu_datafifo_reader option \<Rightarrow> fifo_state \<Rightarrow> nalu_datafifo_reader option \<times> bool \<times> fifo_state" where
  "little_nalu_datafifo_close K readerp s =
     (case readerp of
        None \<Rightarrow> (None, False, s)
      | Some reader \<Rightarrow>
          if rd_opened reader
          then (Some \<lparr>rd_handle = kd_invalid_handle K, rd_opened = False\<rparr>, True,
                s\<lparr>ff_calls := ff_calls s + 1, ff_events := ff_events s @ [Closed (rd_handle reader)]\<rparr>)
          else (Some reader, False, s))"

definition little_nalu_datafifo_read ::
    "kd_env \<Rightarrow> nalu_datafifo_reader option \<Rightarrow> fifo_state \<Rightarrow> (little_ipc_msg \<times> kd_item) option \<times> fifo_state" where
  "little_nalu_datafifo_read K readerp s =
     (case readerp of
        None \<Rightarrow> (None, s)
      | Some reader \<Rightarrow>
          if \<not> rd_opened reader then (None, s)
          else case kd_avail_read_len K (ff_calls s) of
            (ret, read_len) \<Rightarrow>
              let s1 = s\<lparr>ff_calls := ff_calls s + 1\<rparr> in
              if ret \<noteq> 0 then (None, s1)
              else if read_len < MPP_NALU_IPC_ITEM_SIZE then (None, s1)
              else if read_len > LITTLE_FIFO_ENTRIES * MPP_NALU_IPC_ITEM_SIZE then (None, s1)
              else case kd_read K (ff_calls s1) of
                (ret', itemp) \<Rightarrow>
                  let s2 = s1\<lparr>ff_calls := ff_calls s1 + 1\<rparr> in
                  if ret' \<noteq> 0 then (None, s2)
                  else (case itemp of
                          None \<Rightarrow> (None, s2)
                        | Some item \<Rightarrow>
                            (Some (little_msg_of_item (it_bytes item), item),
                             s2\<lparr>ff_events := ff_events s2 @ [Took (it_addr item)]\<rparr>)))"

definition little_nalu_datafifo_read_done ::
    "kd_env \<Rightarrow> nalu_datafifo_reader option \<Rightarrow> kd_item option \<Rightarrow> fifo_state \<Rightarrow> int \<times> fifo_state" where
  "little_nalu_datafifo_read_done K readerp itemp s =
     (case readerp of
        None \<Rightarrow> (-1, s)
      | Some reader \<Rightarrow>
          if \<not> rd_opened reader then (-1, s)
          else (case itemp of
                  None \<Rightarrow> (-1, s)
                | Some item \<Rightarrow>
                    let ret = kd_read_done K (ff_calls s) (it_addr item);
                        s1 = s\<lparr>ff_calls := ff_calls s + 1, ff_events := ff_events s @ [Released (it_addr item)]\<rparr>
                    in (if ret \<noteq> 0 then -1 else 0, s1)))"

lemma little_read_cases:
  assumes "little_nalu_datafifo_read K (Some rd) s = (r, s')"
  shows "(case r of
      None \<Rightarrow> ff_events s' = ff_events s
    | Some (m, item) \<Rightarrow> rd_opened rd \<and> m = little_msg_of_item (it_bytes item) \<and>
        ff_events s' = ff_events s @ [Took (it_addr item)])"
  using assms
  by (auto simp: little_nalu_datafifo_read_def Let_def split: prod.splits if_splits option.splits)

text \<open>The reader keeps the contract of the later version's reader.\<close>

interpretation little_datafifo: item_source "little_nalu_datafifo_read K (Some rd)"
    "\<lambda>item. little_nalu_datafifo_read_done K (Some rd) (Some item)" it_addr
    "\<lambda>s. if rd_opened rd then pending_items s else []"
  for K rd
proof unfold_locales
  fix s m i s'
  assume "little_nalu_datafifo_read K (Some rd) s = (Some (m, i), s')"
  from little_read_cases [OF this]
  show "(if rd_opened rd then pending_items s' else []) =
      (if rd_opened rd then pending_items s else []) @ [it_addr i]"
    by (simp add: pending_items_def pending_after_append)
next
  fix s s'
  assume "little_nalu_datafifo_read K (Some rd) s = (None, s')"
  from little_read_cases [OF this]
  show "(if rd_opened rd then pending_items s' else []) = (if rd_opened rd then pending_items s else [])"
    by (simp add: pending_items_def)
next
  fix i s r s'
  assume "little_nalu_datafifo_read_done K (Some rd) (Some i) s = (r, s')"
  then show "(if rd_opened rd then pending_items s' else []) =
      remove1 (it_addr i) (if rd_opened rd then pending_items s else [])"
    by (auto simp: little_nalu_datafifo_read_done_def Let_def pending_items_def pending_after_append)
qed

end
