(* ===== verification/Little_Rtsp.thy ===== *)
theory Little_Rtsp
  imports Rtsp
begin

text \<open>
  \<open>src/little_app/src/rtsp.c\<close>: the parser, the responses and the handler of a connection of the earlier
  version, over the same socket calls (\<open>send\<close>, \<open>recv\<close>) and library functions (\<open>sscanf\<close>, \<open>snprintf\<close>,
  \<open>strstr\<close>, \<open>atoi\<close>) as in \<open>Rtsp\<close>. The parser and the responses compute what the later ones compute
  (collection \<open>little_same\<close>); SETUP and PLAY do not ask for parameter sets, which is the difference between
  the handlers.
\<close>

section \<open>Sending\<close>

function little_send_all_loop :: "send_env \<Rightarrow> string \<Rightarrow> nat \<Rightarrow> rtsp_conn \<Rightarrow> int \<times> rtsp_conn" where
  "little_send_all_loop S data sent c =
     (if sent < length data then
        (case send S (drop sent data) c of
           (n, c1) \<Rightarrow> if n \<le> 0 then (-1, c1) else little_send_all_loop S data (sent + nat n) c1)
      else (0, c))"
  by pat_completeness auto
termination
  by (relation "measure (\<lambda>(S, data, sent, c). length data - sent)") auto

declare little_send_all_loop.simps [simp del]

definition little_send_all :: "send_env \<Rightarrow> string \<Rightarrow> rtsp_conn \<Rightarrow> int \<times> rtsp_conn" where
  "little_send_all S data c = little_send_all_loop S data 0 c"

lemma little_send_all_loop_same [little_same]: "little_send_all_loop = send_all_loop"
proof (intro ext)
  show "little_send_all_loop S data k c = send_all_loop S data k c" for S data k c
  proof (induction S data k c rule: little_send_all_loop.induct)
    case (1 S data k c)
    then show ?case
      unfolding little_send_all_loop.simps [of S data k] send_all_loop.simps [of S data k]
      by (auto split: prod.split)
  qed
qed

lemma little_send_all_same [little_same]: "little_send_all = send_all"
  by (intro ext) (simp only: little_send_all_def send_all_def little_same)

section \<open>Parsing\<close>

definition little_parse_rtsp_request :: "string \<Rightarrow> rtsp_request option" where
  "little_parse_rtsp_request req =
     (case scan_word 31 req of
        None \<Rightarrow> None
      | Some (method, r1) \<Rightarrow>
          (case scan_word 255 r1 of
             None \<Rightarrow> None
           | Some (url, _) \<Rightarrow>
               let cseq_pos = (case strstr req ''CSeq:'' of None \<Rightarrow> strstr req ''Cseq:'' | Some p \<Rightarrow> Some p)
               in Some \<lparr>rq_method = method, rq_url = url,
                        rq_cseq = (case cseq_pos of None \<Rightarrow> 0 | Some p \<Rightarrow> atoi (drop 5 p))\<rparr>))"

definition little_parse_client_port :: "string \<Rightarrow> int" where
  "little_parse_client_port req =
     (case strstr req ''client_port='' of
        None \<Rightarrow> 0
      | Some p \<Rightarrow>
          let port = atoi (drop (length ''client_port='') p)
          in if port \<le> 0 \<or> port > 65535 then 0 else port)"

lemma little_parse_rtsp_request_same [little_same]: "little_parse_rtsp_request = parse_rtsp_request"
  by (intro ext) (simp only: little_parse_rtsp_request_def parse_rtsp_request_def)

lemma little_parse_client_port_same [little_same]: "little_parse_client_port = parse_client_port"
  by (intro ext) (simp only: little_parse_client_port_def parse_client_port_def)

section \<open>Responses\<close>

definition little_make_sdp :: "nat \<Rightarrow> string \<Rightarrow> string" where
  "little_make_sdp maxlen control_url =
     snprintf maxlen (crlf_lines
       [''v=0'',
        ''o=- 0 0 IN IP4 0.0.0.0'',
        ''s=H265 Stream'',
        ''c=IN IP4 0.0.0.0'',
        ''t=0 0'',
        ''a=control:*'',
        ''m=video 0 RTP/AVP '' @ decimal (unat RTP_PAYLOAD_TYPE),
        ''a=rtpmap:'' @ decimal (unat RTP_PAYLOAD_TYPE) @ '' H265/90000'',
        ''a=control:'' @ control_url @ ''/trackID=0''])"

definition little_send_options_response :: "send_env \<Rightarrow> int \<Rightarrow> rtsp_conn \<Rightarrow> rtsp_conn" where
  "little_send_options_response S cseq c =
     snd (little_send_all S (snprintf 512 (crlf_lines
       [''RTSP/1.0 200 OK'',
        ''CSeq: '' @ decimal_int cseq,
        ''Public: OPTIONS, DESCRIBE, SETUP, PLAY, TEARDOWN'',
        []])) c)"

definition little_send_describe_response :: "send_env \<Rightarrow> rtsp_request \<Rightarrow> rtsp_conn \<Rightarrow> rtsp_conn" where
  "little_send_describe_response S req c =
     (let sdp = little_make_sdp 1024 (rq_url req)
      in snd (little_send_all S (snprintf 2048 (crlf_lines
           [''RTSP/1.0 200 OK'',
            ''CSeq: '' @ decimal_int (rq_cseq req),
            ''Content-Type: application/sdp'',
            ''Content-Length: '' @ decimal (length sdp),
            []] @ sdp)) c))"

definition little_send_setup_response :: "send_env \<Rightarrow> int \<Rightarrow> int \<Rightarrow> rtsp_conn \<Rightarrow> rtsp_conn" where
  "little_send_setup_response S cseq client_rtp_port c =
     snd (little_send_all S (snprintf 512 (crlf_lines
       [''RTSP/1.0 200 OK'',
        ''CSeq: '' @ decimal_int cseq,
        ''Transport: RTP/AVP/UDP;unicast;client_port='' @ decimal_int client_rtp_port @ ''-'' @
          decimal_int (client_rtp_port + 1) @ '';server_port='' @ decimal_int RTP_SERVER_PORT @ ''-'' @
          decimal_int RTCP_SERVER_PORT,
        ''Session: '' @ RTSP_SESSION_ID,
        []])) c)"

definition little_send_play_response :: "send_env \<Rightarrow> int \<Rightarrow> rtsp_conn \<Rightarrow> rtsp_conn" where
  "little_send_play_response S cseq c =
     snd (little_send_all S (snprintf 512 (crlf_lines
       [''RTSP/1.0 200 OK'',
        ''CSeq: '' @ decimal_int cseq,
        ''Session: '' @ RTSP_SESSION_ID,
        ''Range: npt=0.000-'',
        []])) c)"

definition little_send_teardown_response :: "send_env \<Rightarrow> int \<Rightarrow> rtsp_conn \<Rightarrow> rtsp_conn" where
  "little_send_teardown_response S cseq c =
     snd (little_send_all S (snprintf 256 (crlf_lines
       [''RTSP/1.0 200 OK'',
        ''CSeq: '' @ decimal_int cseq,
        ''Session: '' @ RTSP_SESSION_ID,
        []])) c)"

definition little_send_error_response :: "send_env \<Rightarrow> int \<Rightarrow> int \<Rightarrow> string \<Rightarrow> rtsp_conn \<Rightarrow> rtsp_conn" where
  "little_send_error_response S cseq code reason c =
     snd (little_send_all S (snprintf 256 (crlf_lines
       [''RTSP/1.0 '' @ decimal_int code @ '' '' @ reason,
        ''CSeq: '' @ decimal_int cseq,
        []])) c)"

lemma little_responses_same [little_same]:
  shows "little_send_options_response = send_options_response"
    and "little_send_describe_response = send_describe_response"
    and "little_send_setup_response = send_setup_response"
    and "little_send_play_response = send_play_response"
    and "little_send_teardown_response = send_teardown_response"
    and "little_send_error_response = send_error_response"
  by (intro ext, simp only: little_send_options_response_def send_options_response_def
      little_send_describe_response_def send_describe_response_def
      little_send_setup_response_def send_setup_response_def
      little_send_play_response_def send_play_response_def
      little_send_teardown_response_def send_teardown_response_def
      little_send_error_response_def send_error_response_def
      little_make_sdp_def make_sdp_def little_same)+

section \<open>The RTSP thread\<close>

definition little_session_setup :: "sockaddr_in \<Rightarrow> int \<Rightarrow> session \<Rightarrow> session" where
  "little_session_setup cli_addr client_port g =
     g\<lparr>se_client_addr := cli_addr\<lparr>sin_port := htons (of_int client_port)\<rparr>, se_client_addr_set := True, se_play := False\<rparr>"

definition little_session_play :: "session \<Rightarrow> session" where
  "little_session_play g = g\<lparr>se_play := True\<rparr>"

definition little_session_stop :: "session \<Rightarrow> session" where
  "little_session_stop g = g\<lparr>se_play := False\<rparr>"

definition little_handle_request ::
  "send_env \<Rightarrow> rtsp_env \<Rightarrow> sockaddr_in \<Rightarrow> string \<Rightarrow> rtsp_conn \<Rightarrow> bool \<times> rtsp_conn" where
  "little_handle_request S M cli_addr req_buf c =
     (case little_parse_rtsp_request req_buf of
        None \<Rightarrow> (False, little_send_error_response S 0 400 ''Bad Request'' c)
      | Some req \<Rightarrow>
          if rq_method req = ''OPTIONS'' then (False, little_send_options_response S (rq_cseq req) c)
          else if rq_method req = ''DESCRIBE'' then (False, little_send_describe_response S req c)
          else if rq_method req = ''SETUP'' then
            (let client_port = little_parse_client_port req_buf
             in if client_port = 0 then
                  (False, little_send_error_response S (rq_cseq req) 461 ''Unsupported Transport'' c)
                else
                  (False, little_send_setup_response S (rq_cseq req) client_port
                            (with_mutex M (little_session_setup cli_addr client_port) c)))
          else if rq_method req = ''PLAY'' then
            (let c1 = with_mutex M little_session_play c
             in (False, little_send_play_response S (rq_cseq req) (c1\<lparr>rc_signals := rc_signals c1 + 1\<rparr>)))
          else if rq_method req = ''TEARDOWN'' then
            (True, little_send_teardown_response S (rq_cseq req) (with_mutex M little_session_stop c))
          else (False, little_send_error_response S (rq_cseq req) 405 ''Method Not Allowed'' c))"

function little_handle_rtsp_loop ::
  "send_env \<Rightarrow> rtsp_env \<Rightarrow> sockaddr_in \<Rightarrow> string list \<Rightarrow> rtsp_conn \<Rightarrow> rtsp_conn" where
  "little_handle_rtsp_loop S M cli_addr segs c =
     (case recv 2047 segs of
        (buf, rest) \<Rightarrow>
          if buf = [] then c
          else
            case little_handle_request S M cli_addr (c_string buf) c of
              (stop, c1) \<Rightarrow> if stop then c1 else little_handle_rtsp_loop S M cli_addr rest c1)"
  by pat_completeness auto
termination
  by (relation "measure (\<lambda>(S, M, cli, segs, c). sum_list (map length segs))") (auto dest: recv_measure [OF sym])

declare little_handle_rtsp_loop.simps [simp del]

definition little_handle_rtsp_client ::
  "send_env \<Rightarrow> rtsp_env \<Rightarrow> sockaddr_in \<Rightarrow> string list \<Rightarrow> rtsp_conn \<Rightarrow> rtsp_conn" where
  "little_handle_rtsp_client S M cli_addr segs c =
     with_mutex M little_session_stop (little_handle_rtsp_loop S M cli_addr segs c)"

section \<open>The same replies, the same session but for one flag\<close>

text \<open>\<open>alike c d\<close>: the connections differ at most in \<open>g_need_parameter_sets\<close>.\<close>

definition forget :: "session \<Rightarrow> session" where
  "forget g = g\<lparr>se_need_parameter_sets := False\<rparr>"

definition alike :: "rtsp_conn \<Rightarrow> rtsp_conn \<Rightarrow> bool" where
  "alike c d \<longleftrightarrow> rc_calls c = rc_calls d \<and> rc_out c = rc_out d \<and> rc_signals c = rc_signals d \<and>
     forget (conn_session c) = forget (conn_session d)"

lemma alike_refl: "alike c c"
  by (simp add: alike_def)

lemma alike_signals: "alike c d \<Longrightarrow> alike (c\<lparr>rc_signals := rc_signals c + 1\<rparr>) (d\<lparr>rc_signals := rc_signals d + 1\<rparr>)"
  by (simp add: alike_def conn_session_def)

lemma alike_mutex:
  assumes "alike c d" and "sender_only M" and "quiet M'" and "\<And>g h. forget g = forget h \<Longrightarrow> forget (f g) = forget (f' h)"
  shows "alike (with_mutex M f c) (with_mutex M' f' d)"
proof -
  have "forget (M t g) = forget g" for t g
    using assms(2) unfolding sender_only_def by (metis forget_def session.update_convs(3) session.surjective)
  moreover have "M' t g = g" for t g using assms(3) by (simp add: quiet_def)
  ultimately have "forget (conn_session (with_mutex M f c)) = forget (conn_session (with_mutex M' f' d))"
    using assms(1) unfolding conn_session_with_mutex by (intro assms(4)) (simp add: alike_def)
  with assms(1) show ?thesis by (simp add: alike_def with_mutex_def Let_def)
qed

lemma send_all_loop_alike:
  "alike c d \<Longrightarrow> alike (snd (send_all_loop S data k c)) (snd (send_all_loop S data k d))"
proof (induction S data k c arbitrary: d rule: send_all_loop.induct)
  case (1 S data k c)
  obtain n c1 where x: "send S (drop k data) c = (n, c1)" by (cases "send S (drop k data) c")
  obtain m d1 where y: "send S (drop k data) d = (m, d1)" by (cases "send S (drop k data) d")
  have nm: "m = n" and a: "alike c1 d1"
    using x y 1(2) by (auto simp: send_def alike_def conn_session_def Let_def)
  show ?case
  proof (cases "k < length data \<and> \<not> n \<le> 0")
    case True
    with 1(1) [OF _ x [symmetric] _ a] x y nm show ?thesis
      by (simp add: send_all_loop.simps [of S data k])
  next
    case False
    with a 1(2) x y nm show ?thesis by (auto simp: send_all_loop.simps [of S data k])
  qed
qed

lemma response_alike:
  assumes "alike c d"
  shows "alike (send_options_response S q c) (send_options_response S q d)"
    and "alike (send_describe_response S req c) (send_describe_response S req d)"
    and "alike (send_setup_response S q p c) (send_setup_response S q p d)"
    and "alike (send_play_response S q c) (send_play_response S q d)"
    and "alike (send_teardown_response S q c) (send_teardown_response S q d)"
    and "alike (send_error_response S q code reason c) (send_error_response S q code reason d)"
  using send_all_loop_alike [OF assms] by (simp_all add: response_defs send_all_def Let_def)

lemma forget_steps:
  assumes "forget g = forget h"
  shows "forget (session_setup cli p g) = forget (little_session_setup cli p h)"
    and "forget (session_play g) = forget (little_session_play h)" and "forget (session_stop g) = forget (little_session_stop h)"
  using assms
  by (cases g; cases h; simp add: forget_def session_setup_def little_session_setup_def session_play_def
      little_session_play_def session_stop_def little_session_stop_def)+

lemma handle_request_alike:
  assumes "alike c d" and "sender_only M" and "quiet M'"
  shows "fst (handle_request S M cli buf c) = fst (little_handle_request S M' cli buf d) \<and>
    alike (snd (handle_request S M cli buf c)) (snd (little_handle_request S M' cli buf d))"
proof (cases "parse_rtsp_request buf")
  case None
  with response_alike(6) [OF assms(1)] show ?thesis by (simp add: handle_request_def little_handle_request_def little_same)
next
  case (Some req)
  note m = alike_mutex [OF assms]
  show ?thesis
    using response_alike [OF assms(1)] response_alike(3) [OF m [OF forget_steps(1)]]
      response_alike(4) [OF alike_signals [OF m [OF forget_steps(2)]]] response_alike(5) [OF m [OF forget_steps(3)]]
    by (simp add: handle_request_def little_handle_request_def little_same Some Let_def)
qed

lemma handle_rtsp_loop_alike:
  assumes "sender_only M" and "quiet M'"
  shows "alike c d \<Longrightarrow> alike (handle_rtsp_loop S M cli segs c) (little_handle_rtsp_loop S M' cli segs d)"
  using assms(1)
proof (induction S M cli segs c arbitrary: d rule: handle_rtsp_loop.induct)
  case (1 S M cli segs c)
  obtain buf rest where r: "recv 2047 segs = (buf, rest)" by (cases "recv 2047 segs")
  obtain stop c1 where h: "handle_request S M cli (c_string buf) c = (stop, c1)"
    by (cases "handle_request S M cli (c_string buf) c")
  obtain d1 where k: "little_handle_request S M' cli (c_string buf) d = (stop, d1)" and a: "alike c1 d1"
    using handle_request_alike [OF 1(2,3) assms(2), of S cli "c_string buf"] h
    by (cases "little_handle_request S M' cli (c_string buf) d") auto
  show ?case
  proof (cases "buf = [] \<or> stop")
    case True
    with r h k a 1(2) show ?thesis
      by (auto simp: handle_rtsp_loop.simps [of S M cli segs c] little_handle_rtsp_loop.simps [of S M' cli segs d])
  next
    case False
    with 1(1) [OF r [symmetric] _ h [symmetric] _ a 1(3)] r h k show ?thesis
      by (simp add: handle_rtsp_loop.simps [of S M cli segs c] little_handle_rtsp_loop.simps [of S M' cli segs d])
  qed
qed

lemma handle_rtsp_client_alike:
  assumes "sender_only M" and "quiet M'"
    and "alike c d"
  shows "alike (handle_rtsp_client S M cli segs c) (little_handle_rtsp_client S M' cli segs d)"
  unfolding handle_rtsp_client_def little_handle_rtsp_client_def
  by (rule alike_mutex [OF handle_rtsp_loop_alike [OF assms] assms(1,2) forget_steps(3)])

lemma alikeD:
  assumes "alike c d"
  shows "rc_out c = rc_out d \<and> rc_signals c = rc_signals d \<and> se_play (conn_session c) = se_play (conn_session d) \<and>
    se_client_addr_set (conn_session c) = se_client_addr_set (conn_session d) \<and>
    se_client_addr (conn_session c) = se_client_addr (conn_session d)"
  using assms unfolding alike_def forget_def
  by (cases "conn_session c"; cases "conn_session d") simp

end
