(* ===== verification/Little_App.thy ===== *)
theory Little_App
  imports Server Little_Rtp Little_Datafifo Little_Rtsp
begin

text \<open>
  \<open>src/little_app/src/RTSP_Create.c\<close>, the earlier version of the application: the sender passes on whatever the
  packs contain, and \<open>main\<close> has no snapshot writer. Its other files are the theories \<open>Little_Rtp\<close>,
  \<open>Little_Datafifo\<close> and \<open>Little_Rtsp\<close>; \<open>read_whole_file\<close>, of which it has the header alone, is that of
  \<open>src/file.c\<close>. The file loop and the threads are in \<open>Little_Server\<close>.
\<close>

section \<open>The sender thread\<close>

definition LITTLE_VIDEO_FPS :: nat where "LITTLE_VIDEO_FPS = 30"
definition LITTLE_RTP_TS_STEP :: u32 where "LITTLE_RTP_TS_STEP = of_nat (90000 div LITTLE_VIDEO_FPS)"

record little_env =
  lv_kd :: kd_env
  lv_net :: net_env
  lv_mmap :: mmap_env
  lv_rtsp :: rtsp_env

record little_sender =
  ls_fifo :: fifo_state
  ls_reader :: nalu_datafifo_reader
  ls_seq :: u16
  ls_timestamp :: u32
  ls_udp :: udp
  ls_mem :: mmap_state
  ls_shared :: shared

definition little_get_rtsp_target :: "rtsp_env \<Rightarrow> shared \<Rightarrow> (bool \<times> sockaddr_in \<times> bool) \<times> shared" where
  "little_get_rtsp_target R sh =
     (let sh1 = lock_mutex R sh; g = sh_session sh1
      in ((se_play g, if se_client_addr_set g then se_client_addr g else null_addr, se_client_addr_set g), sh1))"

partial_function (option) little_wait_for_rtsp_play :: "rtsp_env \<Rightarrow> shared \<Rightarrow> (sockaddr_in \<times> shared) option" where
  "little_wait_for_rtsp_play R sh =
     (let sh1 = lock_mutex R sh; g = sh_session sh1 in
      if \<not> se_play g \<or> \<not> se_client_addr_set g then little_wait_for_rtsp_play R sh1
      else Some (se_client_addr g, sh1))"

definition little_send_datafifo_pack ::
    "mmap_env \<Rightarrow> net_env \<Rightarrow> sockaddr_in \<Rightarrow> u32 \<Rightarrow> u32 \<Rightarrow> ipc_pack \<Rightarrow> u8 \<Rightarrow> u16 \<Rightarrow> udp \<Rightarrow> mmap_state
     \<Rightarrow> int \<times> u16 \<times> udp \<times> mmap_state" where
  "little_send_datafifo_pack E N dest timestamp ssrc pack marker seq u s =
     (case little_nalu_datafifo_mmap_pack E (Some pack) s of
        (None, s1) \<Rightarrow> (-1, seq, u, s1)
      | (Some virt_addr, s1) \<Rightarrow>
          case little_send_h265_buffer_rtp N dest timestamp ssrc (vm_bytes E s1 virt_addr (unat (pk_len pack))) marker seq u of
            (ret, seq', u') \<Rightarrow> (ret, seq', u', snd (little_nalu_datafifo_munmap_pack E (Some pack) virt_addr s1)))"

fun little_sender_packs :: "little_env \<Rightarrow> sockaddr_in \<Rightarrow> ipc_pack list \<Rightarrow> little_sender \<Rightarrow> little_sender" where
  "little_sender_packs V dest [] s = s"
| "little_sender_packs V dest (p # ps) s =
     (case little_send_datafifo_pack (lv_mmap V) (lv_net V) dest (ls_timestamp s) SENDER_SSRC p (if ps = [] then 1 else 0)
             (ls_seq s) (ls_udp s) (ls_mem s) of
        (_, q, u, m) \<Rightarrow> little_sender_packs V dest ps (s\<lparr>ls_seq := q, ls_udp := u, ls_mem := m\<rparr>))"

definition little_sender_step :: "little_env \<Rightarrow> little_sender \<Rightarrow> little_sender" where
  "little_sender_step V s =
     (case little_nalu_datafifo_read (lv_kd V) (Some (ls_reader s)) (ls_fifo s) of
        (None, f) \<Rightarrow> s\<lparr>ls_fifo := f\<rparr>
      | (Some (msg, item), f) \<Rightarrow>
          (case little_get_rtsp_target (lv_rtsp V) (ls_shared s) of
             ((playing, dest, dest_valid), sh) \<Rightarrow>
               let s1 = s\<lparr>ls_fifo := f, ls_shared := sh\<rparr>;
                   s2 = (if little_nalu_datafifo_validate_msg (Some msg) = 0 \<and> playing \<and> dest_valid then
                           let s' = little_sender_packs V dest (take (unat (lm_pack_cnt msg)) (lm_packs msg)) s1
                           in s'\<lparr>ls_timestamp := ls_timestamp s' + LITTLE_RTP_TS_STEP\<rparr>
                         else s1)
               in s2\<lparr>ls_fifo := snd (little_nalu_datafifo_read_done (lv_kd V) (Some (ls_reader s2)) (Some item) (ls_fifo s2))\<rparr>))"

fun little_sender_run :: "little_env \<Rightarrow> nat \<Rightarrow> little_sender \<Rightarrow> little_sender" where
  "little_sender_run V 0 s = s"
| "little_sender_run V (Suc n) s = little_sender_run V n (little_sender_step V s)"

text \<open>\<open>n\<close> iterations of the thread; \<open>None\<close> when the FIFO cannot be opened.\<close>

definition little_datafifo_rtp_sender_loop :: "little_env \<Rightarrow> nat \<Rightarrow> u64 \<Rightarrow> little_sender \<Rightarrow> little_sender option" where
  "little_datafifo_rtp_sender_loop V n fifo_phy_addr s =
     (case little_nalu_datafifo_open (lv_kd V) (Some (ls_reader s)) fifo_phy_addr (ls_fifo s) of
        (ret, rd, f) \<Rightarrow>
          if ret \<noteq> 0 then None
          else Some (little_sender_run V n
                 (s\<lparr>ls_seq := 0, ls_timestamp := SENDER_TIMESTAMP, ls_reader := the rd, ls_fifo := f\<rparr>)))"

section \<open>main\<close>

definition little_start_rtsp_server :: "sock_env \<Rightarrow> sock_call list \<Rightarrow> int \<times> sock_call list" where
  "little_start_rtsp_server K tr =
     (let listen_fd = sk_socket K SOCK_STREAM; tr1 = tr @ [Socket AF_INET SOCK_STREAM] in
      if listen_fd < 0 then (-1, tr1)
      else
        let tr2 = tr1 @ [Setsockopt_reuseaddr listen_fd];
            listen_addr = local_address RTSP_PORT;
            tr3 = tr2 @ [Bind listen_fd listen_addr] in
        if sk_bind K listen_fd listen_addr < 0 then (-1, tr3 @ [Close listen_fd])
        else
          let tr4 = tr3 @ [Listen listen_fd 5] in
          if sk_listen K listen_fd < 0 then (-1, tr4 @ [Close listen_fd])
          else (listen_fd, tr4))"

definition little_parse_u64_arg :: "string option \<Rightarrow> u64" where
  "little_parse_u64_arg textp =
     (case textp of
        None \<Rightarrow> 0
      | Some t \<Rightarrow>
          if t = [] then 0
          else case strtoull0 t of
                 None \<Rightarrow> 0
               | Some (value, end) \<Rightarrow> if end \<noteq> [] then 0 else value)"

definition little_load_file_source ::
    "file_env \<Rightarrow> alloc_env \<Rightarrow> string \<Rightarrow> globals \<Rightarrow> resources \<Rightarrow> int \<times> globals \<times> resources" where
  "little_load_file_source F A input_path g r =
     (case read_whole_file F input_path r of
        (None, r1) \<Rightarrow> (-1, g, r1)
      | (Some file_buf, r1) \<Rightarrow>
          (case snd (little_load_annexb_nalus A 0 file_buf) of
             None \<Rightarrow> (-1, g, free_mem r1)
           | Some (capacity, nalus) \<Rightarrow>
               let r2 = (if capacity = 0 then r1 else r1\<lparr>rs_blocks := rs_blocks r1 + 1\<rparr>) in
               if length nalus = 0 then (-1, g, free_mem r2)
               else (0, g\<lparr>g_file_buf := Some file_buf, g_nalus := Some nalus, g_nalu_count := length nalus\<rparr>, r2)))"

text \<open>The command line: \<open>argc == 3\<close> with \<open>--fifo\<close>, or \<open>argc == 2\<close>.\<close>

definition little_parse_args ::
    "file_env \<Rightarrow> alloc_env \<Rightarrow> string list \<Rightarrow> globals \<Rightarrow> resources \<Rightarrow> int \<times> globals \<times> resources" where
  "little_parse_args F A argv g r =
     (if length argv = 3 \<and> argv ! 1 = ''--fifo'' then
        (let g1 = g\<lparr>g_source := STREAM_SOURCE_DATAFIFO, g_fifo_phy_addr := little_parse_u64_arg (Some (argv ! 2))\<rparr>
         in if g_fifo_phy_addr g1 = 0 then (-1, g1, r) else (0, g1, r))
      else if length argv = 2 then
        (case little_load_file_source F A (argv ! 1) (g\<lparr>g_source := STREAM_SOURCE_FILE\<rparr>) r of
           (k, g1, r1) \<Rightarrow> if k \<noteq> 0 then (-1, g1, r1) else (0, g1, r1))
      else (-1, g, r))"

text \<open>Up to the accept loop: the descriptor listened on, or \<open>-1\<close>; the pointers are freed but not reset.\<close>

definition little_main_start ::
    "file_env \<Rightarrow> alloc_env \<Rightarrow> bool \<Rightarrow> sock_env \<Rightarrow> string list \<Rightarrow> globals \<Rightarrow> resources \<Rightarrow> sock_call list \<Rightarrow>
      int \<times> globals \<times> resources \<times> sock_call list" where
  "little_main_start F A created K argv g r tr =
     (case little_parse_args F A argv g r of
        (k, g1, r1) \<Rightarrow>
          if k \<noteq> 0 then (-1, g1, r1, tr)
          else if \<not> created then (-1, g1, free_opt (g_file_buf g1) (free_opt (g_nalus g1) r1), tr)
          else case little_start_rtsp_server K tr of
            (listen_fd, tr1) \<Rightarrow>
              if listen_fd < 0 then (-1, g1, free_opt (g_file_buf g1) (free_opt (g_nalus g1) r1), tr1)
              else (listen_fd, g1, r1, tr1))"

section \<open>What is the same in the later version\<close>

lemma little_wait_for_rtsp_play_same [little_same]: "little_wait_for_rtsp_play = wait_for_rtsp_play"
proof (intro ext)
  fix R sh
  have "little_wait_for_rtsp_play R sh = Some r \<Longrightarrow> wait_for_rtsp_play R sh = Some r" for r
  proof (induction rule: little_wait_for_rtsp_play.raw_induct [rotated, consumes 1, case_names step])
    case (step w R sh r)
    then show ?case by (subst wait_for_rtsp_play.simps) (auto simp: Let_def split: if_splits)
  qed
  moreover have "wait_for_rtsp_play R sh = Some r \<Longrightarrow> little_wait_for_rtsp_play R sh = Some r" for r
  proof (induction rule: wait_for_rtsp_play.raw_induct [rotated, consumes 1, case_names step])
    case (step w R sh r)
    then show ?case by (subst little_wait_for_rtsp_play.simps) (auto simp: Let_def split: if_splits)
  qed
  ultimately show "little_wait_for_rtsp_play R sh = wait_for_rtsp_play R sh"
    by (cases "wait_for_rtsp_play R sh"; cases "little_wait_for_rtsp_play R sh") auto
qed

lemma little_start_rtsp_server_same [little_same]: "little_start_rtsp_server = start_rtsp_server"
  by (intro ext) (simp only: little_start_rtsp_server_def start_rtsp_server_def)

lemma little_parse_u64_arg_same [little_same]: "little_parse_u64_arg = parse_u64_arg"
  by (intro ext) (simp only: little_parse_u64_arg_def parse_u64_arg_def)

lemma little_load_file_source_same [little_same]: "little_load_file_source = load_file_source"
  by (intro ext) (simp only: little_load_file_source_def load_file_source_def little_same)

section \<open>The sender transmits the packs\<close>

text \<open>Sending a pack differs from the later version only in the result when the unmapping fails.\<close>

lemma little_send_datafifo_pack_eq:
  assumes "little_send_datafifo_pack E N dest ts ssrc p m q u s = (r, q', u', s')"
  shows "\<exists>r'. send_datafifo_pack E N dest ts ssrc (Some p) m q u s = (r', q', u', s') \<and> (r' = 0 \<longrightarrow> r = 0)"
  using assms
  by (auto simp: little_send_datafifo_pack_def send_datafifo_pack_def little_same Let_def split: prod.splits option.splits)

fun little_packs_plan :: "mmap_env \<Rightarrow> ipc_pack list \<Rightarrow> (bytes \<times> u8) list" where
  "little_packs_plan E [] = []"
| "little_packs_plan E (p # ps) = buffer_plan (Some (phys_bytes E p)) (if ps = [] then 1 else 0) @ little_packs_plan E ps"

definition sendable_pack :: "mmap_env \<Rightarrow> ipc_pack \<Rightarrow> bool" where
  "sendable_pack E p \<longleftrightarrow> pk_phys_addr p \<noteq> 0 \<and> sendable_buffer (Some (phys_bytes E p))"

lemma little_sender_packs_calm:
  assumes "device_ok (lv_mmap V)" and "net_accepts (lv_net V)"
  shows "maps_fresh (lv_mmap V) (ls_mem s) \<Longrightarrow> \<forall>p \<in> set ps. sendable_pack (lv_mmap V) p \<Longrightarrow>
    udp_sent (ls_udp (little_sender_packs V dest ps s)) = udp_sent (ls_udp s) @
      numbered dest (ls_timestamp s) SENDER_SSRC (ls_seq s) (little_packs_plan (lv_mmap V) ps) \<and>
    mm_maps (ls_mem (little_sender_packs V dest ps s)) = mm_maps (ls_mem s) \<and>
    ls_timestamp (little_sender_packs V dest ps s) = ls_timestamp s \<and>
    ls_fifo (little_sender_packs V dest ps s) = ls_fifo s \<and> ls_reader (little_sender_packs V dest ps s) = ls_reader s"
proof (induction ps arbitrary: s)
  case (Cons p ps)
  let ?E = "lv_mmap V" and ?m = "if ps = [] then 1 else 0 :: u8"
  obtain r q u m where x: "little_send_datafifo_pack ?E (lv_net V) dest (ls_timestamp s) SENDER_SSRC p ?m
      (ls_seq s) (ls_udp s) (ls_mem s) = (r, q, u, m)" by (metis prod_cases4)
  obtain r' where y: "send_datafifo_pack ?E (lv_net V) dest (ls_timestamp s) SENDER_SSRC (Some p) ?m
      (ls_seq s) (ls_udp s) (ls_mem s) = (r', q, u, m)"
    using little_send_datafifo_pack_eq [OF x] by blast
  have E: "page_size_ok ?E" "munmap_accepts ?E" "mmap_accepts ?E (ls_mem s)"
    using assms(1) device_ok_accepts by (auto simp: device_ok_def)
  have "r' = 0"
    using send_datafifo_pack_live [OF E(1) Cons.prems(1) E(2,3) assms(2), of p dest "ls_timestamp s" SENDER_SSRC ?m "ls_seq s" "ls_udp s"]
      Cons.prems(2) y by (simp add: sendable_pack_def)
  with emitted_ok send_datafifo_pack_emits [OF E(1) y]
  have sent: "udp_sent u = udp_sent (ls_udp s) @ numbered dest (ls_timestamp s) SENDER_SSRC (ls_seq s) (buffer_plan (Some (phys_bytes ?E p)) ?m)"
    "q = ls_seq s + of_nat (length (buffer_plan (Some (phys_bytes ?E p)) ?m))" by blast+
  have maps: "mm_maps m = mm_maps (ls_mem s)"
    by (rule send_datafifo_pack_maps [OF E(1) Cons.prems(1) E(2) y])
  let ?s = "s\<lparr>ls_seq := q, ls_udp := u, ls_mem := m\<rparr>"
  have "maps_fresh ?E (ls_mem ?s)" using maps_fresh_cong [OF _ Cons.prems(1)] maps by simp
  from Cons.IH [OF this] Cons.prems(2) sent maps x show ?case
    by (simp add: numbered_append)
qed simp

lemma little_sender_step_events:
  assumes "rd_opened (ls_reader s)"
  shows "ls_reader (little_sender_step V s) = ls_reader s \<and>
    (ff_events (ls_fifo (little_sender_step V s)) = ff_events (ls_fifo s) \<or>
     (\<exists>a. ff_events (ls_fifo (little_sender_step V s)) = ff_events (ls_fifo s) @ [Took a, Released a]))"
proof -
  have frame: "ls_fifo (little_sender_packs V dest ps s) = ls_fifo s \<and> ls_reader (little_sender_packs V dest ps s) = ls_reader s"
    for dest ps s by (induction V dest ps s rule: little_sender_packs.induct) (auto split: prod.split)
  obtain r f where rd: "little_nalu_datafifo_read (lv_kd V) (Some (ls_reader s)) (ls_fifo s) = (r, f)" by (metis surj_pair)
  note c = little_read_cases [OF rd]
  show ?thesis
  proof (cases r)
    case None
    with c rd show ?thesis by (simp add: little_sender_step_def)
  next
    case (Some mi)
    then obtain m item where mi: "r = Some (m, item)" by (cases mi) auto
    obtain playing dest valid sh where t: "little_get_rtsp_target (lv_rtsp V) (ls_shared s) = ((playing, dest, valid), sh)"
      by (metis prod.collapse)
    show ?thesis using c rd mi t assms
      by (auto simp: little_sender_step_def frame little_nalu_datafifo_read_done_def Let_def)
  qed
qed

section \<open>A message of the later version, read by the earlier one\<close>

lemma le64_ucast: "(ucast (le64 bs i) :: u32) = le32 bs i"
  unfolding le64_def by (rule bit_word_eqI) (auto simp: bit_simps)

lemma little_reads:
  assumes "length (msg_packs m) = 8"
  shows "let m' = little_msg_of_item (msg_bytes m @ pad) in
    lm_magic m' = msg_magic m \<and> lm_version m' = msg_version m \<and> lm_pack_cnt m' = msg_pack_cnt m \<and>
    lm_total_len m' = ucast (msg_submit_time_ms m) \<and> length (lm_packs m') = 8 \<and>
    pk_phys_addr (lm_packs m' ! 0) = ucast (msg_total_len m) OR push_bit 32 (ucast (msg_reserved m)) \<and>
    pk_len (lm_packs m' ! 0) = ucast (pk_pts (msg_packs m ! 0))"
proof -
  let ?bs = "msg_bytes m @ pad"
  have e: "msg_of_item ?bs = m" by (rule conjunct1 [OF msg_layout [OF assms]])
  have "le32 ?bs 0 = msg_magic (msg_of_item ?bs)" "le32 ?bs 4 = msg_version (msg_of_item ?bs)"
    "le32 ?bs 12 = msg_pack_cnt (msg_of_item ?bs)" "le64 ?bs 32 = msg_submit_time_ms (msg_of_item ?bs)"
    "le32 ?bs 40 = msg_total_len (msg_of_item ?bs)" "le32 ?bs 44 = msg_reserved (msg_of_item ?bs)"
    "map (\<lambda>k. pack_at ?bs (48 + 24 * k)) [0..<8] = msg_packs (msg_of_item ?bs)"
    by (simp_all add: msg_of_item_def)
  note f = this [unfolded e]
  have "msg_packs m ! 0 = map (\<lambda>k. pack_at ?bs (48 + 24 * k)) [0..<8] ! 0" by (simp only: f(7))
  also have "\<dots> = pack_at ?bs 48" by (subst nth_map) simp_all
  finally have "pk_pts (msg_packs m ! 0) = le64 ?bs 56" by (simp add: pack_at_def)
  then have "ucast (pk_pts (msg_packs m ! 0)) = le32 ?bs 56" by (simp only: le64_ucast)
  moreover have "le64 ?bs 40 = ucast (msg_total_len m) OR push_bit 32 (ucast (msg_reserved m))"
    using f(5,6) by (simp add: le64_def)
  moreover have "lm_packs (little_msg_of_item ?bs) ! 0 = pack_at ?bs 40"
    unfolding little_msg_of_item_def little_ipc_msg.simps by (subst nth_map) simp_all
  ultimately show ?thesis
    using f(1-4) le64_ucast [of ?bs 32] by (simp add: little_msg_of_item_def pack_at_def Let_def)
qed

section \<open>Starting\<close>

text \<open>When the earlier \<open>main\<close> returns it has freed what it allocated and closed the streams.\<close>

lemma little_main_start_balanced:
  assumes "little_main_start F A created K argv globals_init \<lparr>rs_files = 0, rs_blocks = 0\<rparr> tr = (rc, g, r, tr')"
  shows "rs_files r = 0 \<and> (rc < 0 \<longrightarrow> rc = -1 \<and> rs_blocks r = 0)"
proof -
  obtain k g1 r1 where pa: "little_parse_args F A argv globals_init \<lparr>rs_files = 0, rs_blocks = 0\<rparr> = (k, g1, r1)"
    by (metis prod_cases3)
  have "rs_files r1 = 0 \<and> rs_blocks r1 = owned_ptr (g_file_buf g1) + owned_ptr (g_nalus g1) \<and>
      (k \<noteq> 0 \<longrightarrow> g_file_buf g1 = None \<and> g_nalus g1 = None)"
  proof (cases "length argv = 3 \<and> argv ! 1 = ''--fifo''")
    case True
    with pa show ?thesis
      by (auto simp: little_parse_args_def little_same globals_init_def owned_ptr_def Let_def split: if_splits)
  next
    case False
    obtain k0 g0 r0 where l: "load_file_source F A (argv ! 1) (globals_init\<lparr>g_source := STREAM_SOURCE_FILE\<rparr>)
        \<lparr>rs_files = 0, rs_blocks = 0\<rparr> = (k0, g0, r0)" by (metis prod_cases3)
    with load_file_source_cases [OF l] False pa show ?thesis
      by (auto simp: little_parse_args_def little_same globals_init_def owned_ptr_def split: if_splits)
  qed
  with assms pa start_rtsp_server_ret [of K tr] show ?thesis
    by (auto simp: little_main_start_def little_same owned_ptr_def split: prod.splits if_splits)
qed

section \<open>Properties\<close>

text \<open>
  The RTSP side is a conservative extension: for every client, every network and every interleaving
  the earlier and the later version send the same bytes, wake the sender equally often and leave the same
  session but for the request for parameter sets, which only the later one knows.
\<close>

theorem little_app_rtsp_equivalent:
  assumes "sender_only M" and "quiet M'"
  shows "let c1 = handle_rtsp_client S M cli segs c; c2 = little_handle_rtsp_client S M' cli segs c in
    rc_out c1 = rc_out c2 \<and> rc_signals c1 = rc_signals c2 \<and> se_play (conn_session c1) = se_play (conn_session c2) \<and>
    se_client_addr_set (conn_session c1) = se_client_addr_set (conn_session c2) \<and>
    se_client_addr (conn_session c1) = se_client_addr (conn_session c2)"
  using alikeD [OF handle_rtsp_client_alike [OF assms alike_refl]] by (simp add: Let_def)

theorem little_app_rtsp_equivalent_witness:
  "rc_out (handle_rtsp_client (\<lambda>_ _. 1) (\<lambda>_ g. g\<lparr>se_need_parameter_sets := False\<rparr>) null_addr [''PLAY x'', ''OPTIONS *'']
     (pr_conn (process_init demo_fs session_init))) =
   rc_out (little_handle_rtsp_client (\<lambda>_ _. 1) (\<lambda>_ g. g) null_addr [''PLAY x'', ''OPTIONS *'']
     (pr_conn (process_init demo_fs session_init)))"
  using little_app_rtsp_equivalent [of "\<lambda>_ g. g\<lparr>se_need_parameter_sets := False\<rparr>" "\<lambda>_ g. g" "\<lambda>_ _. 1" null_addr
      "[''PLAY x'', ''OPTIONS *'']" "pr_conn (process_init demo_fs session_init)"]
  by (simp add: sender_only_def quiet_def Let_def)

text \<open>
  C36: A defect across the versions: the later layout has eight bytes more before the packs, under the same
  magic and version number. The earlier version accepts a message of one pack of a later big core, and takes
  the total length and the flags for the physical address of the pack and its time stamp for the length.
\<close>

theorem little_app_misreads_message:
  assumes "length (msg_packs m) = 8" and "nalu_datafifo_validate_msg (Some m) = 0" and "msg_pack_cnt m = 1"
    and "msg_total_len m \<noteq> 0" and "(ucast (pk_pts (msg_packs m ! 0)) :: u32) \<noteq> 0"
  shows "let m' = little_msg_of_item (msg_bytes m @ pad) in
    little_nalu_datafifo_validate_msg (Some m') = 0 \<and>
    pk_phys_addr (lm_packs m' ! 0) = ucast (msg_total_len m) OR push_bit 32 (ucast (msg_reserved m)) \<and>
    pk_len (lm_packs m' ! 0) = ucast (pk_pts (msg_packs m ! 0))"
proof -
  let ?m = "little_msg_of_item (msg_bytes m @ pad)"
  note r = little_reads [OF assms(1), of pad, unfolded Let_def]
  have hdr: "msg_magic m = MPP_NALU_IPC_MAGIC" "msg_version m = MPP_NALU_IPC_VERSION"
    using assms(2) by (auto simp: nalu_datafifo_validate_msg_def split: if_splits)
  have "ucast (msg_total_len m) OR push_bit 32 (ucast (msg_reserved m)) \<noteq> (0 :: u64)"
  proof
    assume z: "ucast (msg_total_len m) OR push_bit 32 (ucast (msg_reserved m)) = (0 :: u64)"
    have "bit (msg_total_len m) i = bit (ucast (msg_total_len m) OR push_bit 32 (ucast (msg_reserved m)) :: u64) i"
      if "i < 32" for i using that by (simp add: bit_simps)
    with z have "\<not> bit (msg_total_len m) i" if "i < 32" for i using that by simp
    then have "msg_total_len m = 0" by (intro bit_word_eqI) simp
    with assms(4) show False by simp
  qed
  then have "little_pack_ok (lm_packs ?m ! 0)" using r assms(5) by (simp add: little_pack_ok_def)
  moreover have "take (unat (lm_pack_cnt ?m)) (lm_packs ?m) = [lm_packs ?m ! 0]"
    using r assms(3) by (simp add: take_Suc hd_conv_nth flip: length_greater_0_conv)
  ultimately show ?thesis
    using r hdr assms(3) by (simp add: Let_def little_nalu_datafifo_validate_msg_def MPP_NALU_IPC_MAX_PACKS_def)
qed

definition demo_later_msg :: ipc_msg where
  "demo_later_msg = \<lparr>msg_magic = 0x4E414C55, msg_version = 1, msg_chn = 0, msg_pack_cnt = 1, msg_seq = 7,
     msg_frame_pts = 1, msg_submit_time_ms = 2, msg_total_len = 9, msg_reserved = 0,
     msg_packs = replicate 8 \<lparr>pk_phys_addr = 0x12ffa000, pk_pts = 1000, pk_len = 9, pk_type = 0\<rparr>\<rparr>"

theorem little_app_misreads_message_witness:
  "pk_phys_addr (lm_packs (little_msg_of_item (msg_bytes demo_later_msg)) ! 0) = 9 \<and>
   pk_len (lm_packs (little_msg_of_item (msg_bytes demo_later_msg)) ! 0) = 1000"
proof -
  have "nalu_datafifo_validate_msg (Some demo_later_msg) = 0"
    unfolding msg_valid_iff by (simp add: demo_later_msg_def msg_ok_def live_packs_def pack_ok_def)
  from little_app_misreads_message [OF _ this, of "[]"] show ?thesis
    by (simp add: demo_later_msg_def Let_def)
qed

text \<open>
  C35: The earlier sender, when nothing fails: a valid message, while a client plays, is sent as the NALUs of its
  packs as they come, to the client's address and with one timestamp, the marker set at the end of the last pack;
  nothing is held back, the timestamp then advances by one frame at 30 frames per second, and
  no mapping is left. In any case an item that was taken gets its READ_DONE.
\<close>

theorem little_app_sender_step:
  assumes "device_ok (lv_mmap V)" and "net_accepts (lv_net V)" and "quiet (lv_rtsp V)"
    and "maps_fresh (lv_mmap V) (ls_mem s)" and "target_ready (ls_shared s)"
    and "little_nalu_datafifo_read (lv_kd V) (Some (ls_reader s)) (ls_fifo s) = (Some (msg, item), f)"
    and "little_nalu_datafifo_validate_msg (Some msg) = 0"
    and "\<forall>p \<in> set (take (unat (lm_pack_cnt msg)) (lm_packs msg)). sendable_pack (lv_mmap V) p"
  shows "let s' = little_sender_step V s in
    udp_sent (ls_udp s') = udp_sent (ls_udp s) @
      numbered (se_client_addr (sh_session (ls_shared s))) (ls_timestamp s) SENDER_SSRC (ls_seq s)
        (little_packs_plan (lv_mmap V) (take (unat (lm_pack_cnt msg)) (lm_packs msg))) \<and>
    ls_timestamp s' = ls_timestamp s + 3000 \<and> mm_maps (ls_mem s') = mm_maps (ls_mem s) \<and>
    ff_events (ls_fifo s') = ff_events (ls_fifo s) @ [Took (it_addr item), Released (it_addr item)]"
proof -
  let ?dest = "se_client_addr (sh_session (ls_shared s))"
  obtain sh where t: "little_get_rtsp_target (lv_rtsp V) (ls_shared s) = ((True, ?dest, True), sh)"
    using assms(3,5) by (simp add: little_get_rtsp_target_def target_ready_def Let_def)
  let ?s1 = "s\<lparr>ls_fifo := f, ls_shared := sh\<rparr>"
  have "maps_fresh (lv_mmap V) (ls_mem ?s1)" using assms(4) by simp
  note calm = little_sender_packs_calm [OF assms(1,2) this assms(8), of ?dest]
  have "LITTLE_RTP_TS_STEP = 3000" by (simp add: LITTLE_RTP_TS_STEP_def LITTLE_VIDEO_FPS_def)
  with calm assms(6,7) t little_read_cases [OF assms(6)] show ?thesis
    by (simp add: little_sender_step_def little_nalu_datafifo_read_done_def Let_def)
qed

text \<open>An item whose one pack is \<open>demo_stream\<close> for the earlier version.\<close>

definition demo_little_msg :: ipc_msg where
  "demo_little_msg = demo_later_msg\<lparr>msg_total_len := 0x1000,
     msg_packs := replicate 8 \<lparr>pk_phys_addr = 1, pk_pts = 28, pk_len = 0, pk_type = 0\<rparr>\<rparr>"

definition demo_little_env :: little_env where
  "demo_little_env = \<lparr>lv_kd = demo_kd\<lparr>kd_read := (\<lambda>_. (0, Some \<lparr>it_addr = 0x6000, it_bytes = msg_bytes demo_little_msg\<rparr>))\<rparr>,
     lv_net = (\<lambda>_ _. 1), lv_mmap = demo_snapshot_env, lv_rtsp = (\<lambda>_ g. g)\<rparr>"

definition demo_little_sender :: little_sender where
  "demo_little_sender = \<lparr>ls_fifo = sd_fifo (demo_sender 0), ls_reader = sd_reader (demo_sender 0), ls_seq = 0,
     ls_timestamp = SENDER_TIMESTAMP, ls_udp = \<lparr>udp_calls = 0, udp_sent = []\<rparr>, ls_mem = no_maps,
     ls_shared = \<lparr>sh_session = little_session_play (little_session_setup null_addr 5000 session_init), sh_locks = 0\<rparr>\<rparr>"

theorem little_app_sender_step_witness:
  "ff_events (ls_fifo (little_sender_step demo_little_env demo_little_sender)) = [Opened 9, Took 0x6000, Released 0x6000] \<and>
   mm_maps (ls_mem (little_sender_step demo_little_env demo_little_sender)) = []"
proof -
  let ?V = demo_little_env and ?s = demo_little_sender and ?m = "little_msg_of_item (msg_bytes demo_little_msg)"
  have "length (msg_packs demo_little_msg) = 8" by (simp add: demo_little_msg_def)
  note r = little_reads [OF this, of "[]", unfolded append_Nil2 Let_def]
  have m: "msg_magic demo_little_msg = MPP_NALU_IPC_MAGIC" "msg_version demo_little_msg = MPP_NALU_IPC_VERSION"
    "msg_pack_cnt demo_little_msg = 1" "msg_total_len demo_little_msg = 0x1000" "msg_reserved demo_little_msg = 0"
    "pk_pts (msg_packs demo_little_msg ! 0) = 28"
    by (simp_all add: demo_little_msg_def demo_later_msg_def MPP_NALU_IPC_MAGIC_def MPP_NALU_IPC_VERSION_def)
  have p: "pk_phys_addr (lm_packs ?m ! 0) = 0x1000" "pk_len (lm_packs ?m ! 0) = 28" using r m by simp_all
  have tk: "take (unat (lm_pack_cnt ?m)) (lm_packs ?m) = [lm_packs ?m ! 0]"
    using r m(3) by (simp add: take_Suc hd_conv_nth flip: length_greater_0_conv)
  have "phys_bytes demo_snapshot_env (lm_packs ?m ! 0) = demo_stream"
    using demo_phys unfolding phys_bytes_def p by simp
  moreover have "buffer_nalus (Some demo_stream) 0 =
      [(Some [64, 1, 9], 0), (Some [66, 1, 9], 0), (Some [68, 1, 9], 0), (Some [38, 1, 9], 0)]" by code_simp
  then have "sendable_buffer (Some demo_stream)" by (simp add: sendable_buffer_def)
  ultimately have pk: "\<forall>p \<in> set (take (unat (lm_pack_cnt ?m)) (lm_packs ?m)). sendable_pack (lv_mmap ?V) p"
    by (simp add: tk sendable_pack_def p demo_little_env_def)
  have v: "little_nalu_datafifo_validate_msg (Some ?m) = 0"
    unfolding little_nalu_datafifo_validate_msg_def option.case tk
    using r m p by (simp add: little_pack_ok_def MPP_NALU_IPC_MAX_PACKS_def)
  have e: "device_ok (lv_mmap ?V)" "net_accepts (lv_net ?V)" "quiet (lv_rtsp ?V)" "maps_fresh (lv_mmap ?V) (ls_mem ?s)"
    "target_ready (ls_shared ?s)"
    using demo_device demo_mmap_env_ok(2)
    by (simp_all add: demo_little_env_def demo_sender_env_def net_accepts_def quiet_def demo_little_sender_def
        demo_snapshot_env_def target_ready_def little_session_play_def little_session_setup_def)
  obtain f where rd: "little_nalu_datafifo_read (lv_kd ?V) (Some (ls_reader ?s)) (ls_fifo ?s) =
      (Some (?m, \<lparr>it_addr = 0x6000, it_bytes = msg_bytes demo_little_msg\<rparr>), f)"
    by (simp add: little_nalu_datafifo_read_def demo_little_env_def demo_little_sender_def demo_kd_def demo_sender_def
        Let_def MPP_NALU_IPC_ITEM_SIZE_def LITTLE_FIFO_ENTRIES_def)
  from little_app_sender_step [OF e rd v pk] show ?thesis
    by (simp add: Let_def demo_little_sender_def demo_sender_def no_maps_def)
qed

end
