(* ===== verification/Little_Server.thy ===== *)
theory Little_Server
  imports Little_App
begin

text \<open>
  The threads of the earlier version as they run: its file loop, its sender thread with the socket, and the
  accept loop of its \<open>main\<close> (\<open>src/little_app/src/RTSP_Create.c\<close>), each related to the later one.
\<close>

section \<open>The threads\<close>

definition little_file_rtp_sender_step :: "rtsp_env \<Rightarrow> net_env \<Rightarrow> bytes list \<Rightarrow> file_sender \<Rightarrow> file_sender option" where
  "little_file_rtp_sender_step R N nalus s =
     (case little_wait_for_rtsp_play R (fl_shared s) of
        None \<Rightarrow> None
      | Some (dest, sh) \<Rightarrow>
          let s1 = s\<lparr>fl_shared := sh\<rparr> in
          if nalus = [] then Some s1
          else
            let nalu = nalus ! fl_idx s in
            case little_send_h265_nalu_rtp N dest (fl_timestamp s) FILE_SSRC (Some nalu) 1 (fl_seq s) (fl_udp s) of
              (r, q, u) \<Rightarrow>
                let s2 = s1\<lparr>fl_seq := q, fl_udp := u\<rparr> in
                if r \<noteq> 0 then Some s2
                else
                  let idx = fl_idx s + 1 in
                  Some (s2\<lparr>fl_idx := if idx \<ge> length nalus then 0 else idx,
                           fl_timestamp := fl_timestamp s + LITTLE_RTP_TS_STEP\<rparr>))"

fun little_file_rtp_sender_loop ::
    "rtsp_env \<Rightarrow> net_env \<Rightarrow> bytes list \<Rightarrow> nat \<Rightarrow> file_sender \<Rightarrow> file_sender option" where
  "little_file_rtp_sender_loop R N nalus 0 s = Some s"
| "little_file_rtp_sender_loop R N nalus (Suc n) s =
     (case little_file_rtp_sender_step R N nalus s of
        None \<Rightarrow> None
      | Some s' \<Rightarrow> little_file_rtp_sender_loop R N nalus n s')"

datatype little_sender_thread =
  Little_ended | Little_datafifo little_sender | Little_file file_sender | Little_blocked

definition little_rtp_sender_thread ::
    "sock_env \<Rightarrow> globals \<Rightarrow> little_env \<Rightarrow> little_sender \<Rightarrow> rtsp_env \<Rightarrow> net_env \<Rightarrow> udp \<Rightarrow> shared \<Rightarrow> nat \<Rightarrow>
      sock_call list \<Rightarrow> little_sender_thread \<times> sock_call list" where
  "little_rtp_sender_thread K g V s R N u sh n tr =
     (case little_create_udp_socket_only K tr of
        (sock, tr1) \<Rightarrow>
          if sock < 0 then (Little_ended, tr1)
          else if g_source g = STREAM_SOURCE_DATAFIFO then
            (case little_datafifo_rtp_sender_loop V n (g_fifo_phy_addr g) s of
               None \<Rightarrow> (Little_ended, tr1 @ [Close sock])
             | Some s' \<Rightarrow> (Little_datafifo s', tr1))
          else
            (case little_file_rtp_sender_loop R N (case g_nalus g of None \<Rightarrow> [] | Some ns \<Rightarrow> ns) n (file_sender_init u sh) of
               None \<Rightarrow> (Little_blocked, tr1)
             | Some s' \<Rightarrow> (Little_file s', tr1)))"

fun little_main_loop ::
    "(nat \<Rightarrow> send_env) \<Rightarrow> (nat \<Rightarrow> rtsp_env) \<Rightarrow> nat \<Rightarrow> accepted_client list \<Rightarrow> rtsp_conn \<Rightarrow> int list \<Rightarrow>
      rtsp_conn \<times> int list" where
  "little_main_loop S M i [] c closed = (c, closed)"
| "little_main_loop S M i ((client_fd, cli_addr, segs) # cs) c closed =
     (if client_fd < 0 then little_main_loop S M (i + 1) cs c closed
      else little_main_loop S M (i + 1) cs
             (little_handle_rtsp_client (S i) (M i) cli_addr segs (c\<lparr>rc_calls := 0, rc_out := []\<rparr>)) (closed @ [client_fd]))"

section \<open>The file loop keeps the contract of a player\<close>

text \<open>An iteration differs from the later version's in the timestamp alone.\<close>

lemma little_file_step_eq:
  "little_file_rtp_sender_step R N nalus s =
     map_option (\<lambda>s'. if fl_timestamp s' = fl_timestamp s then s'
                      else s'\<lparr>fl_timestamp := fl_timestamp s + LITTLE_RTP_TS_STEP\<rparr>)
       (file_rtp_sender_step R N nalus s)"
proof -
  have "RTP_TS_STEP \<noteq> 0" by (simp add: RTP_TS_STEP_def VIDEO_FPS_def)
  then show ?thesis
    by (auto simp: little_file_rtp_sender_step_def file_rtp_sender_step_def little_same Let_def split: option.split prod.split)
qed

interpretation little_file_player:
  nalu_player little_file_rtp_sender_step little_file_rtp_sender_loop LITTLE_RTP_TS_STEP
proof unfold_locales
  fix R N and nalus :: "bytes list" and s :: file_sender
  assume a: "quiet R" "target_ready (fl_shared s)" "net_accepts N" "fl_idx s < length nalus" "2 \<le> length (nalus ! fl_idx s)"
  obtain s0 where s0: "file_rtp_sender_step R N nalus s = Some s0" "sh_session (fl_shared s0) = sh_session (fl_shared s)"
    "fl_idx s0 = (fl_idx s + 1) mod length nalus" "fl_timestamp s0 = fl_timestamp s + RTP_TS_STEP"
    "fl_seq s0 = fl_seq s + of_nat (length (nalu_plan (Some (nalus ! fl_idx s)) 1))"
    "udp_sent (fl_udp s0) = udp_sent (fl_udp s) @ numbered (se_client_addr (sh_session (fl_shared s)))
        (fl_timestamp s) FILE_SSRC (fl_seq s) (nalu_plan (Some (nalus ! fl_idx s)) 1)"
    using file_player.step_calm [OF a] by blast
  then have "little_file_rtp_sender_step R N nalus s = Some (s0\<lparr>fl_timestamp := fl_timestamp s + LITTLE_RTP_TS_STEP\<rparr>)"
    by (simp add: little_file_step_eq RTP_TS_STEP_def VIDEO_FPS_def)
  with s0 show "\<exists>s'. little_file_rtp_sender_step R N nalus s = Some s' \<and>
      sh_session (fl_shared s') = sh_session (fl_shared s) \<and>
      fl_idx s' = (fl_idx s + 1) mod length nalus \<and> fl_timestamp s' = fl_timestamp s + LITTLE_RTP_TS_STEP \<and>
      fl_seq s' = fl_seq s + of_nat (length (nalu_plan (Some (nalus ! fl_idx s)) 1)) \<and>
      udp_sent (fl_udp s') = udp_sent (fl_udp s) @ numbered (se_client_addr (sh_session (fl_shared s)))
        (fl_timestamp s) FILE_SSRC (fl_seq s) (nalu_plan (Some (nalus ! fl_idx s)) 1)"
    by simp
next
  fix R N and nalus :: "bytes list" and s s' :: file_sender
  assume "little_file_rtp_sender_step R N nalus s = Some s'" and i: "fl_idx s < length nalus" "length (nalus ! fl_idx s) < 2"
  then obtain s0 where "file_rtp_sender_step R N nalus s = Some s0" "fl_idx s' = fl_idx s0" "fl_udp s' = fl_udp s0"
    by (auto simp: little_file_step_eq split: if_splits)
  with file_player.step_short [OF this(1) i] show "fl_idx s' = fl_idx s \<and> fl_udp s' = fl_udp s" by simp
qed simp_all

section \<open>The socket of the sender thread\<close>

lemma little_rtp_sender_thread_socket:
  assumes "fresh_socket K SOCK_DGRAM (open_sockets K tr m)"
  shows "case little_rtp_sender_thread K g V s R N u sh n tr of (st, tr') \<Rightarrow>
    (if st = Little_ended then open_sockets K tr' m = open_sockets K tr m
     else \<exists>fd \<ge> 0. open_sockets K tr' m = (open_sockets K tr m)(fd \<mapsto> Some (local_address 5004)))"
proof -
  obtain sock tr1 where c: "create_udp_socket_only K tr = (sock, tr1)" by (metis surj_pair)
  note o = udp_socket_opened [OF assms c]
  show ?thesis using c o
    by (cases "sock < 0") (auto simp: little_rtp_sender_thread_def little_same not_less split: option.split)
qed

section \<open>Serving\<close>

lemma alike_reset: "alike c d \<Longrightarrow> alike (c\<lparr>rc_calls := 0, rc_out := []\<rparr>) (d\<lparr>rc_calls := 0, rc_out := []\<rparr>)"
  by (simp add: alike_def conn_session_def)

lemma main_loop_alike:
  assumes "\<forall>i. sender_only (M i)" and "\<forall>i. quiet (M' i)"
  shows "alike (pr_conn p) c \<Longrightarrow>
    alike (pr_conn (main_loop S M i cs p)) (fst (little_main_loop S M' i cs c (pr_closed p))) \<and>
    pr_closed (main_loop S M i cs p) = snd (little_main_loop S M' i cs c (pr_closed p))"
proof (induction cs arbitrary: p c i)
  case (Cons x cs)
  obtain fd cli segs where x: "x = (fd, cli, segs)" by (metis prod_cases3)
  show ?case
  proof (cases "fd < 0")
    case False
    let ?p = "p\<lparr>pr_conn := handle_rtsp_client (S i) (M i) cli segs ((pr_conn p)\<lparr>rc_calls := 0, rc_out := []\<rparr>),
                pr_closed := pr_closed p @ [fd]\<rparr>"
    have "alike (pr_conn ?p) (little_handle_rtsp_client (S i) (M' i) cli segs (c\<lparr>rc_calls := 0, rc_out := []\<rparr>))"
      using handle_rtsp_client_alike [OF _ _ alike_reset [OF Cons.prems]] assms by simp
    from Cons.IH [OF this] False show ?thesis by (simp add: x)
  qed (use Cons in \<open>simp add: x\<close>)
qed simp

section \<open>Properties\<close>

text \<open>
  C34: The RTSP side is a conservative extension: whatever clients connect to the two versions, whatever they
  send, however the network takes the replies, both send the same bytes on every connection, wake the
  sender equally often, close the same connections and leave the same session but for the request for
  parameter sets, which only the later one knows.
\<close>

theorem little_app_serves_alike:
  assumes "\<forall>i. sender_only (M i)" and "\<forall>i. quiet (M' i)"
  shows "let p' = main_loop S M i cs p; (c, closed) = little_main_loop S M' i cs (pr_conn p) (pr_closed p)
    in pr_closed p' = closed \<and> rc_out (pr_conn p') = rc_out c \<and> rc_signals (pr_conn p') = rc_signals c \<and>
       se_play (conn_session (pr_conn p')) = se_play (conn_session c) \<and>
       se_client_addr_set (conn_session (pr_conn p')) = se_client_addr_set (conn_session c) \<and>
       se_client_addr (conn_session (pr_conn p')) = se_client_addr (conn_session c)"
  using main_loop_alike [OF assms alike_refl, where S = S and i = i and cs = cs and p = p] alikeD
  by (simp add: Let_def case_prod_beta)

theorem little_app_serves_alike_witness:
  "rc_out (pr_conn (main_loop (\<lambda>_ _ _. 1) (\<lambda>_ _ g. g\<lparr>se_need_parameter_sets := False\<rparr>) 0
     [(5, null_addr, [''PLAY x'']), (-1, null_addr, []), (6, null_addr, [''OPTIONS *''])] (process_init demo_fs session_init))) =
   rc_out (fst (little_main_loop (\<lambda>_ _ _. 1) (\<lambda>_ _ g. g) 0
     [(5, null_addr, [''PLAY x'']), (-1, null_addr, []), (6, null_addr, [''OPTIONS *''])]
     (pr_conn (process_init demo_fs session_init)) []))"
  using little_app_serves_alike [of "\<lambda>_ _ g. g\<lparr>se_need_parameter_sets := False\<rparr>" "\<lambda>_ _ g. g" "\<lambda>_ _ _. 1" 0
      "[(5, null_addr, [''PLAY x'']), (-1, null_addr, []), (6, null_addr, [''OPTIONS *''])]" "process_init demo_fs session_init"]
  by (simp add: sender_only_def quiet_def Let_def case_prod_beta process_init_def)

text \<open>
  The file loop: when the network accepts the packets and the client keeps playing, \<open>n\<close> iterations
  transmit \<open>n\<close> NALUs of the file in order, from the first again after the last, at 30 frames per second.
\<close>

theorem little_file_loop_plays:
  assumes "quiet R" and "net_accepts N" and "\<forall>n \<in> set nalus. 2 \<le> length n"
    and "target_ready (fl_shared s)" and "fl_idx s < length nalus"
  shows "\<exists>s'. little_file_rtp_sender_loop R N nalus n s = Some s' \<and> fl_idx s' = (fl_idx s + n) mod length nalus \<and>
      udp_sent (fl_udp s') = udp_sent (fl_udp s) @ output_datagrams FILE_SSRC (fl_seq s)
        (map (\<lambda>k. (se_client_addr (sh_session (fl_shared s)), fl_timestamp s + of_nat k * 3000,
                   nalus ! ((fl_idx s + k) mod length nalus), 1)) [0..<n])"
proof -
  have "LITTLE_RTP_TS_STEP = 3000" by (simp add: LITTLE_RTP_TS_STEP_def LITTLE_VIDEO_FPS_def)
  with little_file_player.loop_calm [OF assms] show ?thesis by metis
qed

theorem little_file_loop_plays_witness:
  "\<exists>s'. little_file_rtp_sender_loop (\<lambda>_ g. g) (\<lambda>_ _. 1) [[38, 1, 7], [2, 1]] 3 demo_file_sender = Some s' \<and> fl_idx s' = 1"
proof -
  have e: "quiet (\<lambda>_ g. g)" "net_accepts (\<lambda>_ _. 1)" "\<forall>n \<in> set [[38, 1, 7 :: u8], [2, 1]]. 2 \<le> length n"
    by (simp_all add: quiet_def net_accepts_def)
  have i: "target_ready (fl_shared demo_file_sender)" "fl_idx demo_file_sender < length [[38, 1, 7 :: u8], [2, 1]]"
    "fl_idx demo_file_sender = 0"
    by (simp_all add: target_ready_def demo_file_sender_def file_sender_init_def session_play_def session_setup_def)
  have "(0 + 3) mod length [[38, 1, 7 :: u8], [2, 1]] = 1" by code_simp
  with little_file_loop_plays [OF e i(1,2), of 3] show ?thesis unfolding i(3) by metis
qed

end
