(* ===== verification/Spec2Isabelle.thy ===== *)
theory Spec2Isabelle
  imports Prelude Annexb Nalu_Loader Net Rtp Rtp_Buffer Ipc_Message Mmap Datafifo_Reader Session Playback
    Text Writer_Files Writer_Queue Byte_Buffer Snapshot Snapshot_Stream Sender Live_Path File_Sender Sockets Rtsp Cli Usage Server System
    Little_Rtp Little_Datafifo Little_Rtsp Little_App Little_Server
begin

text \<open>
  A verification development of the streaming application of the small core: RTSP and RTP for H.265, with a
  DATAFIFO from the big core, a file mode, and snapshots. Sources: \<open>src/src/*.c\<close> and \<open>src/lnc/*.h\<close>.

  \<^bold>\<open>The program.\<close> \<open>main\<close> parses the command line (\<open>parse_args\<close>), loads a file or takes the address of the
  DATAFIFO, starts the snapshot writer (DATAFIFO mode only) and the sender thread, and serves one RTSP client
  after the other (\<open>handle_rtsp_client\<close>). The RTSP thread and the sender thread share a session under
  \<open>g_mutex\<close>. The sender thread reads messages of the big core from the DATAFIFO, maps their packs,
  passes each NALU through a gate that holds a new client back until parameter sets and an IDR were sent,
  splits it into RTP packets, hands flagged frames to the snapshot module and releases the item;
  in file mode it plays the NALUs of a file in a loop. The snapshot module keeps parameter sets, the
  last random access picture and the current group of pictures, and queues streams for the writer
  thread, which stores them and calls ffmpeg.

  \<^bold>\<open>The theories\<close>, in the order of their imports, with the code they model:
  \<^item> \<open>Prelude\<close>: byte slices, words, the generic lemmas.
  \<^item> \<open>Annexb\<close>, \<open>Nalu_Loader\<close>: start codes and \<open>load_annexb_nalus\<close> (\<open>rtp.c\<close>), with the reference
    \<open>annexb_units\<close>, the NALUs of a byte stream, to which all loops over a stream are related.
  \<^item> \<open>Net\<close>, \<open>Sockets\<close>: addresses, \<open>sendto\<close>; \<open>create_udp_socket_only\<close> (\<open>rtp.c\<close>) and \<open>start_rtsp_server\<close> (\<open>rtsp.c\<close>).
  \<^item> \<open>Rtp\<close>, \<open>Rtp_Buffer\<close>: header, single packets, fragmentation units, buffers and packs (\<open>rtp.c\<close>). The
    specification is \<open>nalu_plan\<close>, the packets of a NALU, and a receiver that puts them together again.
  \<^item> \<open>Ipc_Message\<close>, \<open>Mmap\<close>, \<open>Datafifo_Reader\<close>: layout and validation of messages, mapping of physical
    memory, the reader (\<open>nalu_datafifo.c\<close>).
  \<^item> \<open>Session\<close>: the shared session, the critical sections of both threads and the machine of the RTSP
    steps (\<open>RTSP_Create.c\<close>, \<open>rtsp.c\<close>).
  \<^item> \<open>Playback\<close>: the live path with its parameter-set cache (\<open>RTSP_Create.c\<close>); the specification is the gate
    machine \<open>gate_run\<close> and \<open>decodable\<close>.
  \<^item> \<open>Text\<close>: decimal numbers, \<open>strstr\<close>, \<open>atoi\<close>.
  \<^item> \<open>Writer_Files\<close>, \<open>Writer_Queue\<close>: files, shell quoting, the queue of jobs and the writer thread
    (\<open>snapshot_writer.c\<close>); the interleavings of producer, writer and shutdown are a step relation.
  \<^item> \<open>Byte_Buffer\<close>, \<open>Snapshot\<close>, \<open>Snapshot_Stream\<close>: growing buffers, the snapshot cache, the stream
    that is handed over (\<open>datafifo_snapshot.c\<close>).
  \<^item> \<open>Sender\<close>, \<open>File_Sender\<close>: the two loops of the sender thread (\<open>RTSP_Create.c\<close>).
  \<^item> \<open>Rtsp\<close>: parsing, responses, \<open>handle_rtsp_client\<close> (\<open>rtsp.c\<close>).
  \<^item> \<open>Cli\<close>: \<open>parse_u64_arg\<close>, \<open>parse_args\<close>, \<open>load_file_source\<close> (\<open>RTSP_Create.c\<close>), \<open>read_whole_file\<close> (\<open>file.c\<close>).
  \<^item> \<open>Usage\<close>: \<open>print_usage\<close> of both versions, and that the commands it shows are accepted.
  \<^item> \<open>Server\<close>: \<open>main\<close>, \<open>rtp_sender_thread\<close>, \<open>cleanup_resources\<close> (\<open>RTSP_Create.c\<close>).
  \<^item> \<open>Live_Path\<close>: relations that a whole iteration of the DATAFIFO sender respects when the call for one NALU
    does: the effect on the session, the parameter-set cache, and the format of what is put on the wire.
  \<^item> \<open>System\<close>: the RTSP thread, the sender thread and the snapshot writer interleaved, with the
    invariant of the process, and each thread's assumption on the others discharged by what they do.
  \<^item> \<open>Little_Rtp\<close> (\<open>rtp.c\<close>), \<open>Little_Datafifo\<close> (\<open>nalu_datafifo.c\<close>), \<open>Little_Rtsp\<close> (\<open>rtsp.c\<close>), \<open>Little_App\<close> and
    \<open>Little_Server\<close> (\<open>RTSP_Create.c\<close>): the earlier version under \<open>src/little_app/src\<close>, a program of its
    own, with the prefix \<open>little_\<close> (\<open>little_app_\<close> for its \<open>little_sys_mmap\<close> and \<open>little_sys_munmap\<close>).
    The collection \<open>little_same\<close> holds which of its functions compute what those of the later version
    compute; the contracts (scanner, sender, pack mapper, item source, player) are interpreted on it again.

  \<^bold>\<open>How state and effects are modelled.\<close> C integers are words of their width where wrap-around matters;
  buffers are lists of bytes, pointers that may be NULL are options. Static variables and local
  variables of loops are records. Everything outside the program answers through an environment
  that is an argument and is otherwise arbitrary: the network, the TCP connection, the allocator, \<open>mmap\<close>, the
  DATAFIFO driver, the file system, the clock, the other threads. The other threads act where
  the code takes a mutex: an environment function of the number of the critical section changes the shared state, so a
  theorem about all environments is one about all interleavings; that the threads of the program are such
  environments for each other is shown in \<open>System\<close>. Documented behaviour that a property
  needs (a page size that is a power of two, a fresh mapping, a kernel that takes no more than it was
  given) is a named hypothesis.

  \<^bold>\<open>What is shown.\<close> End to end: after SETUP and PLAY a client gets parameter sets, an IDR and the stream in
  DATAFIFO mode, and the NALUs of the file in file mode (below). For each component: what it
  sends, stores or returns on every branch, under every environment (an initial part of a plan, or nothing); that
  items, mappings, blocks, sockets and streams are released exactly once on every path; that fixed
  buffers and caches suffice or stay in bounds; that loops end; round trips of headers, messages, loaded files,
  fragmentation, command line and requests. Properties that show a defect are marked as such.

  \<^bold>\<open>Bounds and fuel.\<close> Loops that may not end are \<open>partial_function (option)\<close> (waiting for PLAY, writing while
  the system interrupts) or count their iterations (the two sender loops, which are endless in the
  code, so that a statement for every number of iterations covers all that the code ever does). The loop of
  the writer thread gets as many iterations as there are jobs and one more, which is shown to be enough.

  \<^bold>\<open>Not modelled.\<close> \<open>printf\<close> and \<open>usleep\<close>, except where a log line has a computed value or a rate limit;
  the branches for \<open>_WIN32\<close> and \<open>USE_RT_SMART\<close>; the DATAFIFO driver and the kernel,
  which are parameters.
\<close>

section \<open>Properties across the components\<close>

text \<open>
  C2: From the command line to the client, in file mode: when the program was started with a file whose
  NALUs have at least two bytes, and a client has sent SETUP with its port and PLAY, the sender
  thread transmits to the client's IP address, at this port, the NALUs of the file in their order, one after
  the other and from the start again, each complete, while the network accepts the
  packets and the client plays.
\<close>

theorem file_mode_end_to_end:
  assumes "parse_args F A argv globals_init r = (0, g, r')" and "g_source g = STREAM_SOURCE_FILE"
    and "\<forall>n \<in> set (the (g_nalus g)). 2 \<le> length n"
    and "sender_only M" and "word_ok 255 url" and "no_keyword url" and "i < 2 ^ 31" and "j < 2 ^ 31"
    and "0 < port" and "port \<le> 65535"
    and "quiet R" and "net_accepts N" and "0 \<le> sk_socket K SOCK_DGRAM"
    and "0 \<le> sk_bind K (sk_socket K SOCK_DGRAM) (local_address 5004)"
  shows "\<exists>buf s'. let ns = map fst (annexb_units buf 0);
      c' = handle_rtsp_loop S M cli [setup_request url i port, play_request url j] c;
      dest = cli\<lparr>sin_port := htons (of_nat port)\<rparr> in
    g_file_buf g = Some buf \<and> ns \<noteq> [] \<and>
    fst (rtp_sender_thread K g V sd R N u (rc_shared c') n tr) = Running_file s' \<and>
    udp_sent (fl_udp s') = udp_sent u @ output_datagrams FILE_SSRC 0
      (map (\<lambda>k. (dest, 0x12345678 + of_nat k * RTP_TS_STEP, ns ! (k mod length ns), 1)) [0..<n])"
proof -
  obtain buf ns where src: "g_file_buf g = Some buf" "g_nalus g = Some ns" "ns \<noteq> []" "ns = map fst (annexb_units buf 0)"
    using parse_args_cases [OF assms(1)] assms(2) by (auto simp: source_ok_def)
  let ?c = "handle_rtsp_loop S M cli [setup_request url i port, play_request url j] c"
  let ?s = "file_sender_init u (rc_shared ?c)"
  have ready: "target_ready (fl_shared ?s)"
    and dest: "se_client_addr (sh_session (fl_shared ?s)) = cli\<lparr>sin_port := htons (of_nat port)\<rparr>"
    using handle_setup_play [OF assms(4-10), of S cli c]
    by (simp_all add: Let_def file_sender_init_def conn_session_def)
  have "fl_idx ?s < length ns" using src(3) by (simp add: file_sender_init_def)
  from file_player.loop_calm [OF assms(11,12) _ ready this, of n] assms(3) src(2) dest obtain s'
    where s': "file_rtp_sender_loop R N ns n ?s = Some s'"
      "udp_sent (fl_udp s') = udp_sent u @ output_datagrams FILE_SSRC 0
        (map (\<lambda>k. (cli\<lparr>sin_port := htons (of_nat port)\<rparr>, 0x12345678 + of_nat k * RTP_TS_STEP, ns ! (k mod length ns), 1)) [0..<n])"
    by (auto simp: file_sender_init_def)
  have "fst (rtp_sender_thread K g V sd R N u (rc_shared ?c) n tr) = Running_file s'"
    using assms(2,13,14) s'(1) src(2)
    by (simp add: rtp_sender_thread_def create_udp_socket_only_def RTP_SERVER_PORT_def Let_def)
  with s'(2) src show ?thesis by (intro exI [of _ buf] exI [of _ s']) (simp add: Let_def)
qed

theorem file_mode_end_to_end_witness:
  "\<exists>s'. fst (rtp_sender_thread \<lparr>sk_socket = (\<lambda>_. 3), sk_bind = (\<lambda>_ _. 0), sk_listen = (\<lambda>_. 0)\<rparr>
       (fst (snd (parse_args demo_files (\<lambda>_ _. True) [''rtsp'', ''a.h265''] globals_init \<lparr>rs_files = 0, rs_blocks = 0\<rparr>)))
       demo_sender_env (demo_sender 0) (\<lambda>_ g. g) (\<lambda>_ _. 1) \<lparr>udp_calls = 0, udp_sent = []\<rparr>
       (rc_shared (handle_rtsp_loop (\<lambda>_ _. 1) (\<lambda>_ g. g) \<lparr>sin_family = 2, sin_port = 9, sin_addr = 7\<rparr>
          [setup_request ''*'' 1 5000, play_request ''*'' 2] (pr_conn (process_init demo_fs session_init)))) 2 []) =
     Running_file s' \<and>
     udp_sent (fl_udp s') = output_datagrams FILE_SSRC 0
       [(\<lparr>sin_family = 2, sin_port = htons 5000, sin_addr = 7\<rparr>, 0x12345678, [64, 1], 1),
        (\<lparr>sin_family = 2, sin_port = htons 5000, sin_addr = 7\<rparr>, 0x12345678 + RTP_TS_STEP, [64, 1], 1)]"
proof -
  let ?K = "\<lparr>sk_socket = (\<lambda>_. 3), sk_bind = (\<lambda>_ _. 0), sk_listen = (\<lambda>_. 0)\<rparr>"
  have units: "annexb_units [0, 0, 0, 1, 64, 1] 0 = [([64, 1], True)]" by code_simp
  have "file_holds demo_files ''a.h265'' [0, 0, 0, 1, 64, 1]" by (simp add: file_holds_def demo_files_def)
  then have "fst (load_file_source demo_files (\<lambda>_ _. True) ''a.h265'' globals_init \<lparr>rs_files = 0, rs_blocks = 0\<rparr>) = 0"
    by (rule load_file_source_ok) (simp_all add: units)
  then obtain g r' where l: "load_file_source demo_files (\<lambda>_ _. True) ''a.h265'' globals_init
      \<lparr>rs_files = 0, rs_blocks = 0\<rparr> = (0, g, r')" by (metis prod.collapse)
  then have pa: "parse_args demo_files (\<lambda>_ _. True) [''rtsp'', ''a.h265''] globals_init \<lparr>rs_files = 0, rs_blocks = 0\<rparr> =
      (0, g, r')" by (simp add: parse_args_def globals_init_def)
  have g: "g_source g = STREAM_SOURCE_FILE" "g_file_buf g = Some [0, 0, 0, 1, 64, 1]" "g_nalus g = Some [[64, 1]]"
    using load_file_source_cases [OF l] units by (auto simp: globals_init_def demo_files_def)
  have q: "sender_only (\<lambda>_ g. g)" "word_ok 255 ''*''" "no_keyword ''*''" "quiet (\<lambda>_ g. g)" "net_accepts (\<lambda>_ _. 1)"
    by (simp_all add: sender_only_def word_ok_def is_space_def no_keyword_def sublist_Cons_right quiet_def net_accepts_def)
  have two: "[0..<2] = [0, 1]" by (simp add: upt_rec)
  have n: "\<forall>n \<in> set (the (g_nalus g)). 2 \<le> length n" by (simp add: g)
  from file_mode_end_to_end [OF pa g(1) n q(1-3), of 1 2 5000 "\<lambda>_ g. g" "\<lambda>_ _. 1" ?K "\<lambda>_ _. 1"
      "\<lparr>sin_family = 2, sin_port = 9, sin_addr = 7\<rparr>" "pr_conn (process_init demo_fs session_init)"
      demo_sender_env "demo_sender 0" "\<lparr>udp_calls = 0, udp_sent = []\<rparr>" 2 "[]"]
  show ?thesis by (simp add: q(4,5) pa g(2) units Let_def two del: output_datagrams.simps)
qed



end
